(* ===== verification/Gyro_Prelude.thy ===== *)
theory Gyro_Prelude
  imports Main "HOL-Library.Word"
begin

unbundle bit_operations_syntax

text \<open>
  Shared vocabulary of the development: the names of the machine types the C++ sources use
  (\<open>uint8_t\<close> to \<open>uint64_t\<close>, byte strings), the collections of rewrite rules the
  component theories extend, and the generic facts on words, digit lists and division that
  several components need.
\<close>

section \<open>Machine types\<close>

type_synonym byte = "8 word"
type_synonym u8 = "8 word"
type_synonym u16 = "16 word"
type_synonym u32 = "32 word"
type_synonym u64 = "64 word"

text \<open>A \<open>std::string\<close> that carries binary data (a \<open>blobdata\<close> of the sources).\<close>

type_synonym blob = "byte list"

text \<open>
  How an operation can end other than by returning: an access outside a container, a failed
  assertion, a division by zero, or an exception of the database or of the operation itself.
\<close>

datatype error = Out_of_range | Assertion_failed | Block_does_not_exist | Db_error | Runtime_error | Length_error | Division_by_zero

type_synonym 'a result = "error + 'a"

fun and_then :: "'a result \<Rightarrow> ('a \<Rightarrow> 'b result) \<Rightarrow> 'b result" where
  "and_then (Inl e) f = Inl e"
| "and_then (Inr x) f = f x"

lemma and_then_Inr: "and_then r f = Inr y \<longleftrightarrow> (\<exists>x. r = Inr x \<and> f x = Inr y)"
  by (cases r) auto

text \<open>For recursion under \<open>and_then\<close>: a theory declares it where a termination proof needs the bound value.\<close>

lemma and_then_cong:
  "r = r' \<Longrightarrow> (\<And>x. r' = Inr x \<Longrightarrow> f x = g x) \<Longrightarrow> and_then r f = and_then r' g"
  by (cases r') auto

text \<open>\<open>xs[i]\<close>, with the access outside the bounds made explicit.\<close>

definition at :: "'a list \<Rightarrow> nat \<Rightarrow> 'a result" where
  "at xs i = (if i < length xs then Inr (xs ! i) else Inl Out_of_range)"

lemma at_inside [simp]: "i < length xs \<Longrightarrow> at xs i = Inr (xs ! i)"
  by (simp add: at_def)

section \<open>Codecs\<close>

text \<open>
  The contract of a pair of coding functions: every value has a code from which it is
  read back, and what is read from a text has that text as its code.
\<close>

locale codec =
  fixes enc :: "'a \<Rightarrow> 'b result" and dec :: "'b \<Rightarrow> 'a option"
  assumes encoded: "\<exists>e. enc d = Inr e \<and> dec e = Some d"
    and canonical: "dec e = Some d \<Longrightarrow> enc d = Inr e"
begin

lemma decode_iff: "dec e = Some d \<longleftrightarrow> enc d = Inr e"
  using encoded [of d] canonical by auto

lemma encode_inject: "enc d = enc d' \<longleftrightarrow> d = d'"
  using encoded [of d] encoded [of d'] by auto

lemma decode_inject: "dec e = Some d \<Longrightarrow> dec e' = Some d \<Longrightarrow> e = e'"
  using canonical [of e d] canonical [of e' d] by simp

end

named_theorems byte_simps \<open>bit-level operations on words, read as arithmetic on natural numbers\<close>
named_theorems range_simps \<open>ranges of machine integers\<close>

section \<open>Words\<close>

lemma unat_byte_less [range_simps]: "unat (b :: byte) < 256"
  using unsigned_less [of b, where ?'a = nat] by simp

lemma unat_of_nat_byte [byte_simps]: "n < 256 \<Longrightarrow> unat (of_nat n :: byte) = n"
  by (simp add: unat_of_nat)

lemma word_eq_of_natI: "unat w = n \<Longrightarrow> w = of_nat n"
  by auto

lemma unat_u64_less [range_simps]: "unat (x :: u64) < 2 ^ 64"
  using unsigned_less [of x, where ?'a = nat] by simp

lemma unat_and_mask [byte_simps]: "unat (w AND mask n) = unat w mod 2 ^ n"
proof -
  have "unat (take_bit n w) = take_bit n (unat w)"
    by (rule unsigned_take_bit_eq)
  then show ?thesis
    by (simp add: take_bit_eq_mask flip: take_bit_eq_mod)
qed

lemma unat_and_0x7f [byte_simps]: "unat ((b :: byte) AND 0x7f) = unat b mod 128"
  using unat_and_mask [of b 7] by (simp add: mask_eq_exp_minus_1)

lemma byte_and_0x80_eq_0 [byte_simps]: "(b :: byte) AND 0x80 = 0 \<longleftrightarrow> unat b < 128"
proof -
  have "b AND 0x80 = 0 \<longleftrightarrow> \<not> bit b 7"
    using and_exp_eq_0_iff_not_bit [of b 7] by simp
  also have "bit b 7 \<longleftrightarrow> bit (unat b) 7"
    by (simp add: bit_simps)
  also have "\<dots> \<longleftrightarrow> odd (unat b div 128)"
    by (simp add: bit_iff_odd)
  also have "\<dots> \<longleftrightarrow> \<not> unat b < 128"
  proof -
    have "unat b div 128 < 2"
      using unat_byte_less [of b] by linarith
    then have "odd (unat b div 128) \<longleftrightarrow> unat b div 128 \<noteq> 0"
      by (cases "unat b div 128") (auto simp: less_2_cases_iff)
    then show ?thesis
      by (simp add: div_eq_0_iff)
  qed
  finally show ?thesis
    by simp
qed

lemma or_disjoint_nat: "a < 2 ^ s \<Longrightarrow> a OR (k * 2 ^ s) = a + k * 2 ^ s" for a k :: nat
proof -
  assume a: "a < 2 ^ s"
  then have "take_bit s a = a"
    by (simp add: take_bit_nat_eq_self)
  then have "\<not> bit a n" if "s \<le> n" for n
    using that by (metis bit_take_bit_iff linorder_not_le)
  then have "a AND push_bit s k = 0"
    by (auto simp: bit_eq_iff bit_simps)
  then show ?thesis
    using disjunctive_add_eq_or [of a "push_bit s k"] by (simp add: push_bit_eq_mult)
qed

lemma unat_drop_bit [byte_simps]: "unat (drop_bit n w) = unat w div 2 ^ n"
  by (metis unat_drop_bit_eq drop_bit_eq_div)

lemma unat_push_bit [byte_simps]:
  fixes x :: "'a::len word"
  assumes "unat x * 2 ^ s < 2 ^ LENGTH('a)"
  shows "unat (push_bit s x) = unat x * 2 ^ s"
proof -
  have "unat (push_bit s x) = take_bit LENGTH('a) (push_bit s (unat x))"
    by (rule unsigned_push_bit_eq)
  then show ?thesis
    using assms by (simp add: push_bit_eq_mult take_bit_nat_eq_self)
qed

lemma unat_or_push_bit [byte_simps]:
  fixes w x :: "'a::len word"
  assumes "unat w < 2 ^ s" and "unat x * 2 ^ s < 2 ^ LENGTH('a)"
  shows "unat (w OR push_bit s x) = unat w + unat x * 2 ^ s"
proof -
  have "unat (w OR push_bit s x) = unat w OR unat (push_bit s x)"
    by (rule unsigned_or_eq)
  then show ?thesis
    using assms by (simp add: unat_push_bit or_disjoint_nat)
qed

section \<open>Powers of two\<close>

lemma high_digit_nat: "128 \<le> n \<Longrightarrow> n < 256 \<Longrightarrow> n mod 128 + 128 = n" for n :: nat
  by (auto simp: le_iff_add)

lemma shifted_bound:
  assumes "n * 2 ^ shift < (2 :: nat) ^ bits" and "2 ^ k \<le> n"
  shows "shift + k < bits"
proof -
  have "(2 :: nat) ^ (shift + k) \<le> n * 2 ^ shift"
    using assms(2) by (simp add: power_add)
  with assms(1) have "(2 :: nat) ^ (shift + k) < 2 ^ bits"
    by linarith
  then show ?thesis
    by simp
qed

lemma below_shifted_bound:
  assumes "n * 2 ^ shift < (2 :: nat) ^ bits"
  shows "n < 2 ^ (bits - shift)"
proof (cases "n = 0")
  case False
  then have "shift < bits"
    using shifted_bound [OF assms, of 0] by simp
  with assms have "n * 2 ^ shift < 2 ^ (bits - shift) * 2 ^ shift"
    by (simp flip: power_add)
  then show ?thesis
    by simp
qed simp

end
