(* ===== verification/Varint.thy ===== *)
theory Varint
  imports Gyro_Prelude
begin

unbundle bit_operations_syntax

text \<open>
  The variable-length integers of \<open>src/common/varint.h\<close>: \<open>write_varint\<close>,
  \<open>get_varint_data\<close> and both \<open>read_varint\<close> templates. The template type \<open>T\<close> is a
  word type of any width; an output iterator is the list of bytes it receives, an input
  range is the list of bytes still to be read, so a reader returns what is left of it.
\<close>

section \<open>Definitions\<close>

definition EVARINT_OVERFLOW :: int where
  "EVARINT_OVERFLOW = -1"

definition EVARINT_REPRESENT :: int where
  "EVARINT_REPRESENT = -2"

text \<open>The comparison with \<open>0x80\<close> is made after integer promotion, hence on \<open>unat\<close>.\<close>

function write_varint :: "'a::len word \<Rightarrow> blob" where
  "write_varint i =
     (if 0x80 \<le> unat i then ((ucast i AND 0x7f) OR 0x80) # write_varint (drop_bit 7 i)
      else [ucast i])"
  by pat_completeness auto
termination
  by (relation "measure unat") (auto simp: unat_drop_bit)

definition get_varint_data :: "'a::len word \<Rightarrow> blob" where
  "get_varint_data v = write_varint v"

text \<open>
  The loop of \<open>read_varint<bits>\<close>. Its state is \<open>shift\<close>, \<open>read\<close> and \<open>write\<close> (here \<open>wr\<close>); the
  result is the returned \<open>int\<close>, the final \<open>write\<close> and the bytes not consumed. The
  byte that stops the loop with an error has been consumed.
\<close>

fun read_varint_loop ::
  "nat \<Rightarrow> blob \<Rightarrow> nat \<Rightarrow> int \<Rightarrow> 'a::len word \<Rightarrow> int \<times> 'a word \<times> blob" where
  "read_varint_loop bits [] shift rd wr = (rd, wr, [])"
| "read_varint_loop bits (byte # bytes) shift rd wr =
     (if bits \<le> shift + 7 \<and> 2 ^ (bits - shift) \<le> unat byte then
        (EVARINT_OVERFLOW, wr, bytes)
      else if byte = 0 \<and> shift \<noteq> 0 then (EVARINT_REPRESENT, wr, bytes)
      else
        (let wr' = wr OR push_bit shift (ucast (byte AND 0x7f)) in
         if byte AND 0x80 = 0 then (rd + 1, wr', bytes)
         else read_varint_loop bits bytes (shift + 7) (rd + 1) wr'))"

definition read_varint_bits :: "nat \<Rightarrow> blob \<Rightarrow> int \<times> 'a::len word \<times> blob" where
  "read_varint_bits bits bytes = read_varint_loop bits bytes 0 0 0"

definition read_varint :: "blob \<Rightarrow> int \<times> 'a::len word \<times> blob" where
  "read_varint bytes = read_varint_bits LENGTH('a) bytes"

text \<open>
  Reference encoding, on unbounded numbers: base-128 digits, least significant first, the
  high bit set on every digit but the last (the format the header comment describes).
\<close>

fun leb128 :: "nat \<Rightarrow> blob" where
  "leb128 n = (if n < 128 then [of_nat n] else of_nat (n mod 128 + 128) # leb128 (n div 128))"

declare write_varint.simps [simp del]
declare leb128.simps [simp del]

section \<open>The writer is the reference encoding\<close>

lemma varint_digit: "(ucast i AND 0x7f) OR 0x80 = (of_nat (unat i mod 128 + 128) :: byte)"
proof -
  have "unat (ucast i AND 0x7f :: byte) = unat i mod 128"
    by (simp add: byte_simps unsigned_ucast_eq take_bit_eq_mod mod_mod_cancel)
  then have "unat ((ucast i AND 0x7f) OR push_bit 7 1 :: byte) = unat i mod 128 + 128"
    by (subst unat_or_push_bit) auto
  then have "unat ((ucast i AND 0x7f) OR 0x80 :: byte) = unat (of_nat (unat i mod 128 + 128) :: byte)"
    by (simp add: byte_simps del: of_nat_add)
  then show ?thesis
    by (simp only: word_unat_eq_iff)
qed

lemma write_varint_leb128: "write_varint i = leb128 (unat i)"
proof (induction i rule: write_varint.induct)
  case (1 i)
  show ?case
  proof (cases "128 \<le> unat i")
    case True
    then have "write_varint (drop_bit 7 i) = leb128 (unat i div 128)"
      using "1.IH" by (simp add: unat_drop_bit)
    with True show ?thesis
      by (simp add: write_varint.simps [of i] leb128.simps [of "unat i"] varint_digit)
  next
    case False
    then show ?thesis
      by (simp add: write_varint.simps [of i] leb128.simps [of "unat i"])
  qed
qed


section \<open>The reader\<close>

lemma leb128_length_pos [simp]: "0 < length (leb128 n)"
  by (subst leb128.simps) simp

lemma leb128_last_digit:
  assumes "n < 128"
  obtains b where "leb128 n = [b]" and "unat b = n"
  using assms by (subst (asm) leb128.simps) (simp add: byte_simps)

lemma leb128_next_digit:
  assumes "\<not> n < 128"
  obtains b where "leb128 n = b # leb128 (n div 128)" and "unat b = n mod 128 + 128"
  using assms by (subst (asm) leb128.simps) (simp add: byte_simps del: of_nat_add)

lemma accumulate_digit:
  fixes wr :: "'a::len word" and b :: byte
  assumes "unat wr < 2 ^ shift" and "unat b mod 128 * 2 ^ shift < 2 ^ LENGTH('a)"
  shows "unat (wr OR push_bit shift (ucast (b AND 0x7f))) = unat wr + unat b mod 128 * 2 ^ shift"
proof -
  have "unat b mod 128 \<le> unat b mod 128 * 2 ^ shift"
    by simp
  with assms(2) have "unat (b AND 0x7f) < 2 ^ LENGTH('a)"
    unfolding unat_and_0x7f by linarith
  then have "unat (ucast (b AND 0x7f) :: 'a word) = unat b mod 128"
    by (simp add: unsigned_ucast_eq take_bit_nat_eq_self unat_and_0x7f)
  then show ?thesis
    using assms by (simp add: unat_or_push_bit)
qed

text \<open>The three outcomes of one round of the loop that reads a byte without an error.\<close>

lemma read_last_digit:
  assumes "unat b < 128" and "unat b < 2 ^ (bits - shift)" and "shift = 0 \<or> unat b \<noteq> 0"
  shows "read_varint_loop bits (b # bs) shift rd wr =
           (rd + 1, wr OR push_bit shift (ucast (b AND 0x7f)), bs)"
  using assms by (auto simp: byte_and_0x80_eq_0 Let_def unat_0_iff)

lemma read_next_digit:
  assumes "128 \<le> unat b" and "shift + 7 < bits"
  shows "read_varint_loop bits (b # bs) shift rd wr =
           read_varint_loop bits bs (shift + 7) (rd + 1) (wr OR push_bit shift (ucast (b AND 0x7f)))"
proof -
  have "b \<noteq> 0"
    using assms(1) by auto
  then show ?thesis
    using assms by (simp add: byte_and_0x80_eq_0 Let_def)
qed

lemma read_overflow:
  assumes "bits \<le> shift + 7" and "2 ^ (bits - shift) \<le> unat b"
  shows "fst (read_varint_loop bits (b # bs) shift rd wr) = EVARINT_OVERFLOW"
  using assms by simp

lemma read_represent:
  assumes "shift \<noteq> 0" and "\<not> (bits \<le> shift + 7 \<and> 2 ^ (bits - shift) \<le> unat (0 :: byte))"
  shows "fst (read_varint_loop bits (0 # bs) shift rd wr) = EVARINT_REPRESENT"
  using assms by simp

declare read_varint_loop.simps(2) [simp del]

lemma digit_split: "n * 2 ^ shift = n mod 128 * 2 ^ shift + n div 128 * 2 ^ (shift + 7)" for n :: nat
proof -
  have "n * 2 ^ shift = (n div 128 * 128 + n mod 128) * 2 ^ shift"
    by simp
  then show ?thesis
    by (simp only: add_mult_distrib power_add) simp
qed

lemma accumulated_bound:
  assumes "w < (2 :: nat) ^ shift"
  shows "w + n mod 128 * 2 ^ shift < 2 ^ (shift + 7)"
proof -
  have "w + n mod 128 * 2 ^ shift < 2 ^ shift + n mod 128 * 2 ^ shift"
    using assms by simp
  also have "\<dots> = (n mod 128 + 1) * 2 ^ shift"
    by simp
  also have "\<dots> \<le> 128 * 2 ^ shift"
    by (intro mult_le_mono1) (simp add: Suc_le_eq)
  finally show ?thesis
    by (simp add: power_add)
qed

lemma read_loop_leb128:
  fixes wr :: "'a::len word"
  assumes "bits \<le> LENGTH('a)" and "n * 2 ^ shift < 2 ^ bits" and "unat wr < 2 ^ shift"
    and "shift = 0 \<or> n \<noteq> 0"
  shows "read_varint_loop bits (leb128 n @ rest) shift rd wr =
           (rd + int (length (leb128 n)), of_nat (unat wr + n * 2 ^ shift), rest)"
  using assms
proof (induction n arbitrary: shift rd wr rule: leb128.induct)
  case (1 n)
  let ?acc = "\<lambda>b. wr OR push_bit shift (ucast (b AND 0x7f)) :: 'a word"
  have len: "(2 :: nat) ^ bits \<le> 2 ^ LENGTH('a)"
    using "1.prems"(1) by simp
  note acc = accumulate_digit [OF "1.prems"(3)]
  show ?case
  proof (cases "n < 128")
    case True
    obtain b where b: "leb128 n = [b]" "unat b = n"
      using True by (rule leb128_last_digit)
    have "unat (?acc b) = unat wr + n * 2 ^ shift"
      using acc [of b] "1.prems"(2) len True b by simp
    then have "?acc b = of_nat (unat wr + n * 2 ^ shift)"
      by (rule word_eq_of_natI)
    then show ?thesis
      using below_shifted_bound [OF "1.prems"(2)] "1.prems"(4) True b
      by (simp add: read_last_digit)
  next
    case False
    obtain b where b: "leb128 n = b # leb128 (n div 128)" "unat b = n mod 128 + 128"
      using False by (rule leb128_next_digit)
    have sh: "shift + 7 < bits"
      using shifted_bound [OF "1.prems"(2), of 7] False by simp
    have w': "unat (?acc b) = unat wr + n mod 128 * 2 ^ shift"
      using acc [of b] "1.prems"(2) len digit_split [of n shift] b by simp
    then have "unat (?acc b) < 2 ^ (shift + 7)"
      using accumulated_bound [OF "1.prems"(3)] by simp
    moreover have "n div 128 * 2 ^ (shift + 7) < 2 ^ bits" and "n div 128 \<noteq> 0"
      using "1.prems"(2) digit_split [of n shift] False by (auto simp: div_eq_0_iff)
    ultimately have "read_varint_loop bits (leb128 (n div 128) @ rest) (shift + 7) (rd + 1) (?acc b) =
        (rd + 1 + int (length (leb128 (n div 128))), of_nat (unat (?acc b) + n div 128 * 2 ^ (shift + 7)), rest)"
      using "1.IH" [OF False "1.prems"(1)] by blast
    moreover have "unat (?acc b) + n div 128 * 2 ^ (shift + 7) = unat wr + n * 2 ^ shift"
      using w' digit_split [of n shift] by linarith
    ultimately show ?thesis
      using sh b by (simp add: read_next_digit)
  qed
qed

text \<open>A number that does not fit in \<open>bits\<close> is refused, wherever the overflow shows.\<close>

lemma read_loop_overflow:
  fixes wr :: "'a::len word"
  assumes "bits \<le> LENGTH('a)" and "2 ^ bits \<le> n * 2 ^ shift" and "shift < bits"
  shows "fst (read_varint_loop bits (leb128 n @ rest) shift rd wr) = EVARINT_OVERFLOW"
  using assms
proof (induction n arbitrary: shift rd wr rule: leb128.induct)
  case (1 n)
  have big: "2 ^ (bits - shift) \<le> n"
  proof -
    have "2 ^ (bits - shift) * 2 ^ shift \<le> n * 2 ^ shift"
      using "1.prems"(2,3) by (simp flip: power_add)
    then show ?thesis
      by simp
  qed
  show ?case
  proof (cases "n < 128")
    case True
    obtain b where b: "leb128 n = [b]" "unat b = n"
      using True by (rule leb128_last_digit)
    have "(2 :: nat) ^ (bits - shift) < 2 ^ 7"
      using big True by simp
    then have "bits - shift < 7"
      using power_less_imp_less_exp [of "2 :: nat" "bits - shift" 7] by simp
    then show ?thesis
      using b big by (simp add: read_overflow)
  next
    case False
    obtain b where b: "leb128 n = b # leb128 (n div 128)" "unat b = n mod 128 + 128"
      using False by (rule leb128_next_digit)
    show ?thesis
    proof (cases "shift + 7 < bits")
      case True
      have "2 ^ (bits - (shift + 7)) \<le> n div 128"
      proof -
        have "(2 :: nat) ^ (bits - shift) = 2 ^ (bits - (shift + 7) + 7)"
          using True by (intro arg_cong [of _ _ "power 2"]) simp
        then have "(2 :: nat) ^ (bits - shift) = 2 ^ (bits - (shift + 7)) * 128"
          by (simp add: power_add)
        then show ?thesis
          using big by (simp add: less_eq_div_iff_mult_less_eq)
      qed
      then have "2 ^ (bits - (shift + 7)) * 2 ^ (shift + 7) \<le> n div 128 * 2 ^ (shift + 7)"
        by (rule mult_le_mono1)
      then have "2 ^ bits \<le> n div 128 * 2 ^ (shift + 7)"
        using True by (simp flip: power_add)
      then show ?thesis
        using "1.IH" [OF False "1.prems"(1) _ True] True b by (simp add: read_next_digit)
    next
      case big_shift: False
      have "(2 :: nat) ^ (bits - shift) \<le> 2 ^ 7"
        using big_shift by (intro power_increasing) auto
      then show ?thesis
        using b big_shift by (simp add: read_overflow)
    qed
  qed
qed

text \<open>
  Completeness of the reader's checks: whatever it accepts and that ends with a byte whose
  high bit is clear is the encoding the writer produces.
\<close>

lemma read_loop_canonical:
  fixes wr v :: "'a::len word"
  assumes "read_varint_loop bits bs shift rd wr = (n, v, rest)" and "0 \<le> rd" and "0 \<le> n"
    and "bits \<le> LENGTH('a)" and "shift < bits" and "unat wr < 2 ^ shift"
    and "bs = used @ rest" and "used \<noteq> []" and "unat (last used) < 128"
  shows "\<exists>k. used = leb128 k \<and> k * 2 ^ shift < 2 ^ bits \<and> (shift = 0 \<or> k \<noteq> 0)
           \<and> n = rd + int (length used) \<and> unat v = unat wr + k * 2 ^ shift"
  using assms
proof (induction bs arbitrary: shift rd wr used)
  case Nil
  then show ?case by simp
next
  case (Cons b bs)
  let ?acc = "wr OR push_bit shift (ucast (b AND 0x7f)) :: 'a word"
  obtain used' where used: "used = b # used'" "bs = used' @ rest"
    using Cons.prems(7,8) by (cases used) auto
  have len: "(2 :: nat) ^ bits \<le> 2 ^ LENGTH('a)"
    using Cons.prems(4) by simp
  have no_ovf: "\<not> (bits \<le> shift + 7 \<and> 2 ^ (bits - shift) \<le> unat b)"
    using Cons.prems(1,3) read_overflow [of bits shift b bs rd wr] by (auto simp: EVARINT_OVERFLOW_def)
  have no_repr: "\<not> (b = 0 \<and> shift \<noteq> 0)"
    using no_ovf Cons.prems(1,3) read_represent [of shift bits bs rd wr]
    by (cases "shift = 0") (auto simp: EVARINT_REPRESENT_def)
  show ?case
  proof (cases "unat b < 128")
    case True
    have "unat b < 2 ^ (bits - shift)"
    proof (cases "bits \<le> shift + 7")
      case False
      then have "(2 :: nat) ^ 7 \<le> 2 ^ (bits - shift)"
        by (intro power_increasing) auto
      with True show ?thesis by simp
    qed (use no_ovf in simp)
    then have fits: "unat b * 2 ^ shift < 2 ^ bits"
      using Cons.prems(5) mult_less_mono1 [of "unat b" "2 ^ (bits - shift)" "2 ^ shift"]
      by (simp flip: power_add)
    have "read_varint_loop bits (b # bs) shift rd wr = (rd + 1, ?acc, bs)"
      using True \<open>unat b < 2 ^ (bits - shift)\<close> no_repr by (intro read_last_digit) (auto simp: unat_0_iff)
    then have res: "n = rd + 1" "v = ?acc" "rest = bs"
      using Cons.prems(1) by auto
    have "leb128 (unat b) = [b]"
      using True by (simp add: leb128.simps)
    moreover have "unat ?acc = unat wr + unat b * 2 ^ shift"
      using accumulate_digit [OF Cons.prems(6), of b] fits len True by simp
    ultimately show ?thesis
      using used res fits no_repr by (intro exI [of _ "unat b"]) (auto simp: unat_0_iff)
  next
    case False
    have sh: "shift + 7 < bits"
    proof (rule ccontr)
      assume "\<not> shift + 7 < bits"
      then have "(2 :: nat) ^ (bits - shift) \<le> 2 ^ 7"
        by (intro power_increasing) auto
      with False no_ovf \<open>\<not> shift + 7 < bits\<close> show False by simp
    qed
    have step: "read_varint_loop bits bs (shift + 7) (rd + 1) ?acc = (n, v, rest)"
      using Cons.prems(1) False sh by (simp add: read_next_digit)
    have tail: "used' \<noteq> []" "unat (last used') < 128"
      using Cons.prems(9) used False by (auto split: if_splits)
    have "unat b mod 128 * 2 ^ shift < 2 ^ (shift + 7)"
      by (simp add: power_add)
    also have "(2 :: nat) ^ (shift + 7) \<le> 2 ^ LENGTH('a)"
      using sh Cons.prems(4) by (intro power_increasing) auto
    finally have acc: "unat ?acc = unat wr + unat b mod 128 * 2 ^ shift"
      using accumulate_digit [OF Cons.prems(6), of b] by simp
    then have "unat ?acc < 2 ^ (shift + 7)"
      using accumulated_bound [OF Cons.prems(6)] by simp
    moreover have "0 \<le> rd + 1"
      using Cons.prems(2) by simp
    ultimately obtain k where k: "used' = leb128 k" "k * 2 ^ (shift + 7) < 2 ^ bits" "k \<noteq> 0"
        "n = rd + 1 + int (length used')" "unat v = unat ?acc + k * 2 ^ (shift + 7)"
      using Cons.IH [OF step _ Cons.prems(3,4) sh _ used(2) tail] by auto
    define N where "N = unat b mod 128 + 128 * k"
    have N: "N mod 128 = unat b mod 128" "N div 128 = k"
      by (simp_all add: N_def)
    have "\<not> N < 128"
      using k(3) by (simp add: N_def)
    then obtain b' where b': "leb128 N = b' # leb128 (N div 128)" "unat b' = N mod 128 + 128"
      by (rule leb128_next_digit)
    have "unat b = unat b mod 128 + 128"
      using False high_digit_nat [of "unat b"] by (simp add: range_simps)
    then have "leb128 N = used"
      using b' k(1) used(1) N by (simp add: word_unat_eq_iff)
    moreover have "N * 2 ^ shift = unat b mod 128 * 2 ^ shift + k * 2 ^ (shift + 7)"
      using digit_split [of N shift] N by simp
    moreover have "N * 2 ^ shift < 2 ^ bits"
    proof -
      have "2 ^ bits = 2 ^ (bits - (shift + 7)) * (2 :: nat) ^ (shift + 7)"
        using sh by (simp flip: power_add)
      then have "k < 2 ^ (bits - (shift + 7))"
        using k(2) by simp
      then have "(k + 1) * 2 ^ (shift + 7) \<le> 2 ^ (bits - (shift + 7)) * 2 ^ (shift + 7)"
        by (intro mult_le_mono1) simp
      then have "k * 2 ^ (shift + 7) + 2 ^ (shift + 7) \<le> 2 ^ bits"
        by (simp only: \<open>2 ^ bits = _\<close> add_mult_distrib mult_1)
      then show ?thesis
        using \<open>N * 2 ^ shift = _\<close> \<open>unat b mod 128 * 2 ^ shift < 2 ^ (shift + 7)\<close> by linarith
    qed
    moreover have "N \<noteq> 0" and "n = rd + int (length used)"
      using k(3,4) used(1) by (simp_all add: N_def)
    moreover have "unat v = unat wr + N * 2 ^ shift"
      using k(5) acc \<open>N * 2 ^ shift = _\<close> by linarith
    ultimately show ?thesis
      by (intro exI [of _ N] conjI disjI2) simp_all
  qed
qed

lemma read_varint_get_varint_data:
  "read_varint (get_varint_data (v :: 'a::len word) @ rest) = (int (length (get_varint_data v)), v, rest)"
  using read_loop_leb128 [of "LENGTH('a)" "unat v" 0 "0 :: 'a word" rest 0]
  by (simp add: read_varint_def read_varint_bits_def get_varint_data_def write_varint_leb128)

lemma read_varint_used:
  fixes v :: "'a::len word"
  assumes "read_varint (used @ rest) = (n, v, rest)" and "0 < n" and "used \<noteq> []" and "unat (last used) < 128"
  shows "used = get_varint_data v \<and> n = int (length used)"
proof -
  obtain k where k: "used = leb128 k" "n = int (length used)" "unat v = k"
    using read_loop_canonical [of "LENGTH('a)" "used @ rest" 0 0 "0 :: 'a word" n v rest used] assms
    by (auto simp: read_varint_def read_varint_bits_def)
  then show ?thesis
    by (simp add: get_varint_data_def write_varint_leb128)
qed

text \<open>A successful reader consumes a prefix; unless it consumed everything, the prefix ends with a final byte.\<close>

lemma read_loop_consumed:
  assumes "read_varint_loop bits bs shift rd wr = (n, v, rest)" and "0 \<le> rd" and "0 \<le> n"
  shows "\<exists>used. bs = used @ rest \<and> n = rd + int (length used) \<and> (rest \<noteq> [] \<longrightarrow> used \<noteq> [] \<and> unat (last used) < 128)"
  using assms
proof (induction bs arbitrary: shift rd wr)
  case (Cons b bs)
  show ?case
  proof (cases "b AND 0x80 = 0")
    case True
    then have "bs = rest \<and> n = rd + 1"
      using Cons.prems by (auto simp: read_varint_loop.simps Let_def EVARINT_OVERFLOW_def EVARINT_REPRESENT_def split: if_splits)
    with True show ?thesis
      by (intro exI [of _ "[b]"]) (simp add: byte_and_0x80_eq_0)
  next
    case False
    then have "read_varint_loop bits bs (shift + 7) (rd + 1) (wr OR push_bit shift (ucast (b AND 0x7f))) = (n, v, rest)"
      using Cons.prems by (auto simp: read_varint_loop.simps Let_def EVARINT_OVERFLOW_def EVARINT_REPRESENT_def split: if_splits)
    from Cons.IH [OF this] Cons.prems(2,3) obtain used where
      "bs = used @ rest" "n = rd + 1 + int (length used)" "rest \<noteq> [] \<longrightarrow> used \<noteq> [] \<and> unat (last used) < 128"
      by auto
    then show ?thesis
      by (intro exI [of _ "b # used"]) auto
  qed
qed simp

lemma read_varint_prefix:
  fixes v :: "'a::len word"
  assumes "read_varint bs = (n, v, rest)" and "0 < n" and "rest \<noteq> []"
  shows "bs = get_varint_data v @ rest \<and> n = int (length (get_varint_data v))"
proof -
  obtain used where "bs = used @ rest" "used \<noteq> []" "unat (last used) < 128"
    using read_loop_consumed [of "LENGTH('a)" bs 0 0 "0 :: 'a word" n v rest] assms
    by (auto simp: read_varint_def read_varint_bits_def)
  with read_varint_used [of used rest n v] assms show ?thesis
    by simp
qed

lemma read_varint_length:
  assumes "read_varint bs = (n, v, rest)" and "0 \<le> n"
  shows "rest = drop (nat n) bs"
  using read_loop_consumed [OF assms(1) [unfolded read_varint_def read_varint_bits_def]] assms(2) by auto

section \<open>Properties\<close>

text \<open>
  C29. A value written by \<open>write_varint\<close> is read back by \<open>read_varint\<close>, whatever follows it
  in the stream: the returned count is the number of bytes written, the value is the one
  written, and reading stops right behind it. This holds for every unsigned integer type.
\<close>

theorem varint_roundtrip:
  "read_varint (get_varint_data (v :: 'a::len word) @ rest) =
     (int (length (get_varint_data v)), v, rest)"
  by (rule read_varint_get_varint_data)

text \<open>
  C30. The representation is canonical: when \<open>read_varint\<close> succeeds and the last byte it
  consumed has its high bit clear, the consumed bytes are exactly what \<open>write_varint\<close>
  writes for the value read. No second encoding of a number is accepted.
\<close>

theorem varint_canonical:
  fixes v :: "'a::len word"
  assumes "read_varint (used @ rest) = (n, v, rest)" and "0 < n"
    and "used \<noteq> []" and "unat (last used) < 128"
  shows "used = get_varint_data v \<and> n = int (length used)"
  using assms by (rule read_varint_used)

theorem varint_canonical_witness:
  "read_varint ([0xac, 0x02] @ [7]) = (2, 300 :: u64, [7])
     \<and> [0xac, 0x02] = get_varint_data (300 :: u64)"
proof -
  have h: "read_varint ([0xac, 0x02] @ [7]) = (2, 300 :: u64, [7])"
    by code_simp
  have "[0xac, 0x02] = get_varint_data (300 :: u64)"
    using varint_canonical [OF h] by simp
  with h show ?thesis
    by (rule conjI)
qed

text \<open>
  A number that does not fit the target type is never silently truncated: reading the
  encoding of any \<open>n\<close> of at least \<open>2 ^ bits\<close> returns \<open>EVARINT_OVERFLOW\<close>.
\<close>

theorem varint_overflow:
  assumes "2 ^ LENGTH('a) \<le> n"
  shows "fst (read_varint (leb128 n @ rest) :: int \<times> 'a::len word \<times> blob) = EVARINT_OVERFLOW"
  using read_loop_overflow [of "LENGTH('a)" n 0 rest 0 "0 :: 'a word"] assms
  by (simp add: read_varint_def read_varint_bits_def)

theorem varint_overflow_witness:
  "fst (read_varint (leb128 (2 ^ 64) @ []) :: int \<times> u64 \<times> blob) = EVARINT_OVERFLOW"
  using varint_overflow [of "2 ^ 64" "[]", where ?'a = 64] by simp

end
