(* ===== verification/Digits.thy ===== *)
theory Digits
  imports Gyro_Prelude
begin

unbundle bit_operations_syntax

text \<open>
  Numbers written as little-endian sequences: \<open>hsum b xs\<close> is the number whose base
  \<open>2 ^ b\<close> digits are \<open>xs\<close>, \<open>le_int\<close> the number of a byte string, and
  \<open>conv\<close> the product of two sequences. The lemmas say when digits can be read back
  from the number and how sums, products and windows of bytes act on it.
\<close>

section \<open>Positional sums\<close>

fun hsum :: "nat \<Rightarrow> int list \<Rightarrow> int" where
  "hsum b [] = 0"
| "hsum b (x # xs) = x + 2 ^ b * hsum b xs"

definition digit :: "nat \<Rightarrow> int \<Rightarrow> nat \<Rightarrow> int" where
  "digit b v i = take_bit b (drop_bit (b * i) v)"

definition digits :: "nat \<Rightarrow> nat \<Rightarrow> int \<Rightarrow> int list" where
  "digits b n v = map (digit b v) [0..<n]"

fun conv :: "int list \<Rightarrow> int list \<Rightarrow> int list" where
  "conv [] ys = []"
| "conv [x] ys = map ((*) x) ys"
| "conv (x # z # xs) ys = map2 (+) (map ((*) x) ys @ replicate (Suc (length xs)) 0) (0 # conv (z # xs) ys)"

fun le_int :: "byte list \<Rightarrow> int" where
  "le_int [] = 0"
| "le_int (c # cs) = uint c + 256 * le_int cs"

section \<open>Reading digits back\<close>

lemma hsum_append: "hsum b (xs @ ys) = hsum b xs + 2 ^ (b * length xs) * hsum b ys"
  by (induction xs) (simp_all add: algebra_simps power_add)

lemma hsum_replicate_0 [simp]: "hsum b (replicate n 0) = 0"
  by (induction n) auto

lemma hsum_map_mult [simp]: "hsum b (map ((*) x) ys) = x * hsum b ys"
  by (induction ys) (simp_all add: algebra_simps)

lemma hsum_map2_add: "length xs = length ys \<Longrightarrow> hsum b (map2 (+) xs ys) = hsum b xs + hsum b ys"
  by (induction xs ys rule: list_induct2) (simp_all add: algebra_simps)

lemma hsum_map2_diff: "length xs = length ys \<Longrightarrow> hsum b (map2 (-) xs ys) = hsum b xs - hsum b ys"
  by (induction xs ys rule: list_induct2) (simp_all add: right_diff_distrib)

lemma digit_0: "digit b v 0 = take_bit b v"
  by (simp add: digit_def)

lemma digit_Suc: "digit b v (Suc i) = digit b (drop_bit b v) i"
  by (simp add: digit_def add.commute)

lemma digits_Suc: "digits b (Suc n) v = take_bit b v # digits b n (drop_bit b v)"
  by (simp add: digits_def digit_0 digit_Suc upt_conv_Cons map_Suc_upt [symmetric] del: upt_Suc)

lemma length_digits [simp]: "length (digits b n v) = n"
  by (simp add: digits_def)

lemma hsum_digits: "hsum b (digits b n v) = take_bit (b * n) v"
proof (induction n arbitrary: v)
  case (Suc n)
  have "take_bit (b + b * n) v = push_bit b (take_bit (b * n) (drop_bit b v)) + take_bit b v"
    by (subst bits_ident [of b "take_bit (b + b * n) v", symmetric])
       (simp add: drop_bit_take_bit take_bit_take_bit)
  with Suc show ?case
    by (simp add: digits_Suc push_bit_eq_mult)
qed (simp add: digits_def)

lemma hsum_Cons_bits:
  assumes "0 \<le> x" and "x < 2 ^ b"
  shows "take_bit b (hsum b (x # xs)) = x" "drop_bit b (hsum b (x # xs)) = hsum b xs"
  using assms by (simp_all add: take_bit_eq_mod drop_bit_eq_div)

lemma hsum_digit:
  assumes "list_all (\<lambda>x. 0 \<le> x \<and> x < 2 ^ b) xs" and "i < length xs"
  shows "digit b (hsum b (xs @ ys)) i = xs ! i"
  using assms
proof (induction xs arbitrary: i)
  case (Cons x xs)
  then have x: "0 \<le> x" "x < 2 ^ b"
    by simp_all
  show ?case
  proof (cases i)
    case 0
    then show ?thesis
      using hsum_Cons_bits(1) [OF x, of "xs @ ys"] by (simp add: digit_0)
  next
    case (Suc j)
    then show ?thesis
      using Cons hsum_Cons_bits(2) [OF x, of "xs @ ys"] by (simp add: digit_Suc)
  qed
qed simp

lemma hsum_drop_bit:
  assumes "list_all (\<lambda>x. 0 \<le> x \<and> x < 2 ^ b) xs"
  shows "drop_bit (b * length xs) (hsum b (xs @ ys)) = hsum b ys"
  using assms
proof (induction xs)
  case (Cons x xs)
  then show ?case
    using hsum_Cons_bits(2) [of x b "xs @ ys"] by (simp add: add.commute [of b] flip: drop_bit_drop_bit)
qed simp

lemma hsum_bounds:
  assumes "list_all (\<lambda>x. 0 \<le> x \<and> x < 2 ^ b) xs"
  shows "0 \<le> hsum b xs" "hsum b xs < 2 ^ (b * length xs)"
proof -
  have "drop_bit (b * length xs) (hsum b xs) = 0"
    using hsum_drop_bit [OF assms, of "[]"] by simp
  then have "hsum b xs = take_bit (b * length xs) (hsum b xs)"
    using bits_ident [of "b * length xs" "hsum b xs"] by simp
  then show "0 \<le> hsum b xs" "hsum b xs < 2 ^ (b * length xs)"
    by (metis take_bit_nonnegative, metis take_bit_int_less_exp)
qed

section \<open>Products\<close>

lemma length_conv [simp]: "length (conv xs ys) = (if xs = [] then 0 else length xs + length ys - 1)"
  by (induction xs ys rule: conv.induct) auto

lemma hsum_conv: "hsum b (conv xs ys) = hsum b xs * hsum b ys"
  by (induction xs ys rule: conv.induct) (simp_all add: hsum_map2_add hsum_append algebra_simps)

lemma list_all2_map2_add:
  "list_all2 (\<lambda>x X. 0 \<le> x \<and> x \<le> X) xs Xs \<Longrightarrow> list_all2 (\<lambda>x X. 0 \<le> x \<and> x \<le> X) ys Ys \<Longrightarrow>
   list_all2 (\<lambda>x X. 0 \<le> x \<and> x \<le> X) (map2 (+) xs ys) (map2 (+) Xs Ys)" for xs :: "int list"
proof (induction xs Xs arbitrary: ys Ys rule: list_all2_induct)
  case (Cons x xs X Xs)
  then show ?case
    by (cases ys; cases Ys) (auto intro: add_mono)
qed simp

lemma list_all2_map_mult:
  "0 \<le> x \<Longrightarrow> x \<le> X \<Longrightarrow> list_all2 (\<lambda>x X. 0 \<le> x \<and> x \<le> X) ys Ys \<Longrightarrow>
   list_all2 (\<lambda>x X. 0 \<le> x \<and> x \<le> X) (map ((*) x) ys) (map ((*) X) Ys)" for x :: int
  by (auto simp: list_all2_conv_all_nth intro!: mult_mono)

lemma list_all2_zeros: "list_all2 (\<lambda>x X. 0 \<le> x \<and> x \<le> X) (replicate n (0 :: int)) (replicate n 0)"
  by (induction n) auto

lemma conv_bounds:
  assumes "list_all2 (\<lambda>x X. 0 \<le> x \<and> x \<le> X) xs Xs" and "list_all2 (\<lambda>x X. 0 \<le> x \<and> x \<le> X) ys Ys"
  shows "list_all2 (\<lambda>x X. 0 \<le> x \<and> x \<le> X) (conv xs ys) (conv Xs Ys)"
  using assms
proof (induction xs ys arbitrary: Xs Ys rule: conv.induct)
  case (2 x ys)
  then show ?case
    by (auto simp: list_all2_Cons1 list_all2_map_mult)
next
  case (3 x z xs ys)
  then obtain X Z Xs' where Xs: "Xs = X # Z # Xs'" "0 \<le> x" "x \<le> X"
      "list_all2 (\<lambda>x X. 0 \<le> x \<and> x \<le> X) (z # xs) (Z # Xs')" "length xs = length Xs'"
    using list_all2_lengthD by (fastforce simp: list_all2_Cons1)
  then have "list_all2 (\<lambda>x X. 0 \<le> x \<and> x \<le> X) (conv (z # xs) ys) (conv (Z # Xs') Ys)"
    using 3 by blast
  then show ?case
    unfolding Xs(1) conv.simps Xs(5)
    by (intro list_all2_map2_add list_all2_appendI list_all2_map_mult list_all2_zeros Xs 3) simp
qed simp

section \<open>Byte strings\<close>

lemma uint_byte_bounds: "0 \<le> uint (c :: byte)" "uint (c :: byte) < 256"
  using uint_lt2p [of c] by simp_all

lemma le_int_hsum: "le_int cs = hsum 8 (map uint cs)"
  by (induction cs) simp_all

lemma le_int_digits: "list_all (\<lambda>x. 0 \<le> x \<and> x < 2 ^ 8) (map uint (cs :: byte list))"
  using uint_byte_bounds by (simp add: list_all_iff)

lemma le_int_bounds: "0 \<le> le_int cs" "le_int cs < 2 ^ (8 * length cs)"
  using hsum_bounds [OF le_int_digits, of cs] by (simp_all add: le_int_hsum)

lemma le_int_below: "length cs \<le> k \<Longrightarrow> le_int cs < 2 ^ (8 * k)"
  using le_int_bounds(2) [of cs] power_increasing [of "8 * length cs" "8 * k" "2 :: int"] by linarith

lemma le_int_append: "le_int (xs @ ys) = le_int xs + 2 ^ (8 * length xs) * le_int ys"
  by (simp add: le_int_hsum hsum_append)

lemma le_int_drop: "le_int (drop k cs) = drop_bit (8 * k) (le_int cs)"
proof (cases "k \<le> length cs")
  case True
  then show ?thesis
    using hsum_drop_bit [OF le_int_digits, of "take k cs" "map uint (drop k cs)"]
    by (simp add: le_int_hsum min.absorb2 flip: map_append)
next
  case False
  then have "le_int cs < 2 ^ (8 * k)"
    by (intro le_int_below) simp
  then show ?thesis
    using False le_int_bounds(1) [of cs] by (simp add: drop_bit_eq_div)
qed

lemma le_int_take: "le_int (take k cs) = take_bit (8 * k) (le_int cs)"
proof (cases "k \<le> length cs")
  case True
  have "le_int cs = le_int (take k cs) + 2 ^ (8 * k) * le_int (drop k cs)"
    using le_int_append [of "take k cs" "drop k cs"] True by (simp add: min.absorb2)
  moreover have "0 \<le> le_int (take k cs)" "le_int (take k cs) < 2 ^ (8 * k)"
    using le_int_bounds [of "take k cs"] True by (simp_all add: min.absorb2)
  ultimately show ?thesis
    by (simp add: take_bit_eq_mod)
next
  case False
  then have "le_int cs < 2 ^ (8 * k)"
    by (intro le_int_below) simp
  then show ?thesis
    using False le_int_bounds(1) [of cs] by (simp add: take_bit_int_eq_self)
qed

lemma le_int_byte: "i < length cs \<Longrightarrow> uint (cs ! i) = digit 8 (le_int cs) i"
  using hsum_digit [OF le_int_digits, of i cs "[]"] by (simp add: le_int_hsum)

lemma le_int_inject: "length xs = length ys \<Longrightarrow> le_int xs = le_int ys \<Longrightarrow> xs = ys"
  by (rule nth_equalityI) (auto simp: le_int_byte word_uint_eq_iff)

lemma le_int_of_digits:
  assumes "map uint cs = digits 8 (length cs) v"
  shows "le_int cs = take_bit (8 * length cs) v"
  by (simp add: le_int_hsum assms hsum_digits)

end
