(* ===== verification/Int_Util.thy ===== *)
theory Int_Util
  imports Digits
begin

unbundle bit_operations_syntax

text \<open>
  The integer helpers of \<open>contrib/epee/include/int-util.h\<close> and \<open>contrib/epee/src/int-util.cpp\<close>:
  rotations, the 64 by 64 bit product \<open>mul128\<close>, the long divisions \<open>div128_32\<close> and
  \<open>div128_64\<close>, saturating addition and subtraction, and byte swaps. Results passed through
  pointers are components of the result. The theorems relate them to arithmetic on the
  integers, for all inputs.
\<close>

section \<open>The code\<close>

definition rol32 :: "u32 \<Rightarrow> nat \<Rightarrow> u32" where
  "rol32 x r = push_bit (r AND 31) x OR drop_bit (nat ((- int r) AND 31)) x"

definition rol64 :: "u64 \<Rightarrow> nat \<Rightarrow> u64" where
  "rol64 x r = push_bit (r AND 63) x OR drop_bit (nat ((- int r) AND 63)) x"

definition hi_dword :: "u64 \<Rightarrow> u64" where
  "hi_dword val = drop_bit 32 val"

definition lo_dword :: "u64 \<Rightarrow> u64" where
  "lo_dword val = val AND 0xFFFFFFFF"

text \<open>\<open>mul128\<close> returns the high and the low half of the product.\<close>

definition mul128 :: "u64 \<Rightarrow> u64 \<Rightarrow> u64 \<times> u64" where
  "mul128 multiplier multiplicand =
     (let a = hi_dword multiplier; b = lo_dword multiplier;
          c = hi_dword multiplicand; d = lo_dword multiplicand;
          ac = a * c; ad = a * d; bc = b * c; bd = b * d;
          adbc = ad + bc;
          adbc_carry = if adbc < ad then 1 else 0;
          product_lo = bd + push_bit 32 adbc;
          product_lo_carry = if product_lo < bd then 1 else 0;
          product_hi = ac + drop_bit 32 adbc + push_bit 32 adbc_carry + product_lo_carry in
      (product_hi, product_lo))"

text \<open>The quotient and the new remainder.\<close>

definition div_with_reminder :: "u64 \<Rightarrow> u32 \<Rightarrow> u32 \<Rightarrow> u64 \<times> u32" where
  "div_with_reminder dividend divisor remainder =
     (let dividend = dividend OR push_bit 32 (ucast remainder) in
      (dividend div ucast divisor, ucast (dividend mod ucast divisor)))"

text \<open>The remainder, the high and the low half of the quotient.\<close>

definition div128_32 :: "u64 \<Rightarrow> u64 \<Rightarrow> u32 \<Rightarrow> u32 \<times> u64 \<times> u64" where
  "div128_32 dividend_hi dividend_lo divisor =
     (let (q3, r) = div_with_reminder (hi_dword dividend_hi) divisor 0;
          (q2, r) = div_with_reminder (lo_dword dividend_hi) divisor r;
          (q1, r) = div_with_reminder (hi_dword dividend_lo) divisor r;
          (q0, r) = div_with_reminder (lo_dword dividend_lo) divisor r in
      (r, push_bit 32 q3 OR q2, push_bit 32 q1 OR q0))"

text \<open>
  \<open>div128_64\<close> calls \<open>divide_qr\<close> of Boost's 128-bit integers, a parameter here. It returns the
  halves of the quotient and of the remainder.
\<close>

type_synonym u128 = "128 word"

definition div128_64 ::
  "(u128 \<Rightarrow> u128 \<Rightarrow> u128 \<times> u128) \<Rightarrow> u64 \<Rightarrow> u64 \<Rightarrow> u64 \<Rightarrow> (u64 \<times> u64) \<times> (u64 \<times> u64)" where
  "div128_64 divide_qr dividend_hi dividend_lo divisor =
     (let dividend = push_bit 64 (ucast dividend_hi) OR ucast dividend_lo;
          (q, r) = divide_qr dividend (ucast divisor) in
      ((ucast (drop_bit 64 q AND 0xffffffffffffffff), ucast (q AND 0xffffffffffffffff)),
       (ucast (drop_bit 64 r AND 0xffffffffffffffff), ucast (r AND 0xffffffffffffffff))))"

definition add64clamp :: "u64 \<Rightarrow> u64 \<Rightarrow> u64" where
  "add64clamp v add = (if - 1 - add < v then - 1 else v + add)"

definition sub64clamp :: "u64 \<Rightarrow> u64 \<Rightarrow> u64" where
  "sub64clamp v sub = (if v < sub then 0 else v - sub)"

definition swap16 :: "u16 \<Rightarrow> u16" where
  "swap16 x = push_bit 8 (x AND 0x00ff) OR drop_bit 8 (x AND 0xff00)"

definition swap32 :: "u32 \<Rightarrow> u32" where
  "swap32 x =
     (let x = push_bit 8 (x AND 0x00ff00ff) OR drop_bit 8 (x AND 0xff00ff00) in
      push_bit 16 x OR drop_bit 16 x)"

definition swap64 :: "u64 \<Rightarrow> u64" where
  "swap64 x =
     (let x = push_bit 8 (x AND 0x00ff00ff00ff00ff) OR drop_bit 8 (x AND 0xff00ff00ff00ff00);
          x = push_bit 16 (x AND 0x0000ffff0000ffff) OR drop_bit 16 (x AND 0xffff0000ffff0000) in
      push_bit 32 x OR drop_bit 32 x)"

definition SWAP64 :: "u64 \<Rightarrow> u64" where
  "SWAP64 x =
     push_bit 56 (x AND 0x00000000000000ff) OR
     push_bit 40 (x AND 0x000000000000ff00) OR
     push_bit 24 (x AND 0x0000000000ff0000) OR
     push_bit 8 (x AND 0x00000000ff000000) OR
     drop_bit 8 (x AND 0x000000ff00000000) OR
     drop_bit 24 (x AND 0x0000ff0000000000) OR
     drop_bit 40 (x AND 0x00ff000000000000) OR
     drop_bit 56 (x AND 0xff00000000000000)"

section \<open>Products\<close>

lemma unat_hi_dword: "unat (hi_dword x) = unat x div 2 ^ 32"
  by (simp add: hi_dword_def byte_simps)

lemma unat_lo_dword: "unat (lo_dword x) = unat x mod 2 ^ 32"
proof -
  have "(0xFFFFFFFF :: u64) = mask 32"
    by (simp add: mask_eq_exp_minus_1)
  then show ?thesis
    unfolding lo_dword_def by (simp only: unat_and_mask)
qed

lemma dword_less: "unat (hi_dword x) < 2 ^ 32" "unat (lo_dword x) < 2 ^ 32"
  using unsigned_less [of x, where ?'a = nat] by (simp_all add: unat_hi_dword unat_lo_dword less_mult_imp_div_less)

lemma dword_split: "unat x = unat (hi_dword x) * 2 ^ 32 + unat (lo_dword x)"
  by (simp add: unat_hi_dword unat_lo_dword div_mult_mod_eq)

lemma unat_mult_dwords:
  fixes x y :: u64
  assumes "unat x < 2 ^ 32" and "unat y < 2 ^ 32"
  shows "unat (x * y) = unat x * unat y" and "unat x * unat y \<le> (2 ^ 32 - 1) * (2 ^ 32 - 1)"
proof -
  show le: "unat x * unat y \<le> (2 ^ 32 - 1) * (2 ^ 32 - 1)"
    using assms by (intro mult_le_mono) simp_all
  have "(2 ^ 32 - 1) * (2 ^ 32 - 1) < (2 :: nat) ^ 64"
    by simp
  with le have "unat x * unat y < 2 ^ LENGTH(64)"
    by simp
  then show "unat (x * y) = unat x * unat y"
    by (rule unat_mult_lem [THEN iffD1])
qed

lemma add_carry: "unat x + unat y = unat (x + y) + 2 ^ 64 * unat (if x + y < x then 1 else 0 :: u64)" for x y :: u64
proof -
  have b: "unat x < 2 ^ 64" "unat y < 2 ^ 64"
    using unsigned_less [of x, where ?'a = nat] unsigned_less [of y, where ?'a = nat] by simp_all
  have s: "unat (x + y) = (unat x + unat y) mod 2 ^ 64"
    by (simp add: unat_word_ariths)
  show ?thesis
  proof (cases "unat x + unat y < 2 ^ 64")
    case True
    then show ?thesis
      using s by (simp add: word_less_nat_alt)
  next
    case False
    then have "unat (x + y) = unat x + unat y - 2 ^ 64"
      using s b by (simp add: mod_if)
    then show ?thesis
      using False b by (simp add: word_less_nat_alt)
  qed
qed

lemma unat_push_bit_32: "unat (push_bit 32 (x :: u64)) = 2 ^ 32 * (unat x mod 2 ^ 32)"
proof -
  have "unat (push_bit 32 x) = take_bit 64 (push_bit 32 (unat x))"
    by (simp add: unsigned_push_bit_eq)
  also have "\<dots> = (2 ^ 32 * unat x) mod (2 ^ 32 * 2 ^ 32)"
    by (simp add: push_bit_eq_mult take_bit_eq_mod mult.commute)
  also have "\<dots> = 2 ^ 32 * (unat x mod 2 ^ 32)"
    by (rule mult_mod_right [symmetric])
  finally show ?thesis .
qed

lemma unat_add_exact: "unat x + unat y < 2 ^ LENGTH('a) \<Longrightarrow> unat (x + y) = unat x + unat y" for x y :: "'a::len word"
  by (rule unat_add_lem [THEN iffD1])

text \<open>Schoolbook multiplication with two digits in base \<open>2 ^ 32\<close>, on the natural numbers.\<close>

lemma schoolbook:
  fixes ac ad bc bd s k lo m :: nat
  assumes "ad + bc = s + 2 ^ 64 * k" and "bd + 2 ^ 32 * (s mod 2 ^ 32) = lo + 2 ^ 64 * m"
  shows "ac * 2 ^ 64 + (ad + bc) * 2 ^ 32 + bd = (ac + s div 2 ^ 32 + 2 ^ 32 * k + m) * 2 ^ 64 + lo"
proof -
  define q r where "q = s div 2 ^ 32" and "r = s mod 2 ^ 32"
  have "s = q * 2 ^ 32 + r"
    unfolding q_def r_def by (simp only: div_mult_mod_eq)
  then show ?thesis
    using assms unfolding q_def [symmetric] r_def [symmetric] by simp
qed

lemma mul128_value:
  assumes "mul128 x y = (hi, lo)"
  shows "unat hi * 2 ^ 64 + unat lo = unat x * unat y"
proof -
  define a b c d where "a = hi_dword x" and "b = lo_dword x" and "c = hi_dword y" and "d = lo_dword y"
  have small: "unat a < 2 ^ 32" "unat b < 2 ^ 32" "unat c < 2 ^ 32" "unat d < 2 ^ 32"
    unfolding a_def b_def c_def d_def by (rule dword_less)+
  define s k m where "s = a * d + b * c" and "k = (if s < a * d then 1 else 0 :: u64)"
    and "m = (if lo < b * d then 1 else 0 :: u64)"
  have lo: "lo = b * d + push_bit 32 s" and hi: "hi = a * c + drop_bit 32 s + push_bit 32 k + m"
    using assms by (auto simp: mul128_def Let_def a_def b_def c_def d_def s_def k_def m_def)
  have "unat x * unat y = (unat a * 2 ^ 32 + unat b) * (unat c * 2 ^ 32 + unat d)"
    unfolding a_def b_def c_def d_def using dword_split [of x] dword_split [of y] by simp
  also have "\<dots> = unat (a * c) * 2 ^ 64 + (unat (a * d) + unat (b * c)) * 2 ^ 32 + unat (b * d)"
    using small by (simp add: unat_mult_dwords algebra_simps)
  also have "\<dots> = (unat (a * c) + unat s div 2 ^ 32 + 2 ^ 32 * unat k + unat m) * 2 ^ 64 + unat lo"
    using add_carry [of "a * d" "b * c"] add_carry [of "b * d" "push_bit 32 s"]
    by (intro schoolbook) (simp_all add: s_def k_def m_def lo unat_push_bit_32)
  finally have total: "unat x * unat y = (unat (a * c) + unat s div 2 ^ 32 + 2 ^ 32 * unat k + unat m) * 2 ^ 64 + unat lo" .
  have "unat x * unat y \<le> (2 ^ 64 - 1) * (2 ^ 64 - 1)"
    using unsigned_less [of x, where ?'a = nat] unsigned_less [of y, where ?'a = nat] by (intro mult_le_mono) simp_all
  then have fits: "unat (a * c) + unat s div 2 ^ 32 + 2 ^ 32 * unat k + unat m < 2 ^ 64"
    unfolding total by simp
  have "unat (drop_bit 32 s) = unat s div 2 ^ 32" "unat (push_bit 32 k) = 2 ^ 32 * unat k"
    by (simp_all add: byte_simps unat_push_bit_32 k_def)
  then have "unat hi = unat (a * c) + unat s div 2 ^ 32 + 2 ^ 32 * unat k + unat m"
    unfolding hi using fits by (simp add: unat_add_exact)
  then show ?thesis
    using total by simp
qed

section \<open>Divisions\<close>

lemma unat_ucast_wider: "LENGTH('a) \<le> LENGTH('b) \<Longrightarrow> unat (ucast (x :: 'a::len word) :: 'b::len word) = unat x"
proof -
  assume "LENGTH('a) \<le> LENGTH('b)"
  then have "unat x < 2 ^ LENGTH('b)"
    using unsigned_less [of x, where ?'a = nat] power_increasing [of "LENGTH('a)" "LENGTH('b)" "2 :: nat"] by linarith
  then show ?thesis
    by (simp add: unsigned_ucast_eq take_bit_nat_eq_self)
qed

lemma div_with_reminder_value:
  assumes "div_with_reminder x d r = (q, r')" and "unat x < 2 ^ 32" and "r < d"
  shows "unat r * 2 ^ 32 + unat x = unat q * unat d + unat r'" and "r' < d" and "unat q < 2 ^ 32"
proof -
  define y :: u64 where "y = x OR push_bit 32 (ucast r)"
  have r: "unat (ucast r :: u64) = unat r" and d: "unat (ucast d :: u64) = unat d"
    by (simp_all add: unat_ucast_wider)
  have "unat r < 2 ^ 32"
    using unsigned_less [of r, where ?'a = nat] by simp
  then have y: "unat y = unat r * 2 ^ 32 + unat x"
    unfolding y_def using assms(2) by (subst unat_or_push_bit) (simp_all add: r)
  have q: "q = y div ucast d" and r': "r' = ucast (y mod ucast d)"
    using assms(1) by (simp_all add: div_with_reminder_def Let_def y_def)
  have "0 < unat d"
    using assms(3) by (simp add: word_less_nat_alt)
  then have m: "unat (y mod ucast d) < unat d"
    by (simp add: unat_mod d)
  have "unat d < 2 ^ 32"
    using unsigned_less [of d, where ?'a = nat] by simp
  then have r'v: "unat r' = unat y mod unat d"
    using m unfolding r' by (simp add: unsigned_ucast_eq take_bit_nat_eq_self unat_mod d)
  have qv: "unat q = unat y div unat d"
    by (simp add: q unat_div d)
  show "unat r * 2 ^ 32 + unat x = unat q * unat d + unat r'"
    unfolding y [symmetric] qv r'v by (simp add: div_mult_mod_eq)
  show "r' < d"
    using m r'v by (simp add: word_less_nat_alt unat_mod d)
  have "unat y < unat d * 2 ^ 32"
    using assms(2,3) unfolding y by (simp add: word_less_nat_alt)
  then show "unat q < 2 ^ 32"
    unfolding qv by (simp add: less_mult_imp_div_less mult.commute)
qed

lemma unat_push_or:
  assumes "unat (x :: u64) < 2 ^ 32" and "unat (y :: u64) < 2 ^ 32"
  shows "unat (push_bit 32 x OR y) = unat x * 2 ^ 32 + unat y"
  using unat_or_push_bit [of y 32 x] assms by (simp add: or.commute)

lemma div128_32_value:
  assumes "div128_32 hi lo d = (r, qhi, qlo)" and "d \<noteq> 0"
  shows "unat hi * 2 ^ 64 + unat lo = (unat qhi * 2 ^ 64 + unat qlo) * unat d + unat r" and "r < d"
proof -
  obtain q3 r3 where 3: "div_with_reminder (hi_dword hi) d 0 = (q3, r3)"
    by fastforce
  obtain q2 r2 where 2: "div_with_reminder (lo_dword hi) d r3 = (q2, r2)"
    by fastforce
  obtain q1 r1 where 1: "div_with_reminder (hi_dword lo) d r2 = (q1, r1)"
    by fastforce
  obtain q0 r0 where 0: "div_with_reminder (lo_dword lo) d r1 = (q0, r0)"
    by fastforce
  have q: "r = r0" "qhi = push_bit 32 q3 OR q2" "qlo = push_bit 32 q1 OR q0"
    using assms(1) by (simp_all add: div128_32_def 3 2 1 0)
  have "0 < d"
    using assms(2) by (simp add: word_neq_0_conv)
  note d3 = div_with_reminder_value [OF 3 dword_less(1) this]
  note d2 = div_with_reminder_value [OF 2 dword_less(2) d3(2)]
  note d1 = div_with_reminder_value [OF 1 dword_less(1) d2(2)]
  note d0 = div_with_reminder_value [OF 0 dword_less(2) d1(2)]
  have "unat qhi = unat q3 * 2 ^ 32 + unat q2" "unat qlo = unat q1 * 2 ^ 32 + unat q0"
    unfolding q using d3(3) d2(3) d1(3) d0(3) by (simp_all add: unat_push_or)
  then show "unat hi * 2 ^ 64 + unat lo = (unat qhi * 2 ^ 64 + unat qlo) * unat d + unat r"
    using d3(1) d2(1) d1(1) d0(1) dword_split [of hi] dword_split [of lo] q(1) by (simp add: algebra_simps)
  show "r < d"
    using d0(2) q(1) by simp
qed

text \<open>What \<open>div128_64\<close> asks of the quotient and remainder of the library.\<close>

definition divides_with_remainder :: "(u128 \<Rightarrow> u128 \<Rightarrow> u128 \<times> u128) \<Rightarrow> bool" where
  "divides_with_remainder divide_qr \<longleftrightarrow> (\<forall>x y. y \<noteq> 0 \<longrightarrow> divide_qr x y = (x div y, x mod y))"

lemma unat_and_max64: "unat (x AND 0xffffffffffffffff) = unat x mod 2 ^ 64" for x :: u128
proof -
  have "(0xffffffffffffffff :: u128) = mask 64"
    by (simp add: mask_eq_exp_minus_1)
  then show ?thesis
    by (simp only: unat_and_mask)
qed

lemma halves128:
  fixes x :: u128
  shows "unat (ucast (drop_bit 64 x AND 0xffffffffffffffff) :: u64) * 2 ^ 64 + unat (ucast (x AND 0xffffffffffffffff) :: u64) = unat x"
proof -
  have "unat x < 2 ^ 128"
    using unsigned_less [of x, where ?'a = nat] by simp
  then have "unat x div 2 ^ 64 < 2 ^ 64"
    by (simp add: less_mult_imp_div_less)
  then have "unat (ucast (drop_bit 64 x AND 0xffffffffffffffff) :: u64) = unat x div 2 ^ 64"
    by (simp add: unsigned_ucast_eq unat_and_max64 unat_drop_bit take_bit_nat_eq_self)
  moreover have "unat (ucast (x AND 0xffffffffffffffff) :: u64) = unat x mod 2 ^ 64"
    by (simp add: unsigned_ucast_eq unat_and_max64 take_bit_nat_eq_self)
  ultimately show ?thesis
    by (simp only: div_mult_mod_eq)
qed

lemma div128_64_value:
  assumes "div128_64 divide_qr hi lo d = ((qhi, qlo), (rhi, rlo))" and "divides_with_remainder divide_qr" and "d \<noteq> 0"
  shows "unat qhi * 2 ^ 64 + unat qlo = (unat hi * 2 ^ 64 + unat lo) div unat d"
    and "unat rhi * 2 ^ 64 + unat rlo = (unat hi * 2 ^ 64 + unat lo) mod unat d"
proof -
  define x :: u128 where "x = push_bit 64 (ucast hi) OR ucast lo"
  have b: "unat hi < 2 ^ 64" "unat lo < 2 ^ 64"
    using unsigned_less [of hi, where ?'a = nat] unsigned_less [of lo, where ?'a = nat] by simp_all
  have "x = ucast lo OR push_bit 64 (ucast hi)"
    unfolding x_def by (rule or.commute)
  then have x: "unat x = unat hi * 2 ^ 64 + unat lo"
    using b by (simp add: unat_or_push_bit unat_ucast_wider)
  have d: "unat (ucast d :: u128) = unat d"
    by (simp add: unat_ucast_wider)
  moreover have "unat d \<noteq> 0"
    using assms(3) by (simp add: unat_eq_zero)
  ultimately have "(ucast d :: u128) \<noteq> 0"
    by (metis unsigned_0)
  then have "divide_qr x (ucast d) = (x div ucast d, x mod ucast d)"
    using assms(2) by (simp add: divides_with_remainder_def)
  then show "unat qhi * 2 ^ 64 + unat qlo = (unat hi * 2 ^ 64 + unat lo) div unat d"
    "unat rhi * 2 ^ 64 + unat rlo = (unat hi * 2 ^ 64 + unat lo) mod unat d"
    using assms(1) halves128 [of "x div ucast d"] halves128 [of "x mod ucast d"]
    by (auto simp: div128_64_def x_def [symmetric] x d unat_div unat_mod)
qed

section \<open>Saturation, rotation, byte order\<close>

lemma add64clamp_value: "unat (add64clamp v a) = min (unat v + unat a) (2 ^ 64 - 1)"
proof -
  have b: "unat v < 2 ^ 64" "unat a < 2 ^ 64"
    using unsigned_less [of v, where ?'a = nat] unsigned_less [of a, where ?'a = nat] by simp_all
  have m: "unat (- 1 :: u64) = 2 ^ 64 - 1"
    by (simp add: unsigned_minus_1_eq_mask mask_eq_exp_minus_1)
  have "unat (- 1 - a) = 2 ^ 64 - 1 - unat a"
    using b by (subst unat_sub) (simp_all add: m word_le_nat_alt)
  then show ?thesis
    using b m by (auto simp: add64clamp_def word_less_nat_alt unat_add_exact min_def)
qed

lemma sub64clamp_value: "unat (sub64clamp v s) = unat v - unat s"
  by (auto simp: sub64clamp_def word_less_nat_alt unat_sub word_le_nat_alt)

text \<open>The masks of the byte swaps as single bytes, and a bit of a word by its byte and its place in it.\<close>

lemma byte_masks:
  "(0xff :: u64) = mask 8" "(0xff00 :: u64) = push_bit 8 (mask 8)" "(0xff0000 :: u64) = push_bit 16 (mask 8)"
  "(0xff000000 :: u64) = push_bit 24 (mask 8)" "(0xff00000000 :: u64) = push_bit 32 (mask 8)"
  "(0xff0000000000 :: u64) = push_bit 40 (mask 8)" "(0xff000000000000 :: u64) = push_bit 48 (mask 8)"
  "(0xff00000000000000 :: u64) = push_bit 56 (mask 8)"
  by (simp_all add: mask_eq_exp_minus_1)

lemma byte_mask_sums:
  "(0x00ff00ff00ff00ff :: u64) = mask 8 OR push_bit 16 (mask 8) OR push_bit 32 (mask 8) OR push_bit 48 (mask 8)"
  "(0xff00ff00ff00ff00 :: u64) = push_bit 8 (mask 8) OR push_bit 24 (mask 8) OR push_bit 40 (mask 8) OR push_bit 56 (mask 8)"
  "(0x0000ffff0000ffff :: u64) = mask 16 OR push_bit 32 (mask 16)"
  "(0xffff0000ffff0000 :: u64) = push_bit 16 (mask 16) OR push_bit 48 (mask 16)"
  by (simp_all add: mask_eq_exp_minus_1)

lemma byte_position:
  assumes "n < 64"
  obtains q j where "n = 8 * q + j" "j < 8" "q \<in> {0, 1, 2, 3, 4, 5, 6, 7 :: nat}"
proof
  show "n = 8 * (n div 8) + n mod 8" "n mod 8 < 8"
    by simp_all
  have "n div 8 < 8"
    using assms by simp
  then show "n div 8 \<in> {0, 1, 2, 3, 4, 5, 6, 7}"
    by auto
qed

lemma bit_SWAP64: "j < 8 \<Longrightarrow> q < 8 \<Longrightarrow> bit (SWAP64 x) (8 * q + j) = bit x (8 * (7 - q) + j)"
proof -
  assume j: "j < 8" and "q < 8"
  then have "q \<in> {0, 1, 2, 3, 4, 5, 6, 7}"
    by auto
  then show ?thesis
    unfolding SWAP64_def byte_masks using j by (elim insertE emptyE) (simp_all add: bit_simps)
qed

text \<open>\<open>swap64\<close> exchanges neighbouring bytes, then neighbouring pairs of bytes, then the halves.\<close>

lemma swap_bytes:
  assumes "j < 8" and "q \<in> {0, 1, 2, 3, 4, 5, 6, 7}"
  shows "bit (push_bit 8 (x AND 0x00ff00ff00ff00ff) OR drop_bit 8 (x AND 0xff00ff00ff00ff00)) (8 * q + j) =
    bit (x :: u64) (8 * (if even q then q + 1 else q - 1) + j)"
  unfolding byte_mask_sums using assms by (elim insertE emptyE) (simp_all add: bit_simps)

lemma swap_pairs:
  assumes "j < 8" and "q \<in> {0, 1, 2, 3, 4, 5, 6, 7}"
  shows "bit (push_bit 16 (x AND 0x0000ffff0000ffff) OR drop_bit 16 (x AND 0xffff0000ffff0000)) (8 * q + j) =
    bit (x :: u64) (8 * (if even (q div 2) then q + 2 else q - 2) + j)"
  unfolding byte_mask_sums using assms by (elim insertE emptyE) (simp_all add: bit_simps)

lemma swap_halves:
  assumes "j < 8" and "q \<in> {0, 1, 2, 3, 4, 5, 6, 7}"
  shows "bit (push_bit 32 x OR drop_bit 32 x) (8 * q + j) = bit (x :: u64) (8 * (if q < 4 then q + 4 else q - 4) + j)"
  using assms bit_imp_le_length [of x] by (elim insertE emptyE) (fastforce simp: bit_simps)+

lemma bit_swap64: "j < 8 \<Longrightarrow> q < 8 \<Longrightarrow> bit (swap64 x) (8 * q + j) = bit x (8 * (7 - q) + j)"
proof -
  assume j: "j < 8" and "q < 8"
  then have q: "q \<in> {0, 1, 2, 3, 4, 5, 6, 7}"
    by auto
  define q1 q2 where "q1 = (if q < 4 then q + 4 else q - 4)" and "q2 = (if even (q1 div 2) then q1 + 2 else q1 - 2)"
  have q1: "q1 \<in> {0, 1, 2, 3, 4, 5, 6, 7}" and q2: "q2 \<in> {0, 1, 2, 3, 4, 5, 6, 7}"
    and q3: "(if even q2 then q2 + 1 else q2 - 1) = 7 - q"
    using q by (auto simp: q1_def q2_def)
  show ?thesis
    unfolding swap64_def Let_def swap_halves [OF j q] q1_def [symmetric] swap_pairs [OF j q1] q2_def [symmetric]
      swap_bytes [OF j q2] q3 ..
qed

lemma swap64_eqI:
  fixes x y :: u64
  assumes "\<And>q j. j < 8 \<Longrightarrow> q < 8 \<Longrightarrow> bit x (8 * q + j) = bit y (8 * q + j)"
  shows "x = y"
proof (rule bit_word_eqI)
  fix n
  assume "n < LENGTH(64)"
  then show "bit x n = bit y n"
    using assms [of "n mod 8" "n div 8"] by simp
qed

lemma SWAP64_eq_swap64: "SWAP64 x = swap64 x"
  by (rule swap64_eqI) (simp add: bit_SWAP64 bit_swap64)

lemma swap64_involution: "swap64 (swap64 x) = x"
  by (rule swap64_eqI) (simp add: bit_swap64)

text \<open>The rotations: the two shift counts add up to the width, or are both 0.\<close>

lemma neg_and_63: "nat ((- int r) AND 63) = (64 - r mod 64) mod 64"
proof -
  have "(- int r) AND 63 = (- int r) mod 64"
    using take_bit_eq_mask [of 6 "- int r"] by (simp add: mask_eq_exp_minus_1 take_bit_eq_mod)
  also have "\<dots> = int ((64 - r mod 64) mod 64)"
  proof -
    have "r mod 64 < 64"
      by simp
    then have "int ((64 - r mod 64) mod 64) = (if r mod 64 = 0 then 0 else 64 - int (r mod 64))"
      by (cases "r mod 64 = 0") simp_all
    moreover have "int r mod 64 = int (r mod 64)"
      by (simp add: zmod_int)
    ultimately show ?thesis
      unfolding zmod_zminus1_eq_if by (simp only: of_nat_eq_0_iff)
  qed
  finally show ?thesis
    by (simp only: nat_int)
qed

lemma and_63: "r AND 63 = r mod 64" for r :: nat
  using take_bit_eq_mask [of 6 r] by (simp add: mask_eq_exp_minus_1 take_bit_eq_mod)

lemma rol64_bit:
  assumes "n < 64"
  shows "bit (rol64 x r) n = bit x ((n + (64 - r mod 64)) mod 64)"
proof (cases "r mod 64 = 0")
  case True
  then show ?thesis
    using assms by (simp add: rol64_def neg_and_63 and_63)
next
  case False
  define k where "k = r mod 64"
  have k: "0 < k" "k < 64"
    using False by (simp_all add: k_def)
  have "rol64 x r = push_bit k x OR drop_bit (64 - k) x"
    using k by (simp add: rol64_def neg_and_63 and_63 k_def [symmetric])
  moreover have "(n + (64 - k)) mod 64 = (if k \<le> n then n - k else n + (64 - k))"
  proof (cases "k \<le> n")
    case True
    then have "n + (64 - k) = n - k + 64"
      using k by simp
    then show ?thesis
      using True assms by (simp only: mod_add_self2) simp
  qed (use assms k in simp)
  ultimately show ?thesis
    using assms k bit_imp_le_length [of x "n + (64 - k)"] by (auto simp: bit_simps k_def [symmetric] add.commute)
qed

lemma rol64_inverse: "rol64 (rol64 x r) (64 - r mod 64) = x"
proof (rule bit_word_eqI)
  fix n
  assume "n < LENGTH(64)"
  then have n: "n < 64"
    by simp
  define k where "k = r mod 64"
  have k: "k < 64"
    by (simp add: k_def)
  have "((n + (64 - (64 - k) mod 64)) mod 64 + (64 - k)) mod 64 = n"
  proof (cases "k = 0")
    case False
    then have "64 - (64 - k) mod 64 = k"
      using k by simp
    then have "((n + (64 - (64 - k) mod 64)) mod 64 + (64 - k)) mod 64 = (n + k + (64 - k)) mod 64"
      by (simp only: mod_add_left_eq)
    then show ?thesis
      using n k by simp
  qed (use n in simp)
  then show "bit (rol64 (rol64 x r) (64 - r mod 64)) n = bit x n"
    using n by (simp add: rol64_bit k_def [symmetric] del: mod_add_left_eq mod_add_right_eq)
qed

text \<open>A word read from eight bytes in memory, and in the opposite order.\<close>

definition le_word :: "blob \<Rightarrow> u64" where
  "le_word bs = word_of_int (le_int bs)"

lemma bit_le_word:
  assumes "length bs = 8" and "q < 8" and "j < 8"
  shows "bit (le_word bs) (8 * q + j) = bit (bs ! q) j"
proof -
  have "bit (bs ! q) j = bit (uint (bs ! q)) j"
    using assms(3) by (simp add: bit_simps)
  also have "\<dots> = bit (le_int bs) (8 * q + j)"
    using assms by (simp add: le_int_byte digit_def bit_simps)
  finally show ?thesis
    using assms(2,3) by (simp add: le_word_def bit_simps)
qed

lemma SWAP64_le_word: "length bs = 8 \<Longrightarrow> SWAP64 (le_word bs) = le_word (rev bs)"
  by (rule swap64_eqI) (simp add: bit_SWAP64 bit_le_word rev_nth)

section \<open>Properties\<close>

text \<open>
  \<open>mul128\<close> is exact: the two 64-bit halves it returns are those of the product of its
  arguments, for every pair of 64-bit integers.
\<close>

theorem mul128_exact: "unat (fst (mul128 x y)) * 2 ^ 64 + unat (snd (mul128 x y)) = unat x * unat y"
  by (rule mul128_value) simp

text \<open>
  The long divisions are exact: for a nonzero divisor \<open>div128_32\<close> returns the halves of the
  quotient of the 128-bit dividend and a remainder below the divisor, and \<open>div128_64\<close> the same
  when the library's \<open>divide_qr\<close> returns quotient and remainder.
\<close>

theorem div128_exact:
  assumes "divides_with_remainder divide_qr" and "d32 \<noteq> 0" and "d64 \<noteq> 0"
  shows "(let (r, qhi, qlo) = div128_32 hi lo d32 in
      unat hi * 2 ^ 64 + unat lo = (unat qhi * 2 ^ 64 + unat qlo) * unat d32 + unat r \<and> r < d32) \<and>
    (let ((qhi, qlo), (rhi, rlo)) = div128_64 divide_qr hi lo d64 in
      unat qhi * 2 ^ 64 + unat qlo = (unat hi * 2 ^ 64 + unat lo) div unat d64 \<and>
      unat rhi * 2 ^ 64 + unat rlo = (unat hi * 2 ^ 64 + unat lo) mod unat d64)"
  using div128_32_value [OF _ assms(2), of hi lo] div128_64_value [OF _ assms(1,3), of hi lo]
  by (simp split: prod.splits)

theorem div128_exact_witness:
  "let ((qhi, qlo), (rhi, rlo)) = div128_64 (\<lambda>x y. (x div y, x mod y)) 5 7 3 in
     unat qhi * 2 ^ 64 + unat qlo = (5 * 2 ^ 64 + 7) div 3 \<and> unat rhi * 2 ^ 64 + unat rlo = (5 * 2 ^ 64 + 7) mod 3"
proof -
  have "divides_with_remainder (\<lambda>x y. (x div y, x mod y))"
    by (simp add: divides_with_remainder_def)
  from div128_exact [OF this, of 1 3 5 7] show ?thesis
    by (simp add: case_prod_beta)
qed

end
