(* ===== verification/Keccak.thy ===== *)
theory Keccak
  imports Int_Util
begin

unbundle bit_operations_syntax

text \<open>
  \<open>crypto/keccak.c\<close> and the hash functions of \<open>crypto/hash.c\<close> built on it. The state is a list of
  25 words. \<open>keccak\<close> hashes a string at once; the context of \<open>keccak_init\<close>, \<open>keccak_update\<close>
  and \<open>keccak_finish\<close> takes it in pieces. Calls of \<open>local_abort\<close> are the error
  \<open>Assertion_failed\<close>. The theorems say that the two ways agree for every division of the
  input, and that \<open>cn_fast_hash\<close> is the 32-byte hash.
\<close>

section \<open>The permutation\<close>

definition ROTL64 :: "u64 \<Rightarrow> nat \<Rightarrow> u64" where
  "ROTL64 x y = push_bit y x OR drop_bit (64 - y) x"

definition keccakf_rndc :: "u64 list" where
  "keccakf_rndc =
     [0x0000000000000001, 0x0000000000008082, 0x800000000000808a,
      0x8000000080008000, 0x000000000000808b, 0x0000000080000001,
      0x8000000080008081, 0x8000000000008009, 0x000000000000008a,
      0x0000000000000088, 0x0000000080008009, 0x000000008000000a,
      0x000000008000808b, 0x800000000000008b, 0x8000000000008089,
      0x8000000000008003, 0x8000000000008002, 0x8000000000000080,
      0x000000000000800a, 0x800000008000000a, 0x8000000080008081,
      0x8000000000008080, 0x0000000080000001, 0x8000000080008008]"

definition keccakf_rotc :: "nat list" where
  "keccakf_rotc =
     [1, 3, 6, 10, 15, 21, 28, 36, 45, 55, 2, 14,
      27, 41, 56, 8, 25, 43, 62, 18, 39, 61, 20, 44]"

definition keccakf_piln :: "nat list" where
  "keccakf_piln =
     [10, 7, 11, 17, 18, 3, 5, 16, 8, 21, 24, 4,
      15, 23, 19, 13, 12, 2, 20, 14, 22, 9, 6, 1]"

definition theta :: "u64 list \<Rightarrow> u64 list" where
  "theta st =
     (let bc = map (\<lambda>i. st ! i XOR st ! (i + 5) XOR st ! (i + 10) XOR st ! (i + 15) XOR st ! (i + 20)) [0..<5] in
      fold (\<lambda>i st. let t = bc ! ((i + 4) mod 5) XOR ROTL64 (bc ! ((i + 1) mod 5)) 1 in
          fold (\<lambda>j st. st[j + i := st ! (j + i) XOR t]) [0, 5, 10, 15, 20] st) [0..<5] st)"

definition rho_pi :: "u64 list \<Rightarrow> u64 list" where
  "rho_pi st =
     fst (fold (\<lambda>i (st, t). let j = keccakf_piln ! i in (st[j := ROTL64 t (keccakf_rotc ! i)], st ! j)) [0..<24] (st, st ! 1))"

definition chi :: "u64 list \<Rightarrow> u64 list" where
  "chi st =
     fold (\<lambda>j st. let bc = map (\<lambda>i. st ! (j + i)) [0..<5] in
        fold (\<lambda>i st. st[j + i := st ! (j + i) XOR (NOT (bc ! ((i + 1) mod 5)) AND bc ! ((i + 2) mod 5))]) [0..<5] st)
       [0, 5, 10, 15, 20] st"

definition keccakf_round :: "nat \<Rightarrow> u64 list \<Rightarrow> u64 list" where
  "keccakf_round r st = (let st = chi (rho_pi (theta st)) in st[0 := st ! 0 XOR keccakf_rndc ! r])"

definition keccakf :: "u64 list \<Rightarrow> nat \<Rightarrow> u64 list" where
  "keccakf st rounds = fold keccakf_round [0..<rounds] st"

section \<open>Hashing at once\<close>

text \<open>
  Word \<open>i\<close> of a buffer, read with \<open>swap64le\<close>: little-endian on every machine. A block is the
  XOR of its first words into the state, followed by the permutation.
\<close>

definition word_at :: "blob \<Rightarrow> nat \<Rightarrow> u64" where
  "word_at buf i = le_word (take 8 (drop (8 * i) buf))"

definition process_block :: "nat \<Rightarrow> u64 list \<Rightarrow> blob \<Rightarrow> u64 list" where
  "process_block words st block = keccakf (fold (\<lambda>i st. st[i := st ! i XOR word_at block i]) [0..<words] st) 24"

text \<open>
  The loop over the full blocks: the state and the rest of the input. With a block size of 0
  it makes no progress and never ends, which is the value \<open>None\<close>.
\<close>

function absorb_blocks :: "nat \<Rightarrow> u64 list \<Rightarrow> blob \<Rightarrow> (u64 list \<times> blob) option" where
  "absorb_blocks rsiz st inp =
     (if rsiz = 0 then None
      else if rsiz \<le> length inp then absorb_blocks rsiz (process_block (rsiz div 8) st (take rsiz inp)) (drop rsiz inp)
      else Some (st, inp))"
  by pat_completeness auto
termination
  by (relation "measure (\<lambda>(rsiz, st, inp). length inp)") auto

declare absorb_blocks.simps [simp del]

definition le_bytes :: "u64 \<Rightarrow> blob" where
  "le_bytes w = map (\<lambda>i. ucast (drop_bit (8 * i) w)) [0..<8]"

definition HASH_DATA_AREA :: nat where
  "HASH_DATA_AREA = 136"

definition HASH_SIZE :: nat where
  "HASH_SIZE = 32"

text \<open>The last block: the rest of the input, the bit after it and the last bit of the block.\<close>

definition pad_block :: "nat \<Rightarrow> blob \<Rightarrow> blob" where
  "pad_block rsiz inp =
     (let temp = inp @ [1] @ replicate (rsiz - (length inp + 1)) 0 in
      temp[rsiz - 1 := temp ! (rsiz - 1) OR 0x80])"

definition keccak :: "blob \<Rightarrow> int \<Rightarrow> blob result option" where
  "keccak inp mdlen =
     (if mdlen \<le> 0 \<or> (mdlen > 100 \<and> mdlen \<noteq> 200) then Some (Inl Assertion_failed)
      else let rsiz = (if mdlen = 200 then HASH_DATA_AREA else nat (200 - 2 * mdlen)); rsizw = rsiz div 8 in
        case absorb_blocks rsiz (replicate 25 0) inp of
          None \<Rightarrow> None
        | Some (st, inp) \<Rightarrow>
            if length inp + 1 \<ge> 144 \<or> length inp > rsiz \<or> rsiz - length inp + length inp + 1 \<ge> 144 \<or> rsiz = 0 \<or>
               rsiz - 1 \<ge> 144 \<or> rsizw * 8 > 144
            then Some (Inl Assertion_failed)
            else let st = process_block rsizw st (pad_block rsiz inp) in
              if mdlen mod 8 \<noteq> 0 then Some (Inl Assertion_failed)
              else Some (Inr (concat (map (\<lambda>i. le_bytes (st ! i)) [0..<nat mdlen div 8]))))"

definition keccak1600 :: "blob \<Rightarrow> blob result option" where
  "keccak1600 inp = keccak inp 200"

definition cn_fast_hash :: "blob \<Rightarrow> blob" where
  "cn_fast_hash data = (case keccak1600 data of Some (Inr state) \<Rightarrow> take HASH_SIZE state | _ \<Rightarrow> [])"

section \<open>Hashing in pieces\<close>

definition KECCAK_FINALIZED :: nat where
  "KECCAK_FINALIZED = 0x80000000"

definition KECCAK_BLOCKLEN :: nat where
  "KECCAK_BLOCKLEN = 136"

definition KECCAK_WORDS :: nat where
  "KECCAK_WORDS = 17"

definition KECCAK_DIGESTSIZE :: nat where
  "KECCAK_DIGESTSIZE = 32"

text \<open>The message buffer is kept as its 136 bytes.\<close>

record keccak_ctx =
  ctx_hash :: "u64 list"
  ctx_message :: blob
  ctx_rest :: nat

definition keccak_init :: keccak_ctx where
  "keccak_init = \<lparr>ctx_hash = replicate 25 0, ctx_message = replicate 136 0, ctx_rest = 0\<rparr>"

definition memcpy_at :: "blob \<Rightarrow> nat \<Rightarrow> blob \<Rightarrow> blob" where
  "memcpy_at buf i src = take i buf @ src @ drop (i + length src) buf"

text \<open>
  The loop over the full blocks and the copy of what remains. A block that is not aligned in
  memory is copied to the message buffer first.
\<close>

function update_blocks :: "bool \<Rightarrow> keccak_ctx \<Rightarrow> blob \<Rightarrow> keccak_ctx" where
  "update_blocks is_aligned ctx inp =
     (if KECCAK_BLOCKLEN \<le> length inp then
        let ctx = (if is_aligned then ctx else ctx\<lparr>ctx_message := take KECCAK_BLOCKLEN inp\<rparr>);
            ctx = ctx\<lparr>ctx_hash := process_block KECCAK_WORDS (ctx_hash ctx) (take KECCAK_BLOCKLEN inp)\<rparr> in
        update_blocks is_aligned ctx (drop KECCAK_BLOCKLEN inp)
      else if inp \<noteq> [] then ctx\<lparr>ctx_message := memcpy_at (ctx_message ctx) 0 inp\<rparr> else ctx)"
  by pat_completeness auto
termination
  by (relation "measure (\<lambda>(a, ctx, inp). length inp)") (auto simp: KECCAK_BLOCKLEN_def)

declare update_blocks.simps [simp del]

definition keccak_update :: "bool \<Rightarrow> keccak_ctx \<Rightarrow> blob \<Rightarrow> keccak_ctx result" where
  "keccak_update is_aligned ctx inp =
     (if ctx_rest ctx AND KECCAK_FINALIZED \<noteq> 0 then Inl Assertion_failed
      else let idx = ctx_rest ctx; ctx = ctx\<lparr>ctx_rest := (ctx_rest ctx + length inp) mod KECCAK_BLOCKLEN\<rparr> in
        if idx \<noteq> 0 then
          let left = KECCAK_BLOCKLEN - idx;
              ctx = ctx\<lparr>ctx_message := memcpy_at (ctx_message ctx) idx (take (if length inp < left then length inp else left) inp)\<rparr> in
          if length inp < left then Inr ctx
          else Inr (update_blocks is_aligned
                 (ctx\<lparr>ctx_hash := process_block KECCAK_WORDS (ctx_hash ctx) (ctx_message ctx)\<rparr>) (drop left inp))
        else Inr (update_blocks is_aligned ctx inp))"

definition keccak_finish :: "keccak_ctx \<Rightarrow> keccak_ctx \<times> blob" where
  "keccak_finish ctx =
     (let ctx =
        (if ctx_rest ctx AND KECCAK_FINALIZED = 0 then
           let message = memcpy_at (ctx_message ctx) (ctx_rest ctx) (replicate (KECCAK_BLOCKLEN - ctx_rest ctx) 0);
               message = message[ctx_rest ctx := message ! ctx_rest ctx OR 0x01];
               message = message[KECCAK_BLOCKLEN - 1 := message ! (KECCAK_BLOCKLEN - 1) OR 0x80] in
           ctx\<lparr>ctx_message := message, ctx_hash := process_block KECCAK_WORDS (ctx_hash ctx) message, ctx_rest := KECCAK_FINALIZED\<rparr>
         else ctx) in
      (ctx, concat (map (\<lambda>i. le_bytes (ctx_hash ctx ! i)) [0..<KECCAK_DIGESTSIZE div 8])))"

text \<open>A sequence of updates, each with the alignment of its buffer.\<close>

definition keccak_updates :: "(bool \<times> blob) list \<Rightarrow> keccak_ctx \<Rightarrow> keccak_ctx result" where
  "keccak_updates pieces ctx = fold (\<lambda>(a, inp) r. and_then r (\<lambda>ctx. keccak_update a ctx inp)) pieces (Inr ctx)"

section \<open>Absorbing\<close>

lemma absorb_blocks_total: "0 < n \<Longrightarrow> \<exists>st' rest. absorb_blocks n st inp = Some (st', rest) \<and> length rest = length inp mod n"
proof (induction n st inp rule: absorb_blocks.induct)
  case (1 n st inp)
  show ?case
  proof (cases "n \<le> length inp")
    case True
    then obtain st' rest where "absorb_blocks n (process_block (n div 8) st (take n inp)) (drop n inp) = Some (st', rest)"
        "length rest = (length inp - n) mod n"
      using 1 by auto
    then show ?thesis
      using True 1(2) by (subst absorb_blocks.simps) (simp add: le_mod_geq)
  next
    case False
    then show ?thesis
      using 1(2) by (subst absorb_blocks.simps) simp
  qed
qed

lemma absorb_blocks_short: "length inp < n \<Longrightarrow> absorb_blocks n st inp = Some (st, inp)"
  by (subst absorb_blocks.simps) simp

lemma absorb_blocks_append:
  "absorb_blocks n st p = Some (st', rest) \<Longrightarrow> absorb_blocks n st (p @ q) = absorb_blocks n st' (rest @ q)"
proof (induction n st p rule: absorb_blocks.induct)
  case (1 n st p)
  from 1(2) have n: "n \<noteq> 0"
    by (subst (asm) absorb_blocks.simps) (auto split: if_splits)
  show ?case
  proof (cases "n \<le> length p")
    case True
    then have "absorb_blocks n (process_block (n div 8) st (take n p)) (drop n p) = Some (st', rest)"
      using 1(2) n by (subst (asm) absorb_blocks.simps) simp
    then have "absorb_blocks n (process_block (n div 8) st (take n p)) (drop n p @ q) = absorb_blocks n st' (rest @ q)"
      by (rule 1(1) [OF n True])
    then show ?thesis
      using True n by (subst absorb_blocks.simps) simp
  next
    case False
    then show ?thesis
      using 1(2) n by (subst (asm) absorb_blocks.simps) simp
  qed
qed

lemma update_blocks_absorb:
  "absorb_blocks 136 (ctx_hash ctx) inp = Some (st, rest) \<Longrightarrow> length (ctx_message ctx) = 136 \<Longrightarrow>
   ctx_hash (update_blocks a ctx inp) = st \<and> take (length rest) (ctx_message (update_blocks a ctx inp)) = rest \<and>
   length (ctx_message (update_blocks a ctx inp)) = 136 \<and> ctx_rest (update_blocks a ctx inp) = ctx_rest ctx"
proof (induction a ctx inp rule: update_blocks.induct)
  case (1 a ctx inp)
  show ?case
  proof (cases "136 \<le> length inp")
    case True
    let ?ctx = "(if a then ctx else ctx\<lparr>ctx_message := take 136 inp\<rparr>)\<lparr>ctx_hash := process_block 17 (ctx_hash ctx) (take 136 inp)\<rparr>"
    have "absorb_blocks 136 (ctx_hash ?ctx) (drop 136 inp) = Some (st, rest)"
      using True 1(2) by (subst (asm) absorb_blocks.simps) simp
    moreover have "length (ctx_message ?ctx) = 136" "ctx_rest ?ctx = ctx_rest ctx"
      using True 1(3) by simp_all
    moreover have "update_blocks a ctx inp = update_blocks a ?ctx (drop 136 inp)"
      using True by (subst update_blocks.simps) (simp add: KECCAK_BLOCKLEN_def KECCAK_WORDS_def Let_def)
    ultimately show ?thesis
      using 1(1) [of "if a then ctx else ctx\<lparr>ctx_message := take 136 inp\<rparr>" ?ctx] True
      by (simp add: KECCAK_BLOCKLEN_def KECCAK_WORDS_def)
  next
    case False
    then have "st = ctx_hash ctx" "rest = inp"
      using 1(2) by (simp_all add: absorb_blocks_short)
    then show ?thesis
      using False 1(3) by (subst update_blocks.simps, simp add: KECCAK_BLOCKLEN_def memcpy_at_def)+
  qed
qed

section \<open>The context represents the input so far\<close>

definition represents :: "keccak_ctx \<Rightarrow> blob \<Rightarrow> bool" where
  "represents ctx p \<longleftrightarrow> length (ctx_message ctx) = 136 \<and> ctx_rest ctx < 136 \<and>
     absorb_blocks 136 (replicate 25 0) p = Some (ctx_hash ctx, take (ctx_rest ctx) (ctx_message ctx))"

lemma represents_init: "represents keccak_init []"
  by (simp add: represents_def keccak_init_def absorb_blocks.simps [of 136])

lemma rest_not_finalized: "n < 136 \<Longrightarrow> n AND KECCAK_FINALIZED = 0"
proof -
  assume "n < 136"
  then have "\<not> bit n 31"
    by (simp add: bit_iff_odd)
  then have "n AND 2 ^ 31 = 0"
    by (subst and_exp_eq_0_iff_not_bit)
  then show ?thesis
    by (simp add: KECCAK_FINALIZED_def)
qed

lemma memcpy_at_end: "length buf = n \<Longrightarrow> i + length src = n \<Longrightarrow> memcpy_at buf i src = take i buf @ src"
  by (simp add: memcpy_at_def)

lemma represents_update:
  assumes "represents ctx p"
  shows "\<exists>ctx'. keccak_update a ctx inp = Inr ctx' \<and> represents ctx' (p @ inp)"
proof -
  define idx l where "idx = ctx_rest ctx" and "l = take idx (ctx_message ctx)"
  have msg: "length (ctx_message ctx) = 136" and idx: "idx < 136" and l: "length l = idx"
    and absorbed: "absorb_blocks 136 (replicate 25 0) p = Some (ctx_hash ctx, l)"
    using assms by (simp_all add: represents_def idx_def l_def)
  have step: "absorb_blocks 136 (replicate 25 0) (p @ inp) = absorb_blocks 136 (ctx_hash ctx) (l @ inp)"
    by (rule absorb_blocks_append [OF absorbed])
  obtain st rest where rest: "absorb_blocks 136 (ctx_hash ctx) (l @ inp) = Some (st, rest)" "length rest = (idx + length inp) mod 136"
    using absorb_blocks_total [of 136 "ctx_hash ctx" "l @ inp"] l by auto
  have fin: "ctx_rest ctx AND KECCAK_FINALIZED = 0"
    using rest_not_finalized idx by (simp add: idx_def)
  have done_if: "represents c (p @ inp)"
    if "ctx_hash c = st" "take (length rest) (ctx_message c) = rest" "length (ctx_message c) = 136" "ctx_rest c = length rest" for c
    using that step rest by (simp add: represents_def)
  let ?c = "ctx\<lparr>ctx_rest := length rest\<rparr>"
  show ?thesis
  proof (cases "idx = 0")
    case True
    then have "keccak_update a ctx inp = Inr (update_blocks a ?c inp)"
      using fin rest(2) by (simp add: keccak_update_def Let_def idx_def KECCAK_BLOCKLEN_def)
    moreover have "absorb_blocks 136 (ctx_hash ?c) inp = Some (st, rest)"
      using rest(1) l True by simp
    from update_blocks_absorb [OF this, of a] have "represents (update_blocks a ?c inp) (p @ inp)"
      using msg by (intro done_if) simp_all
    ultimately show ?thesis
      by blast
  next
    case False
    show ?thesis
    proof (cases "length inp < 136 - idx")
      case True
      then have "rest = l @ inp" "st = ctx_hash ctx"
        using rest(1) l by (simp_all add: absorb_blocks_short)
      moreover have "keccak_update a ctx inp = Inr (?c\<lparr>ctx_message := memcpy_at (ctx_message ctx) idx inp\<rparr>)"
        using False True fin rest(2) by (simp add: keccak_update_def Let_def idx_def KECCAK_BLOCKLEN_def)
      ultimately show ?thesis
        using done_if [of "?c\<lparr>ctx_message := memcpy_at (ctx_message ctx) idx inp\<rparr>"] True msg l idx
        by (simp add: memcpy_at_def l_def)
    next
      case big: False
      let ?m = "l @ take (136 - idx) inp"
      let ?c' = "?c\<lparr>ctx_message := ?m, ctx_hash := process_block 17 (ctx_hash ctx) ?m\<rparr>"
      have m: "memcpy_at (ctx_message ctx) idx (take (136 - idx) inp) = ?m"
        unfolding l_def using big msg idx by (intro memcpy_at_end [where n = 136]) simp_all
      have "take 136 (l @ inp) = ?m" "drop 136 (l @ inp) = drop (136 - idx) inp" "136 \<le> length (l @ inp)"
        using l idx big by simp_all
      then have "absorb_blocks 136 (ctx_hash ?c') (drop (136 - idx) inp) = Some (st, rest)"
        using rest(1) by (subst (asm) absorb_blocks.simps) simp
      moreover have "length (ctx_message ?c') = 136"
        using l idx big by simp
      ultimately have "represents (update_blocks a ?c' (drop (136 - idx) inp)) (p @ inp)"
        using update_blocks_absorb [of ?c' _ st rest a] by (intro done_if) simp_all
      moreover have "keccak_update a ctx inp = Inr (update_blocks a ?c' (drop (136 - idx) inp))"
        using False big fin rest(2) m
        by (simp add: keccak_update_def Let_def idx_def KECCAK_BLOCKLEN_def KECCAK_WORDS_def)
      ultimately show ?thesis
        by blast
    qed
  qed
qed

lemma represents_updates:
  assumes "represents ctx p"
  shows "\<exists>ctx'. keccak_updates pieces ctx = Inr ctx' \<and> represents ctx' (p @ concat (map snd pieces))"
  using assms
proof (induction pieces arbitrary: ctx p)
  case (Cons piece pieces)
  obtain a inp where piece: "piece = (a, inp)"
    by fastforce
  obtain c where c: "keccak_update a ctx inp = Inr c" "represents c (p @ inp)"
    using represents_update [OF Cons.prems] by blast
  then show ?case
    using Cons.IH [OF c(2)] by (simp add: keccak_updates_def piece)
qed (simp add: keccak_updates_def)

lemma finish_pads:
  assumes "length l < 136"
  shows "(let m = l @ replicate (136 - length l) 0; m = m[length l := m ! length l OR 1] in
      m[135 := m ! 135 OR 0x80]) = pad_block 136 (l :: blob)"
proof -
  have "replicate (136 - length l) (0 :: byte) = 0 # replicate (136 - (length l + 1)) 0"
    using assms by (cases "136 - length l") simp_all
  then show ?thesis
    by (simp add: pad_block_def Let_def nth_append)
qed

text \<open>The digest both ways of hashing return.\<close>

definition digest :: "blob \<Rightarrow> nat \<Rightarrow> blob" where
  "digest p n = (case absorb_blocks 136 (replicate 25 0) p of
     Some (st, rest) \<Rightarrow> concat (map (\<lambda>i. le_bytes (process_block 17 st (pad_block 136 rest) ! i)) [0..<n]) | None \<Rightarrow> [])"

lemma keccak_digest:
  assumes "mdlen = 32 \<or> mdlen = 200"
  shows "keccak inp mdlen = Some (Inr (digest inp (nat mdlen div 8)))"
proof -
  obtain st rest where rest: "absorb_blocks 136 (replicate 25 0) inp = Some (st, rest)" "length rest = length inp mod 136"
    using absorb_blocks_total [of 136 "replicate 25 0" inp] by auto
  have "length rest < 136"
    by (simp add: rest(2))
  then show ?thesis
    using assms rest(1) by (auto simp: keccak_def digest_def HASH_DATA_AREA_def Let_def)
qed

lemma keccak_finish_digest:
  assumes "represents ctx p"
  shows "snd (keccak_finish ctx) = digest p 4"
proof -
  let ?l = "take (ctx_rest ctx) (ctx_message ctx)"
  have msg: "length (ctx_message ctx) = 136" and idx: "ctx_rest ctx < 136" and l: "length ?l = ctx_rest ctx"
    and absorbed: "absorb_blocks 136 (replicate 25 0) p = Some (ctx_hash ctx, ?l)"
    using assms by (simp_all add: represents_def)
  have m: "memcpy_at (ctx_message ctx) (ctx_rest ctx) (replicate (136 - ctx_rest ctx) 0) = ?l @ replicate (136 - length ?l) 0"
    using msg idx l by (subst memcpy_at_end [where n = 136]) simp_all
  show ?thesis
    using finish_pads [of ?l] idx l absorbed rest_not_finalized [OF idx]
    by (simp add: keccak_finish_def Let_def KECCAK_BLOCKLEN_def KECCAK_WORDS_def KECCAK_DIGESTSIZE_def digest_def m)
qed

lemma length_le_bytes [simp]: "length (le_bytes w) = 8"
  by (simp add: le_bytes_def)

lemma take_digest: "k \<le> n \<Longrightarrow> take (8 * k) (digest p n) = digest p k"
proof -
  assume "k \<le> n"
  then have split: "[0..<n] = [0..<k] @ [k..<n]"
    by (metis le_add_diff_inverse upt_add_eq_append zero_le)
  have "length (concat (map (\<lambda>i. le_bytes (f i)) [0..<k])) = 8 * k" for f
    by (induction k) simp_all
  then show ?thesis
    unfolding digest_def split by (auto split: option.splits)
qed

lemma cn_fast_hash_digest: "cn_fast_hash data = digest data 4"
proof -
  have "cn_fast_hash data = take (8 * 4) (digest data 25)"
    by (simp add: cn_fast_hash_def keccak1600_def keccak_digest HASH_SIZE_def)
  then show ?thesis
    by (simp only: take_digest)
qed

lemma length_cn_fast_hash [simp]: "length (cn_fast_hash data) = 32"
proof -
  obtain st rest where "absorb_blocks 136 (replicate 25 0) data = Some (st, rest)"
    using absorb_blocks_total [of 136 "replicate 25 0" data] by auto
  then show ?thesis
    by (simp add: cn_fast_hash_digest digest_def upt_rec)
qed

section \<open>Properties\<close>

text \<open>
  C7. Hashing in pieces is hashing at once: whatever the division of the input into updates and
  the alignment of their buffers, no update aborts and \<open>keccak_finish\<close> returns the 32-byte
  \<open>keccak\<close> hash of the whole input.
\<close>

theorem keccak_incremental:
  "\<exists>ctx. keccak_updates pieces keccak_init = Inr ctx \<and>
     keccak (concat (map snd pieces)) 32 = Some (Inr (snd (keccak_finish ctx)))"
proof -
  obtain ctx where "keccak_updates pieces keccak_init = Inr ctx" "represents ctx (concat (map snd pieces))"
    using represents_updates [OF represents_init] by auto
  then show ?thesis
    using keccak_finish_digest [of ctx] keccak_digest [of 32] by simp
qed

text \<open>
  \<open>cn_fast_hash\<close>, which squeezes the whole state and keeps 32 bytes of it, is the 32-byte
  \<open>keccak\<close> hash; the hash of every string is defined and has 32 bytes.
\<close>

theorem cn_fast_hash_keccak: "keccak data 32 = Some (Inr (cn_fast_hash data)) \<and> length (cn_fast_hash data) = 32"
  using keccak_digest [of 32 data] by (simp add: cn_fast_hash_digest [symmetric])

text \<open>
  Misuse: a digest length of 100 passes the check at the start of \<open>keccak\<close> and gives a block
  size of 0, for which the loop over the input never ends, even on an empty input.
\<close>

theorem keccak_100_diverges: "keccak inp 100 = None"
  by (simp add: keccak_def absorb_blocks.simps)

end
