(* ===== verification/Base58.thy ===== *)
theory Base58
  imports Varint Keccak
begin

unbundle bit_operations_syntax

text \<open>
  \<open>common/base58.cpp\<close>: the base-58 coding of byte strings and of addresses. Blocks of eight
  bytes become blocks of eleven letters; a shorter last block has its own length. Both
  directions work on 64-bit numbers. An index below the buffer is the error
  \<open>Out_of_range\<close>; a \<open>false\<close> of the decoders is \<open>None\<close>. The theorems say that coding never leaves
  the buffer, that decoding inverts it, and that no other text decodes to the same bytes.
\<close>

section \<open>Tables\<close>

definition alphabet :: blob where
  "alphabet = map of_char ''123456789ABCDEFGHJKLMNPQRSTUVWXYZabcdefghijkmnopqrstuvwxyz''"

definition alphabet_size :: nat where
  "alphabet_size = 58"

definition encoded_block_sizes :: "nat list" where
  "encoded_block_sizes = [0, 2, 3, 5, 6, 7, 9, 10, 11]"

definition full_block_size :: nat where
  "full_block_size = length encoded_block_sizes - 1"

definition full_encoded_block_size :: nat where
  "full_encoded_block_size = encoded_block_sizes ! full_block_size"

definition addr_checksum_size :: nat where
  "addr_checksum_size = 4"

definition reverse_alphabet_data :: "int list" where
  "reverse_alphabet_data =
     fold (\<lambda>i m_data. m_data[nat (sint (alphabet ! i) - sint (alphabet ! 0)) := int i]) [0..<alphabet_size]
       (replicate (nat (sint (alphabet ! (alphabet_size - 1)) - sint (alphabet ! 0) + 1)) (- 1))"

text \<open>The difference of the letters becomes a \<open>size_t\<close>: below the first letter it is out of the table.\<close>

definition reverse_alphabet :: "byte \<Rightarrow> int" where
  "reverse_alphabet letter =
     (let idx = sint letter - sint (alphabet ! 0) in
      if 0 \<le> idx \<and> idx < int (length reverse_alphabet_data) then reverse_alphabet_data ! nat idx else - 1)"

definition decoded_block_sizes_data :: "int list" where
  "decoded_block_sizes_data =
     fold (\<lambda>i m_data. m_data[encoded_block_sizes ! i := int i]) [0..<Suc full_block_size]
       (replicate (encoded_block_sizes ! full_block_size + 1) (- 1))"

definition decoded_block_sizes :: "nat \<Rightarrow> int" where
  "decoded_block_sizes encoded_block_size = decoded_block_sizes_data ! encoded_block_size"

section \<open>Blocks\<close>

text \<open>The bytes are copied to the end of a 64-bit integer in memory, which is then byte-swapped.\<close>

definition uint_8be_to_64 :: "blob \<Rightarrow> u64" where
  "uint_8be_to_64 data = SWAP64 (le_word (replicate (8 - length data) 0 @ data))"

definition uint_64_to_8be :: "u64 \<Rightarrow> nat \<Rightarrow> blob" where
  "uint_64_to_8be num sz = (let num_be = SWAP64 num in drop (8 - sz) (le_bytes num_be))"

text \<open>The loop of \<open>encode_block\<close> writes letters from the end of the block; \<open>n\<close> is \<open>i + 1\<close>.\<close>

function encode_block_loop :: "u64 \<Rightarrow> nat \<Rightarrow> blob \<Rightarrow> blob result" where
  "encode_block_loop num n res =
     (if 0 < num then
        (let remainder = num mod of_nat alphabet_size in
         if n = 0 \<or> length res < n then Inl Out_of_range
         else encode_block_loop (num div of_nat alphabet_size) (n - 1) (res[n - 1 := alphabet ! unat remainder]))
      else Inr res)"
  by pat_completeness auto
termination
  by (relation "measure (\<lambda>(num, n, res). n)") auto

declare encode_block_loop.simps [simp del]

text \<open>Encoding a block of \<open>size\<close> bytes into its part of the result, which \<open>encode\<close> has filled with the first letter.\<close>

definition encode_block :: "blob \<Rightarrow> blob result" where
  "encode_block block =
     (let sz = length block; num = uint_8be_to_64 block in
      encode_block_loop num (encoded_block_sizes ! sz) (replicate (encoded_block_sizes ! sz) (alphabet ! 0)))"

text \<open>The loop of \<open>decode_block\<close> reads the letters from the last to the first.\<close>

fun decode_block_loop :: "blob \<Rightarrow> u64 \<Rightarrow> u64 \<Rightarrow> u64 option" where
  "decode_block_loop [] res_num order = Some res_num"
| "decode_block_loop (c # cs) res_num order =
     (let digit = reverse_alphabet c in
      if digit < 0 then None
      else let (product_hi, product_lo) = mul128 order (word_of_int digit); tmp = res_num + product_lo in
        if tmp < res_num \<or> product_hi \<noteq> 0 then None
        else decode_block_loop cs tmp (order * of_nat alphabet_size))"

definition decode_block :: "blob \<Rightarrow> blob option" where
  "decode_block block =
     (let res_size = decoded_block_sizes (length block) in
      if res_size \<le> 0 then None
      else case decode_block_loop (rev block) 0 1 of
        None \<Rightarrow> None
      | Some res_num \<Rightarrow>
          if nat res_size < full_block_size \<and> push_bit (8 * nat res_size) 1 \<le> res_num then None
          else Some (uint_64_to_8be res_num (nat res_size)))"

section \<open>Strings\<close>

text \<open>The parts of a string that the loops of \<open>encode\<close> and \<open>decode\<close> visit: the full blocks, then the last one if it is not empty.\<close>

definition blocks :: "nat \<Rightarrow> 'a list \<Rightarrow> 'a list list" where
  "blocks n xs =
     (let full_block_count = length xs div n; last_block_size = length xs mod n in
      map (\<lambda>i. take n (drop (i * n) xs)) [0..<full_block_count] @
      (if 0 < last_block_size then [drop (full_block_count * n) xs] else []))"

fun encode_blocks :: "blob list \<Rightarrow> blob result" where
  "encode_blocks [] = Inr []"
| "encode_blocks (b # bs) = and_then (encode_block b) (\<lambda>e. and_then (encode_blocks bs) (\<lambda>es. Inr (e @ es)))"

definition encode :: "blob \<Rightarrow> blob result" where
  "encode data = (if data = [] then Inr [] else encode_blocks (blocks full_block_size data))"

fun decode_blocks :: "blob list \<Rightarrow> blob option" where
  "decode_blocks [] = Some []"
| "decode_blocks (b # bs) =
     (case decode_block b of None \<Rightarrow> None
      | Some d \<Rightarrow> (case decode_blocks bs of None \<Rightarrow> None | Some ds \<Rightarrow> Some (d @ ds)))"

definition decode :: "blob \<Rightarrow> blob option" where
  "decode enc =
     (if enc = [] then Some []
      else if decoded_block_sizes (length enc mod full_encoded_block_size) < 0 then None
      else decode_blocks (blocks full_encoded_block_size enc))"

section \<open>Addresses\<close>

definition encode_addr :: "u64 \<Rightarrow> blob \<Rightarrow> blob result" where
  "encode_addr tag data =
     (let buf = get_varint_data tag; buf = buf @ data; hash = cn_fast_hash buf in
      encode (buf @ take addr_checksum_size hash))"

definition decode_addr :: "blob \<Rightarrow> (u64 \<times> blob) option" where
  "decode_addr addr =
     (case decode addr of
        None \<Rightarrow> None
      | Some addr_data \<Rightarrow>
          if length addr_data \<le> addr_checksum_size then None
          else let n = length addr_data - addr_checksum_size;
                   checksum = drop n addr_data; addr_data = take n addr_data in
            if take addr_checksum_size (cn_fast_hash addr_data) \<noteq> checksum then None
            else case read_varint addr_data of (rd, tag, _) \<Rightarrow>
              if rd \<le> 0 then None else Some (tag, drop (nat rd) addr_data))"

section \<open>The tables\<close>

lemma alphabet_eval: "alphabet = [49, 50, 51, 52, 53, 54, 55, 56, 57, 65, 66, 67, 68, 69, 70, 71, 72, 74, 75, 76, 77, 78, 80, 81,
    82, 83, 84, 85, 86, 87, 88, 89, 90, 97, 98, 99, 100, 101, 102, 103, 104, 105, 106, 107, 109, 110, 111, 112, 113, 114,
    115, 116, 117, 118, 119, 120, 121, 122]"
  by (simp add: alphabet_def of_char_Char)

lemmas table_defs = alphabet_size_def encoded_block_sizes_def full_block_size_def full_encoded_block_size_def

lemma alphabet_size_table: "alphabet_size = length alphabet"
  by (simp add: alphabet_eval alphabet_size_def)

lemma decoded_block_sizes_eval: "decoded_block_sizes_data = [0, -1, 1, 2, -1, 3, 4, 5, -1, 6, 7, 8]"
  by code_simp

lemma reverse_alphabet_eval: "reverse_alphabet_data = [0, 1, 2, 3, 4, 5, 6, 7, 8, -1, -1, -1, -1, -1, -1, -1, 9, 10, 11, 12, 13, 14,
    15, 16, -1, 17, 18, 19, 20, 21, -1, 22, 23, 24, 25, 26, 27, 28, 29, 30, 31, 32, -1, -1, -1, -1, -1, -1,
    33, 34, 35, 36, 37, 38, 39, 40, 41, 42, 43, -1, 44, 45, 46, 47, 48, 49, 50, 51, 52, 53, 54, 55, 56, 57]"
  unfolding reverse_alphabet_data_def alphabet_eval alphabet_size_def by code_simp

lemma reverse_alphabet_alphabet:
  assumes "i < 58"
  shows "reverse_alphabet (alphabet ! i) = int i"
proof -
  have "list_all (\<lambda>i. reverse_alphabet (alphabet ! i) = int i) [0..<58]"
    by (simp add: upt_rec reverse_alphabet_def reverse_alphabet_eval alphabet_eval)
  with assms show ?thesis
    by (simp add: list_all_iff)
qed

lemma alphabet_reverse_alphabet:
  assumes "0 \<le> reverse_alphabet c"
  shows "reverse_alphabet c < 58" "alphabet ! nat (reverse_alphabet c) = c"
proof -
  define idx where "idx = sint c - 49"
  have idx: "0 \<le> idx" "idx < 74" "reverse_alphabet c = reverse_alphabet_data ! nat idx"
    using assms by (auto simp: idx_def reverse_alphabet_def reverse_alphabet_eval alphabet_eval Let_def split: if_splits)
  have "list_all (\<lambda>i. 0 \<le> reverse_alphabet_data ! i \<longrightarrow> reverse_alphabet_data ! i < 58 \<and>
      sint (alphabet ! nat (reverse_alphabet_data ! i)) = int i + 49) [0..<74]"
    by (simp add: upt_rec reverse_alphabet_eval alphabet_eval)
  then have "reverse_alphabet_data ! nat idx < 58" "sint (alphabet ! nat (reverse_alphabet_data ! nat idx)) = sint c"
    using idx assms by (simp_all add: list_all_iff idx_def)
  then show "reverse_alphabet c < 58" "alphabet ! nat (reverse_alphabet c) = c"
    by (simp_all add: idx(3) signed_word_eqI)
qed

section \<open>Numbers in base 58\<close>

fun digits58 :: "nat \<Rightarrow> nat \<Rightarrow> nat list" where
  "digits58 0 v = []"
| "digits58 (Suc k) v = v mod 58 # digits58 k (v div 58)"

fun value58 :: "nat list \<Rightarrow> nat" where
  "value58 [] = 0"
| "value58 (d # ds) = d + 58 * value58 ds"

lemma length_digits58 [simp]: "length (digits58 k v) = k"
  by (induction k arbitrary: v) auto

lemma digits58_0: "digits58 k 0 = replicate k 0"
  by (induction k) auto

lemma digits58_less: "list_all (\<lambda>d. d < 58) (digits58 k v)"
  by (induction k arbitrary: v) auto

lemma value58_digits58: "v < 58 ^ k \<Longrightarrow> value58 (digits58 k v) = v"
proof (induction k arbitrary: v)
  case (Suc k)
  then have "v div 58 < 58 ^ k"
    by (simp add: less_mult_imp_div_less mult.commute)
  with Suc show ?case
    by simp
qed simp

lemma digits58_value58: "list_all (\<lambda>d. d < 58) ds \<Longrightarrow> digits58 (length ds) (value58 ds) = ds"
  by (induction ds) auto

lemma value58_less: "list_all (\<lambda>d. d < 58) ds \<Longrightarrow> value58 ds < 58 ^ length ds"
  by (induction ds) auto

section \<open>Encoding a block\<close>

lemma encode_block_loop_digits:
  assumes "unat num < 58 ^ n" and "n \<le> length res" and "take n res = replicate n (alphabet ! 0)"
  shows "encode_block_loop num n res = Inr (rev (map ((!) alphabet) (digits58 n (unat num))) @ drop n res)"
  using assms
proof (induction n arbitrary: num res)
  case 0
  then have "num = 0"
    by (simp add: unat_eq_0)
  then show ?case
    by (simp add: encode_block_loop.simps)
next
  case (Suc n)
  let ?a = "alphabet ! unat (num mod 58)"
  have div: "unat (num div 58) = unat num div 58" and mod: "unat (num mod 58) = unat num mod 58"
    by (simp_all add: unat_div unat_mod)
  have less: "unat (num div 58) < 58 ^ n"
    using Suc.prems(1) by (simp add: div less_mult_imp_div_less mult.commute)
  have take: "take n (res[n := ?a]) = replicate n (alphabet ! 0)"
    using arg_cong [OF Suc.prems(3), of "take n"] by (simp add: min_def del: replicate_Suc)
  have drop: "drop n (res[n := ?a]) = ?a # drop (Suc n) res"
    using Suc.prems(2) by (simp add: drop_update_swap flip: Cons_nth_drop_Suc)
  show ?case
  proof (cases "num = 0")
    case True
    have "res = replicate (Suc n) (alphabet ! 0) @ drop (Suc n) res"
      using Suc.prems(3) append_take_drop_id [of "Suc n" res] by simp
    with True show ?thesis
      by (simp add: encode_block_loop.simps digits58_0 replicate_append_same flip: replicate_Suc)
  next
    case False
    then have "encode_block_loop num (Suc n) res = encode_block_loop (num div 58) n (res[n := ?a])"
      using Suc.prems(2) by (subst encode_block_loop.simps) (simp add: alphabet_size_def word_gt_0)
    then show ?thesis
      using Suc.IH [OF less _ take] Suc.prems(2) unfolding drop by (simp add: div mod)
  qed
qed

section \<open>Decoding a block\<close>

definition letter_digit :: "byte \<Rightarrow> nat" where
  "letter_digit c = nat (reverse_alphabet c)"

lemma letter_digit_less: "letter_digit c < 58"
  using alphabet_reverse_alphabet(1) [of c] by (cases "0 \<le> reverse_alphabet c") (simp_all add: letter_digit_def)

lemma decode_step:
  assumes "unat order = 58 ^ j" and "0 \<le> reverse_alphabet c" and "mul128 order (word_of_int (reverse_alphabet c)) = (hi, lo)"
  shows "\<not> (res + lo < res \<or> hi \<noteq> 0) \<longleftrightarrow> unat res + 58 ^ j * letter_digit c < 2 ^ 64"
    and "\<not> (res + lo < res \<or> hi \<noteq> 0) \<Longrightarrow> unat (res + lo) = unat res + 58 ^ j * letter_digit c"
proof -
  have "unat (word_of_int (reverse_alphabet c) :: u64) = letter_digit c"
    using assms(2) alphabet_reverse_alphabet(1) [OF assms(2)]
    by (simp add: letter_digit_def unat_eq_nat_uint uint_word_of_int)
  then have product: "unat hi * 2 ^ 64 + unat lo = 58 ^ j * letter_digit c"
    using mul128_value [OF assms(3)] assms(1) by simp
  have sum: "\<not> res + lo < res \<longleftrightarrow> unat res + unat lo < 2 ^ 64"
    using no_olen_add_nat [of res lo] by (simp add: not_less)
  show *: "\<not> (res + lo < res \<or> hi \<noteq> 0) \<longleftrightarrow> unat res + 58 ^ j * letter_digit c < 2 ^ 64"
  proof (cases "hi = 0")
    case False
    then have "1 \<le> unat hi"
      by (simp add: Suc_le_eq unat_gt_0)
    then have "2 ^ 64 \<le> unat hi * 2 ^ 64"
      by simp
    then have "\<not> unat res + 58 ^ j * letter_digit c < 2 ^ 64"
      unfolding product [symmetric] by linarith
    with False show ?thesis
      by blast
  qed (use sum product in simp)
  assume ok: "\<not> (res + lo < res \<or> hi \<noteq> 0)"
  then show "unat (res + lo) = unat res + 58 ^ j * letter_digit c"
    using product sum by (simp add: unat_add_lem [THEN iffD1])
qed

lemma decode_block_loop_value:
  assumes "cs = [] \<or> unat order = 58 ^ j" and "j + length cs \<le> 11"
  shows "decode_block_loop cs res order =
    (if list_all (\<lambda>c. 0 \<le> reverse_alphabet c) cs \<and> unat res + 58 ^ j * value58 (map letter_digit cs) < 2 ^ 64
     then Some (of_nat (unat res + 58 ^ j * value58 (map letter_digit cs))) else None)"
  using assms
proof (induction cs arbitrary: res order j)
  case Nil
  show ?case
    using unsigned_less [of res, where 'a = nat] by simp
next
  case (Cons c cs)
  obtain hi lo where m: "mul128 order (word_of_int (reverse_alphabet c)) = (hi, lo)"
    by fastforce
  have total: "58 ^ j * value58 (map letter_digit (c # cs)) = 58 ^ j * letter_digit c + 58 ^ Suc j * value58 (map letter_digit cs)"
    by (simp add: algebra_simps)
  show ?case
  proof (cases "0 \<le> reverse_alphabet c")
    case True
    have order: "unat order = 58 ^ j"
      using Cons.prems(1) by simp
    note step = decode_step [OF order True m, of res]
    show ?thesis
    proof (cases "res + lo < res \<or> hi \<noteq> 0")
      case overflow: True
      then have "\<not> unat res + 58 ^ j * letter_digit c < 2 ^ 64"
        using step(1) by blast
      then have "\<not> unat res + 58 ^ j * value58 (map letter_digit (c # cs)) < 2 ^ 64"
        unfolding total by linarith
      with overflow True m show ?thesis
        by (auto simp del: value58.simps list.map(2))
    next
      case False
      have next_order: "cs = [] \<or> unat (order * 58) = 58 ^ Suc j"
      proof (cases "cs = []")
        case False
        with Cons.prems(2) have "j \<le> 9"
          by (cases cs) simp_all
        then have "58 ^ Suc j < (2 :: nat) ^ 64"
          using power_increasing [of "Suc j" 10 "58 :: nat"] by (simp del: power_Suc)
        then show ?thesis
          using order by (simp add: unat_word_ariths mult.commute)
      qed simp
      have "decode_block_loop (c # cs) res order = decode_block_loop cs (res + lo) (order * 58)"
        using True False m by (simp add: alphabet_size_def Let_def)
      also note Cons.IH [OF next_order]
      also note step(2) [OF False]
      finally show ?thesis
        using True Cons.prems(2) by (simp add: total add.assoc del: value58.simps list.map(2))
    qed
  qed simp
qed

lemma decode_block_value:
  assumes "length block \<le> 11"
  shows "decode_block block =
    (let res_size = decoded_block_sizes (length block); v = value58 (map letter_digit (rev block)) in
     if 0 < res_size \<and> list_all (\<lambda>c. 0 \<le> reverse_alphabet c) block \<and> v < 256 ^ nat res_size
     then Some (uint_64_to_8be (of_nat v) (nat res_size)) else None)"
proof -
  define n v where "n = nat (decoded_block_sizes (length block))" and "v = value58 (map letter_digit (rev block))"
  have loop: "decode_block_loop (rev block) 0 1 =
      (if list_all (\<lambda>c. 0 \<le> reverse_alphabet c) block \<and> v < 2 ^ 64 then Some (of_nat v) else None)"
    using decode_block_loop_value [of "rev block" 1 0 0] assms by (simp add: v_def)
  have n: "n \<le> 8"
    using assms unfolding n_def decoded_block_sizes_def decoded_block_sizes_eval le_eq_less_or_eq
    by (auto simp: nth_Cons' less_Suc_eq numeral_eq_Suc)
  have small: "v < 2 ^ 64" if "v < 256 ^ n"
    using that power_increasing [OF n, of "256 :: nat"] by simp
  have check: "(n < 8 \<and> push_bit (8 * n) 1 \<le> (of_nat v :: u64)) \<longleftrightarrow> \<not> v < 256 ^ n" if "v < 2 ^ 64"
  proof (cases "n < 8")
    case True
    have "(256 :: nat) ^ n = 2 ^ (8 * n)"
      by (simp add: power_mult)
    moreover have "unat (push_bit (8 * n) 1 :: u64) = 2 ^ (8 * n)"
      using True unfolding unsigned_push_bit_eq by (simp add: push_bit_eq_mult take_bit_nat_eq_self)
    moreover have "unat (of_nat v :: u64) = v"
      using that by (simp add: unat_of_nat)
    ultimately show ?thesis
      using True by (simp add: word_le_nat_alt not_less)
  qed (use n that in simp)
  show ?thesis
    using small check
    by (auto simp: decode_block_def Let_def loop full_block_size_def encoded_block_sizes_def simp flip: n_def v_def)
qed

section \<open>Blocks and their numbers\<close>

lemma le_int_replicate_0: "le_int (bs @ replicate n 0) = le_int bs"
  by (induction bs) (induction n, simp_all)

lemma uint_8be_to_64_value:
  assumes "length data \<le> 8"
  shows "int (unat (uint_8be_to_64 data)) = le_int (rev data)"
proof -
  have "uint_8be_to_64 data = le_word (rev data @ replicate (8 - length data) 0)"
    unfolding uint_8be_to_64_def by (subst SWAP64_le_word) (use assms in simp_all)
  moreover have "0 \<le> le_int (rev data)" "le_int (rev data) < 2 ^ 64"
    using le_int_bounds [of "rev data"] power_increasing [of "8 * length data" 64 "2 :: int"] assms by auto
  ultimately show ?thesis
    by (simp add: le_word_def le_int_replicate_0 uint_word_of_int flip: uint_nat)
qed

lemma le_int_le_bytes: "le_int (le_bytes w) = uint w"
proof -
  have bits: "take_bit 64 (uint w) = uint w"
    by (rule take_bit_int_eq_self) (use uint_bounded [of w] in simp_all)
  then have "map uint (le_bytes w) = digits 8 8 (uint w)"
    by (simp add: le_bytes_def digits_def digit_def unsigned_ucast_eq unsigned_drop_bit_eq o_def)
  with le_int_of_digits [of "le_bytes w" "uint w"] show ?thesis
    by (simp add: bits)
qed

lemma le_bytes_SWAP64: "le_bytes (SWAP64 w) = rev (le_bytes w)"
proof -
  have "le_word (le_bytes w) = w"
    by (simp add: le_word_def le_int_le_bytes)
  then have "SWAP64 w = le_word (rev (le_bytes w))"
    using SWAP64_le_word [of "le_bytes w"] by simp
  then have "le_int (le_bytes (SWAP64 w)) = le_int (rev (le_bytes w))"
    using le_int_bounds [of "rev (le_bytes w)"] by (simp add: le_int_le_bytes le_word_def uint_word_of_int)
  then show ?thesis
    by (intro le_int_inject) simp_all
qed

lemma uint_64_to_8be_bytes: "n \<le> 8 \<Longrightarrow> uint_64_to_8be w n = rev (take n (le_bytes w))"
  by (simp add: uint_64_to_8be_def le_bytes_SWAP64 drop_rev)

lemma uint_64_to_8be_inverse:
  assumes "length block \<le> 8"
  shows "uint_64_to_8be (uint_8be_to_64 block) (length block) = block"
proof -
  have "uint (uint_8be_to_64 block) = le_int (rev block)"
    using uint_8be_to_64_value [OF assms] by (simp flip: uint_nat)
  then have "le_int (take (length block) (le_bytes (uint_8be_to_64 block))) = le_int (rev block)"
    using le_int_bounds [of "rev block"] by (simp add: le_int_take le_int_le_bytes take_bit_int_eq_self)
  then have "take (length block) (le_bytes (uint_8be_to_64 block)) = rev block"
    by (rule le_int_inject [rotated]) (use assms in simp)
  with assms show ?thesis
    by (simp add: uint_64_to_8be_bytes)
qed

lemma uint_8be_to_64_inverse:
  assumes "n \<le> 8" and "unat w < 256 ^ n"
  shows "uint_8be_to_64 (uint_64_to_8be w n) = w"
proof -
  have "int (unat w) < int (256 ^ n)"
    using assms(2) by (simp only: of_nat_less_iff)
  then have "uint w < 2 ^ (8 * n)"
    by (simp add: power_mult)
  then have "le_int (take n (le_bytes w)) = uint w"
    by (simp add: le_int_take le_int_le_bytes take_bit_int_eq_self)
  moreover have "length (uint_64_to_8be w n) \<le> 8"
    by (simp add: uint_64_to_8be_def)
  ultimately show ?thesis
    using uint_8be_to_64_value [of "uint_64_to_8be w n"] assms(1)
    by (simp add: uint_64_to_8be_bytes word_uint_eq_iff)
qed

lemma length_uint_64_to_8be [simp]: "n \<le> 8 \<Longrightarrow> length (uint_64_to_8be w n) = n"
  by (simp add: uint_64_to_8be_def)

lemma uint_8be_to_64_less:
  assumes "length block \<le> 8"
  shows "unat (uint_8be_to_64 block) < 256 ^ length block"
proof -
  have "int (unat (uint_8be_to_64 block)) < int (256 ^ length block)"
    using uint_8be_to_64_value [OF assms] le_int_bounds [of "rev block"] by (simp add: power_mult)
  then show ?thesis
    by (simp only: of_nat_less_iff)
qed

section \<open>Sizes of blocks\<close>

lemma encoded_block_size:
  assumes "n \<le> 8"
  shows "256 ^ n \<le> (58 :: nat) ^ (encoded_block_sizes ! n)" "decoded_block_sizes (encoded_block_sizes ! n) = int n"
    "encoded_block_sizes ! n \<le> 11"
proof -
  have "list_all (\<lambda>n. 256 ^ n \<le> (58 :: nat) ^ (encoded_block_sizes ! n) \<and>
      decoded_block_sizes (encoded_block_sizes ! n) = int n \<and> encoded_block_sizes ! n \<le> 11) [0..<9]"
    by (simp add: upt_rec encoded_block_sizes_def decoded_block_sizes_def decoded_block_sizes_eval)
  then show "256 ^ n \<le> (58 :: nat) ^ (encoded_block_sizes ! n)" "decoded_block_sizes (encoded_block_sizes ! n) = int n"
    "encoded_block_sizes ! n \<le> 11"
    using assms by (auto simp: list_all_iff)
qed

lemma decoded_block_size:
  assumes "m \<le> 11" and "0 \<le> decoded_block_sizes m"
  shows "nat (decoded_block_sizes m) \<le> 8" "encoded_block_sizes ! nat (decoded_block_sizes m) = m"
proof -
  have "list_all (\<lambda>m. 0 \<le> decoded_block_sizes m \<longrightarrow>
      nat (decoded_block_sizes m) \<le> 8 \<and> encoded_block_sizes ! nat (decoded_block_sizes m) = m) [0..<12]"
    by (simp add: upt_rec encoded_block_sizes_def decoded_block_sizes_def decoded_block_sizes_eval)
  then show "nat (decoded_block_sizes m) \<le> 8" "encoded_block_sizes ! nat (decoded_block_sizes m) = m"
    using assms by (auto simp: list_all_iff)
qed

section \<open>A block there and back\<close>

lemma encode_block_digits:
  assumes "length block \<le> 8"
  shows "encode_block block =
    Inr (rev (map ((!) alphabet) (digits58 (encoded_block_sizes ! length block) (unat (uint_8be_to_64 block)))))"
proof -
  have "unat (uint_8be_to_64 block) < 58 ^ (encoded_block_sizes ! length block)"
    using uint_8be_to_64_less [OF assms] encoded_block_size(1) [OF assms] by linarith
  then show ?thesis
    by (simp add: encode_block_def encode_block_loop_digits)
qed

lemma letters_of_digits:
  assumes "list_all (\<lambda>d. d < 58) ds"
  shows "map letter_digit (map ((!) alphabet) ds) = ds"
    and "list_all (\<lambda>c. 0 \<le> reverse_alphabet c) (map ((!) alphabet) ds)"
  using assms by (induction ds) (simp_all add: letter_digit_def reverse_alphabet_alphabet)

lemma digits_of_letters:
  "list_all (\<lambda>c. 0 \<le> reverse_alphabet c) cs \<Longrightarrow> map ((!) alphabet) (map letter_digit cs) = cs"
  by (induction cs) (simp_all add: letter_digit_def alphabet_reverse_alphabet(2))

lemma decode_encode_block:
  assumes "0 < length block" and "length block \<le> 8"
  shows "\<exists>enc. encode_block block = Inr enc \<and> length enc = encoded_block_sizes ! length block \<and> decode_block enc = Some block"
proof -
  define k v where "k = encoded_block_sizes ! length block" and "v = unat (uint_8be_to_64 block)"
  define enc where "enc = rev (map ((!) alphabet) (digits58 k v))"
  note size = encoded_block_size [OF assms(2), folded k_def]
  have v: "v < 256 ^ length block" "v < 58 ^ k"
    using uint_8be_to_64_less [OF assms(2)] size(1) by (simp_all add: v_def)
  have "map letter_digit (rev enc) = digits58 k v" "list_all (\<lambda>c. 0 \<le> reverse_alphabet c) enc"
    using letters_of_digits [OF digits58_less, of k v] by (simp_all add: enc_def)
  then have "decode_block enc = Some (uint_64_to_8be (of_nat v) (length block))"
    using v size assms(1) by (subst decode_block_value) (simp_all add: enc_def value58_digits58 Let_def)
  then show ?thesis
    using encode_block_digits [OF assms(2)] uint_64_to_8be_inverse [OF assms(2)]
    by (simp add: enc_def k_def v_def)
qed

lemma encode_decode_block:
  assumes "length enc \<le> 11" and "decode_block enc = Some block"
  shows "0 < length block" "length block \<le> 8" "length enc = encoded_block_sizes ! length block" "encode_block block = Inr enc"
proof -
  define n v where "n = nat (decoded_block_sizes (length enc))" and "v = value58 (map letter_digit (rev enc))"
  have ok: "0 < n" "0 \<le> decoded_block_sizes (length enc)" "list_all (\<lambda>c. 0 \<le> reverse_alphabet c) (rev enc)" "v < 256 ^ n"
      "block = uint_64_to_8be (of_nat v) n"
    using assms(2) unfolding decode_block_value [OF assms(1)] Let_def n_def v_def by (auto split: if_splits)
  note size = decoded_block_size [OF assms(1) ok(2), folded n_def]
  have "unat (of_nat v :: u64) = v"
    using ok(4) power_increasing [OF size(1), of "256 :: nat"] by (simp add: unat_of_nat)
  then have number: "unat (uint_8be_to_64 block) = v"
    using uint_8be_to_64_inverse [OF size(1), of "of_nat v"] ok by simp
  have len: "length block = n"
    using ok(5) size(1) by simp
  have "digits58 (length enc) v = map letter_digit (rev enc)"
    using digits58_value58 [of "map letter_digit (rev enc)"] by (simp add: v_def list_all_iff letter_digit_less)
  then have "rev (map ((!) alphabet) (digits58 (length enc) v)) = enc"
    using digits_of_letters [OF ok(3)] by simp
  then show "encode_block block = Inr enc"
    using encode_block_digits [of block] len size number by simp
  show "0 < length block" "length block \<le> 8" "length enc = encoded_block_sizes ! length block"
    using ok(1) size len by simp_all
qed

section \<open>Strings as blocks\<close>

lemma blocks_rec:
  assumes "0 < n"
  shows "blocks n xs = (if xs = [] then [] else take n xs # blocks n (drop n xs))"
proof (cases "n \<le> length xs")
  case True
  then have "length xs div n = Suc ((length xs - n) div n)" "length xs mod n = (length xs - n) mod n"
    using assms by (simp_all add: le_div_geq le_mod_geq)
  moreover have "map (\<lambda>i. take n (drop (i * n) xs)) [0..<Suc m] = take n xs # map (\<lambda>i. take n (drop (i * n) (drop n xs))) [0..<m]" for m
    by (simp add: upt_conv_Cons map_Suc_upt [symmetric] o_def add.commute del: upt_Suc)
  ultimately show ?thesis
    using True assms by (auto simp: blocks_def Let_def add.commute simp del: upt_Suc)
next
  case False
  then show ?thesis
    by (auto simp: blocks_def)
qed

lemma blocks_Nil [simp]: "blocks n [] = []"
  by (simp add: blocks_def)

lemma blocks_append:
  assumes "0 < length x" and "length x \<le> n" and "length x = n \<or> xs = []"
  shows "blocks n (x @ xs) = x # blocks n xs"
proof -
  have "0 < n"
    using assms by linarith
  then show ?thesis
    using assms by (subst blocks_rec) (auto simp del: length_greater_0_conv)
qed

lemma decoded_block_size_mod:
  assumes "n \<le> 8" and "0 < n"
  shows "0 < encoded_block_sizes ! n" "encoded_block_sizes ! n = 11 \<longleftrightarrow> n = 8"
    "n < 8 \<Longrightarrow> 0 \<le> decoded_block_sizes (encoded_block_sizes ! n mod 11)"
proof -
  have "list_all (\<lambda>n. 0 < encoded_block_sizes ! n \<and> (encoded_block_sizes ! n = 11 \<longleftrightarrow> n = 8) \<and>
      (n < 8 \<longrightarrow> 0 \<le> decoded_block_sizes (encoded_block_sizes ! n mod 11))) [1..<9]"
    by (simp add: upt_rec encoded_block_sizes_def decoded_block_sizes_def decoded_block_sizes_eval)
  then show "0 < encoded_block_sizes ! n" "encoded_block_sizes ! n = 11 \<longleftrightarrow> n = 8"
    "n < 8 \<Longrightarrow> 0 \<le> decoded_block_sizes (encoded_block_sizes ! n mod 11)"
    using assms by (auto simp: list_all_iff)
qed

lemma decode_encode_blocks:
  "\<exists>enc. encode_blocks (blocks 8 data) = Inr enc \<and> decode_blocks (blocks 11 enc) = Some data \<and>
     (enc = [] \<longleftrightarrow> data = []) \<and> 0 \<le> decoded_block_sizes (length enc mod 11)"
proof (induction data rule: length_induct)
  case (1 data)
  show ?case
  proof (cases "data = []")
    case False
    define d ds where "d = take 8 data" and "ds = drop 8 data"
    have data: "data = d @ ds" "0 < length d" "length d \<le> 8" "length d = 8 \<or> ds = []" "length ds < length data"
      using False by (auto simp: d_def ds_def)
    obtain e where e: "encode_block d = Inr e" "length e = encoded_block_sizes ! length d" "decode_block e = Some d"
      using decode_encode_block [OF data(2,3)] by blast
    obtain es where es: "encode_blocks (blocks 8 ds) = Inr es" "decode_blocks (blocks 11 es) = Some ds"
        "es = [] \<longleftrightarrow> ds = []" "0 \<le> decoded_block_sizes (length es mod 11)"
      using 1 data(5) by blast
    note size = decoded_block_size_mod [OF data(3,2)]
    have len: "0 < length e" "length e \<le> 11" "length e = 11 \<or> es = []"
      using e(2) size es(3) data(4) encoded_block_size(3) [OF data(3)] by auto
    have "0 \<le> decoded_block_sizes (length (e @ es) mod 11)"
      using e(2) size es(3,4) data(3,4) by (cases "length d = 8") auto
    then show ?thesis
      using data e es len by (auto simp: blocks_append)
  qed (simp add: decoded_block_sizes_def decoded_block_sizes_eval)
qed

lemma encode_decode_blocks:
  "decode_blocks (blocks 11 enc) = Some data \<Longrightarrow>
   encode_blocks (blocks 8 data) = Inr enc \<and> (data = [] \<longleftrightarrow> enc = [])"
proof (induction enc arbitrary: data rule: length_induct)
  case (1 enc)
  show ?case
  proof (cases "enc = []")
    case False
    define e es where "e = take 11 enc" and "es = drop 11 enc"
    have enc: "enc = e @ es" "0 < length e" "length e \<le> 11" "length e = 11 \<or> es = []" "length es < length enc"
      using False by (auto simp: e_def es_def)
    obtain d ds where d: "decode_block e = Some d" "decode_blocks (blocks 11 es) = Some ds" "data = d @ ds"
      using 1(2) unfolding enc(1) blocks_append [OF enc(2-4)] by (auto split: option.splits)
    note block = encode_decode_block [OF enc(3) d(1)]
    have rest: "encode_blocks (blocks 8 ds) = Inr es" "ds = [] \<longleftrightarrow> es = []"
      using 1(1) enc(5) d(2) by blast+
    have "length d = 8 \<or> ds = []"
      using enc(4) rest(2) block(3) decoded_block_size_mod(2) [OF block(2,1)] by auto
    then show ?thesis
      using enc(1,2) d(3) block rest by (auto simp: blocks_append)
  qed (use 1 in simp)
qed

lemma full_block_sizes: "full_block_size = 8" "full_encoded_block_size = 11"
  by (simp_all add: full_block_size_def full_encoded_block_size_def encoded_block_sizes_def)

lemma encode_total: "\<exists>enc. encode data = Inr enc \<and> decode enc = Some data"
proof -
  obtain enc where "encode_blocks (blocks 8 data) = Inr enc" "decode_blocks (blocks 11 enc) = Some data"
      "enc = [] \<longleftrightarrow> data = []" "0 \<le> decoded_block_sizes (length enc mod 11)"
    using decode_encode_blocks by blast
  then show ?thesis
    by (intro exI [of _ enc]) (auto simp: encode_def decode_def full_block_sizes)
qed

lemma decode_canonical: "decode enc = Some data \<Longrightarrow> encode data = Inr enc"
  using encode_decode_blocks [of enc data] by (auto simp: encode_def decode_def full_block_sizes split: if_splits)

text \<open>Base 58 keeps the contract of a codec on all byte strings.\<close>

interpretation base58: codec encode decode
  by unfold_locales (auto intro: encode_total decode_canonical)

lemma decode_encode_addr:
  "\<exists>addr. encode_addr tag data = Inr addr \<and> decode_addr addr = Some (tag, data)"
proof -
  define buf where "buf = get_varint_data tag @ data"
  define sum where "sum = take addr_checksum_size (cn_fast_hash buf)"
  obtain addr where addr: "encode (buf @ sum) = Inr addr" "decode addr = Some (buf @ sum)"
    using base58.encoded by blast
  have "length sum = 4" "get_varint_data tag \<noteq> []"
    by (simp_all add: sum_def addr_checksum_size_def get_varint_data_def write_varint.simps)
  then have "decode_addr addr = Some (tag, data)"
    using addr(2) read_varint_get_varint_data [of tag data]
    by (simp add: decode_addr_def addr_checksum_size_def Let_def) (simp add: buf_def sum_def addr_checksum_size_def)
  with addr(1) show ?thesis
    by (simp add: encode_addr_def buf_def sum_def Let_def)
qed

section \<open>Properties\<close>

text \<open>
  C6. Base 58 is a bijection between byte strings and the texts \<open>decode\<close> accepts: \<open>encode\<close>
  never writes outside its buffer, and \<open>decode\<close> returns \<open>data\<close> for exactly one text, the one \<open>encode\<close>
  produces. The overflow checks reject every text that is not the encoding of something.
\<close>

theorem base58_bijection:
  "(\<exists>enc. encode data = Inr enc) \<and> (decode enc' = Some data \<longleftrightarrow> encode data = Inr enc')"
  using base58.encoded [of data] base58.decode_iff [of enc' data] by auto

text \<open>
  \<open>encode_addr\<close> always succeeds and \<open>decode_addr\<close> returns the tag and the data it was given.
\<close>

theorem address_roundtrip:
  "\<exists>addr. encode_addr tag data = Inr addr \<and> decode_addr addr = Some (tag, data)"
  by (rule decode_encode_addr)

text \<open>
  C28. An address cannot be written in a second way: a text that decodes to a tag and a nonempty
  payload is the encoding of that tag and payload, checksum included.
\<close>

theorem address_canonical:
  assumes "decode_addr addr = Some (tag, data)" and "data \<noteq> []"
  shows "encode_addr tag data = Inr addr"
proof -
  obtain buf where buf: "decode addr = Some buf" "4 < length buf"
    using assms(1) by (auto simp: decode_addr_def addr_checksum_size_def split: option.splits if_splits)
  define n payload where "n = length buf - 4" and "payload = take n buf"
  obtain rd rest where rd: "read_varint payload = (rd, tag, rest)" "0 < rd" "data = drop (nat rd) payload"
      and sum: "take 4 (cn_fast_hash payload) = drop n buf"
    using assms(1) buf
    by (auto simp: decode_addr_def addr_checksum_size_def Let_def n_def payload_def split: if_splits prod.splits)
  have "rest = data"
    using read_varint_length [OF rd(1)] rd(2,3) by simp
  then have "payload = get_varint_data tag @ data"
    using read_varint_prefix [OF rd(1,2)] assms(2) by simp
  moreover have "buf = payload @ take 4 (cn_fast_hash payload)"
    using sum append_take_drop_id [of n buf] by (simp add: payload_def)
  ultimately show ?thesis
    using base58.decode_iff buf(1) by (simp add: encode_addr_def addr_checksum_size_def Let_def)
qed

theorem address_canonical_witness:
  "\<exists>addr. decode_addr addr = Some (18, [1, 2, 3]) \<and> encode_addr 18 [1, 2, 3] = Inr addr"
proof -
  obtain addr where "decode_addr addr = Some (18, [1, 2, 3])"
    using decode_encode_addr by blast
  moreover from this have "encode_addr 18 [1, 2, 3] = Inr addr"
    by (rule address_canonical) simp
  ultimately show ?thesis
    by blast
qed

end
