(* ===== verification/Tree_Hash.thy ===== *)
theory Tree_Hash
  imports Keccak
begin

text \<open>
  \<open>crypto/tree-hash.c\<close>: the Merkle root of the transaction hashes of a block, computed level by
  level in one buffer. An array of hashes is a list of 32-byte strings, and an access outside it or a
  failed \<open>assert\<close> is an error. The theorems say that the computation succeeds and returns the root
  of the balanced tree, and that two lists of hashes with one root exhibit a collision of
  \<open>cn_fast_hash\<close> among the strings that were hashed.
\<close>

section \<open>Definitions\<close>

text \<open>The loop \<open>while (pow < count) pow <<= 1\<close>; below \<open>2 ^ 28\<close> the shift loses no bit.\<close>

function tree_hash_pow :: "nat \<Rightarrow> nat \<Rightarrow> nat" where
  "tree_hash_pow pow count = (if 0 < pow \<and> pow < count then tree_hash_pow (pow * 2) count else pow)"
  by pat_completeness auto
termination
  by (relation "measure (\<lambda>(pow, count). count - pow)") auto

declare tree_hash_pow.simps [simp del]

definition tree_hash_cnt :: "nat \<Rightarrow> nat result" where
  "tree_hash_cnt count =
     (if \<not> 3 \<le> count then Inl Assertion_failed
      else if \<not> count \<le> 0x10000000 then Inl Assertion_failed
      else Inr (tree_hash_pow 2 count div 2))"

text \<open>\<open>cn_fast_hash\<close> of the 64 bytes at \<open>src + i * HASH_SIZE\<close>.\<close>

definition hash_pair :: "blob list \<Rightarrow> nat \<Rightarrow> blob result" where
  "hash_pair src i = (if i + 1 < length src then Inr (cn_fast_hash (src ! i @ src ! (i + 1))) else Inl Out_of_range)"

definition put :: "'a list \<Rightarrow> nat \<Rightarrow> 'a \<Rightarrow> 'a list result" where
  "put xs j x = (if j < length xs then Inr (xs[j := x]) else Inl Out_of_range)"

text \<open>The loop that hashes the hashes that do not fit the buffer; it ends with \<open>i\<close> and the buffer.\<close>

function tree_hash_leaves :: "blob list \<Rightarrow> nat \<Rightarrow> nat \<Rightarrow> nat \<Rightarrow> blob list \<Rightarrow> (nat \<times> blob list) result" where
  "tree_hash_leaves hashes cnt i j ints =
     (if j < cnt then
        and_then (hash_pair hashes i) (\<lambda>h. and_then (put ints j h) (tree_hash_leaves hashes cnt (i + 2) (j + 1)))
      else Inr (i, ints))"
  by pat_completeness auto
termination
  by (relation "measure (\<lambda>(hashes, cnt, i, j, ints). cnt - j)") auto

text \<open>One level, in place: it reads \<open>ints\<close> at \<open>i\<close> and writes it at \<open>j\<close>.\<close>

function tree_hash_level :: "nat \<Rightarrow> nat \<Rightarrow> nat \<Rightarrow> blob list \<Rightarrow> blob list result" where
  "tree_hash_level cnt i j ints =
     (if j < cnt then
        and_then (hash_pair ints i) (\<lambda>h. and_then (put ints j h) (tree_hash_level cnt (i + 2) (j + 1)))
      else Inr ints)"
  by pat_completeness auto
termination
  by (relation "measure (\<lambda>(cnt, i, j, ints). cnt - j)") auto

function tree_hash_levels :: "nat \<Rightarrow> blob list \<Rightarrow> blob list result" where
  "tree_hash_levels cnt ints =
     (if 2 < cnt then and_then (tree_hash_level (cnt div 2) 0 0 ints) (tree_hash_levels (cnt div 2)) else Inr ints)"
  by pat_completeness auto
termination
  by (relation "measure fst") auto

declare tree_hash_leaves.simps [simp del]
declare tree_hash_level.simps [simp del]
declare tree_hash_levels.simps [simp del]

definition tree_hash :: "blob list \<Rightarrow> blob result" where
  "tree_hash hashes =
     (let count = length hashes in
      if \<not> 0 < count then Inl Assertion_failed
      else if count = 1 then Inr (hashes ! 0)
      else if count = 2 then hash_pair hashes 0
      else
        and_then (tree_hash_cnt count) (\<lambda>cnt.
        let ints = take (2 * cnt - count) hashes @ replicate (cnt - (2 * cnt - count)) (replicate HASH_SIZE 0) in
        and_then (tree_hash_leaves hashes cnt (2 * cnt - count) (2 * cnt - count) ints) (\<lambda>(i, ints).
        if i \<noteq> count then Inl Assertion_failed
        else and_then (tree_hash_levels cnt ints) (\<lambda>ints. hash_pair ints 0))))"

section \<open>Balanced trees\<close>

text \<open>The root of the balanced tree over \<open>2 ^ k\<close> leaves, and one level of it.\<close>

fun merkle :: "nat \<Rightarrow> blob list \<Rightarrow> blob" where
  "merkle 0 xs = hd xs"
| "merkle (Suc k) xs = cn_fast_hash (merkle k (take (2 ^ k) xs) @ merkle k (drop (2 ^ k) xs))"

fun pairs :: "blob list \<Rightarrow> blob list" where
  "pairs (a # b # xs) = cn_fast_hash (a @ b) # pairs xs"
| "pairs _ = []"

lemma length_pairs [simp]: "length (pairs xs) = length xs div 2"
  by (induction xs rule: pairs.induct) auto

lemma pairs_nth: "2 * k + 1 < length xs \<Longrightarrow> pairs xs ! k = cn_fast_hash (xs ! (2 * k) @ xs ! (2 * k + 1))"
proof (induction xs arbitrary: k rule: pairs.induct)
  case (1 a b xs)
  then show ?case
    by (cases k) auto
qed simp_all

lemma pairs_take: "pairs (take (2 * k) xs) = take k (pairs xs)"
proof (induction xs arbitrary: k rule: pairs.induct)
  case (1 a b xs)
  then show ?case
    by (cases k) auto
qed (simp_all add: take_Cons')

lemma pairs_drop: "pairs (drop (2 * k) xs) = drop k (pairs xs)"
proof (induction xs arbitrary: k rule: pairs.induct)
  case (1 a b xs)
  then show ?case
    by (cases k) auto
qed (simp_all add: drop_Cons')

lemma merkle_pairs: "length xs = 2 ^ Suc k \<Longrightarrow> merkle (Suc k) xs = merkle k (pairs xs)"
proof (induction k arbitrary: xs)
  case 0
  then obtain a b where "xs = [a, b]"
    by (auto simp: length_Suc_conv numeral_2_eq_2)
  then show ?case
    by simp
next
  case (Suc k)
  have "merkle (Suc (Suc k)) xs =
      cn_fast_hash (merkle (Suc k) (take (2 ^ Suc k) xs) @ merkle (Suc k) (drop (2 ^ Suc k) xs))"
    by simp
  also have "merkle (Suc k) (take (2 ^ Suc k) xs) = merkle k (take (2 ^ k) (pairs xs))"
    using Suc.IH [of "take (2 ^ Suc k) xs"] Suc.prems pairs_take [of "2 ^ k" xs] by simp
  also have "merkle (Suc k) (drop (2 ^ Suc k) xs) = merkle k (drop (2 ^ k) (pairs xs))"
    using Suc.IH [of "drop (2 ^ Suc k) xs"] Suc.prems pairs_drop [of "2 ^ k" xs] by simp
  finally show ?case
    by simp
qed

section \<open>The number of leaves\<close>

lemma tree_hash_pow_power:
  assumes "2 ^ k < 2 * count" and "0 < count"
  shows "\<exists>m. tree_hash_pow (2 ^ k) count = 2 ^ m \<and> k \<le> m \<and> count \<le> 2 ^ m \<and> 2 ^ m < 2 * count"
  using assms
proof (induction "count - 2 ^ k" arbitrary: k rule: less_induct)
  case less
  show ?case
  proof (cases "2 ^ k < count")
    case True
    then have step: "tree_hash_pow (2 ^ k) count = tree_hash_pow (2 ^ Suc k) count"
      by (subst tree_hash_pow.simps) (simp add: mult.commute)
    have "count - 2 ^ Suc k < count - 2 ^ k"
      using True by (intro diff_less_mono2) simp_all
    moreover have "2 ^ Suc k < 2 * count"
      using True by simp
    ultimately obtain m where "tree_hash_pow (2 ^ Suc k) count = 2 ^ m \<and> Suc k \<le> m \<and> count \<le> 2 ^ m \<and> 2 ^ m < 2 * count"
      using less.hyps [of "Suc k"] less.prems(2) by blast
    with step show ?thesis
      by (intro exI [of _ m]) simp
  next
    case False
    then show ?thesis
      using less.prems by (intro exI [of _ k]) (simp add: tree_hash_pow.simps)
  qed
qed

lemma tree_hash_cnt_power:
  assumes "3 \<le> count" and "count \<le> 0x10000000"
  shows "\<exists>m. tree_hash_cnt count = Inr (2 ^ Suc m) \<and> 2 ^ Suc m < count \<and> count \<le> 2 * 2 ^ Suc m"
proof -
  obtain m where m: "tree_hash_pow 2 count = 2 ^ m" "count \<le> 2 ^ m" "2 ^ m < 2 * count"
    using tree_hash_pow_power [of 1 count] assms by auto
  have "2 \<le> m"
  proof (rule ccontr)
    assume "\<not> 2 \<le> m"
    then have "m = 0 \<or> m = 1"
      by auto
    with m(2) assms(1) show False
      by auto
  qed
  then obtain k where "m = Suc (Suc k)"
    by (metis add_2_eq_Suc le_Suc_ex)
  with m assms show ?thesis
    by (intro exI [of _ k]) (simp add: tree_hash_cnt_def)
qed

section \<open>The loops\<close>

lemma put_level: "j < length ps \<Longrightarrow> j < length xs \<Longrightarrow> put (take j ps @ drop j xs) j (ps ! j) = Inr (take (Suc j) ps @ drop (Suc j) xs)"
  by (simp add: put_def list_update_append take_Suc_conv_app_nth Cons_nth_drop_Suc [symmetric])

lemma tree_hash_level_pairs_from:
  assumes "2 * cnt \<le> length xs" and "j \<le> cnt"
  shows "tree_hash_level cnt (2 * j) j (take j (pairs xs) @ drop j xs) = Inr (take cnt (pairs xs) @ drop cnt xs)"
  using assms(2)
proof (induction "cnt - j" arbitrary: j)
  case 0
  then show ?case
    by (simp add: tree_hash_level.simps)
next
  case (Suc d)
  then have j: "j < cnt"
    by simp
  let ?ints = "take j (pairs xs) @ drop j xs"
  have "length ?ints = length xs"
    using j assms(1) by simp
  then have "hash_pair ?ints (2 * j) = Inr (pairs xs ! j)"
    using j assms(1) by (simp add: hash_pair_def pairs_nth nth_append mult_2)
  moreover have "put ?ints j (pairs xs ! j) = Inr (take (Suc j) (pairs xs) @ drop (Suc j) xs)"
    by (rule put_level) (use j assms(1) in simp_all)
  ultimately have "tree_hash_level cnt (2 * j) j ?ints = tree_hash_level cnt (2 * Suc j) (Suc j) (take (Suc j) (pairs xs) @ drop (Suc j) xs)"
    using j by (subst tree_hash_level.simps) simp
  then show ?case
    using Suc.hyps(1) [of "Suc j"] Suc.hyps(2) j by simp
qed

lemma tree_hash_level_pairs:
  "2 * cnt \<le> length xs \<Longrightarrow> tree_hash_level cnt 0 0 xs = Inr (take cnt (pairs xs) @ drop cnt xs)"
  using tree_hash_level_pairs_from [of cnt xs 0] by simp

lemma tree_hash_leaves_pairs:
  assumes "j \<le> cnt" and "length ints = cnt" and "length hashes = i + 2 * (cnt - j)"
  shows "tree_hash_leaves hashes cnt i j ints = Inr (length hashes, take j ints @ pairs (drop i hashes))"
  using assms
proof (induction "cnt - j" arbitrary: i j ints)
  case 0
  then show ?case
    by (simp add: tree_hash_leaves.simps)
next
  case (Suc d)
  then have j: "j < cnt" and i: "i + 1 < length hashes"
    by simp_all
  let ?h = "cn_fast_hash (hashes ! i @ hashes ! (i + 1))"
  have drop: "drop i hashes = hashes ! i # hashes ! (i + 1) # drop (i + 2) hashes"
    using i by (simp add: Cons_nth_drop_Suc)
  have take: "take (j + 1) (ints[j := ?h]) = take j ints @ [?h]"
    using j Suc.prems(2) by (simp add: take_Suc_conv_app_nth)
  have "tree_hash_leaves hashes cnt i j ints = tree_hash_leaves hashes cnt (i + 2) (j + 1) (ints[j := ?h])"
    using i j Suc.prems(2) by (subst tree_hash_leaves.simps) (simp add: hash_pair_def put_def)
  also have "\<dots> = Inr (length hashes, take (j + 1) (ints[j := ?h]) @ pairs (drop (i + 2) hashes))"
    by (rule Suc.hyps(1)) (use Suc in auto)
  finally show ?case
    by (simp only: take drop pairs.simps append.assoc append.simps)
qed

lemma tree_hash_levels_merkle:
  assumes "2 ^ Suc k \<le> length xs"
  shows "and_then (tree_hash_levels (2 ^ Suc k) xs) (\<lambda>ints. hash_pair ints 0) = Inr (merkle (Suc k) (take (2 ^ Suc k) xs))"
  using assms
proof (induction k arbitrary: xs)
  case 0
  then obtain a b r where "xs = a # b # r"
    by (auto simp: Suc_le_length_iff numeral_2_eq_2)
  then show ?case
    by (simp add: tree_hash_levels.simps hash_pair_def)
next
  case (Suc k)
  let ?ys = "take (2 ^ Suc k) (pairs xs) @ drop (2 ^ Suc k) xs"
  have "1 \<le> (2 :: nat) ^ k"
    by simp
  then have "Suc 0 < 2 * 2 ^ k"
    by linarith
  then have "tree_hash_levels (2 ^ Suc (Suc k)) xs = tree_hash_levels (2 ^ Suc k) ?ys"
    using Suc.prems by (subst tree_hash_levels.simps) (simp add: tree_hash_level_pairs)
  moreover have "take (2 ^ Suc k) ?ys = pairs (take (2 ^ Suc (Suc k)) xs)"
    using pairs_take [of "2 ^ Suc k" xs] Suc.prems by simp
  moreover have "merkle (Suc k) (pairs (take (2 ^ Suc (Suc k)) xs)) = merkle (Suc (Suc k)) (take (2 ^ Suc (Suc k)) xs)"
    by (rule merkle_pairs [symmetric]) (use Suc.prems in simp)
  ultimately show ?case
    using Suc.IH [of ?ys] Suc.prems by simp
qed

text \<open>The leaves of the balanced tree: the first hashes as they are, the others in pairs.\<close>

definition leaves :: "nat \<Rightarrow> blob list \<Rightarrow> blob list" where
  "leaves cnt hashes = take (2 * cnt - length hashes) hashes @ pairs (drop (2 * cnt - length hashes) hashes)"

lemma tree_hash_root:
  assumes "3 \<le> length hashes" and "length hashes \<le> 0x10000000"
  shows "\<exists>m. tree_hash_cnt (length hashes) = Inr (2 ^ m) \<and> 2 ^ m < length hashes \<and> length hashes \<le> 2 * 2 ^ m \<and>
    tree_hash hashes = Inr (merkle m (leaves (2 ^ m) hashes))"
proof -
  obtain k where k: "tree_hash_cnt (length hashes) = Inr (2 ^ Suc k)" "2 ^ Suc k < length hashes" "length hashes \<le> 2 * 2 ^ Suc k"
    using tree_hash_cnt_power [OF assms] by blast
  define cnt spare where "cnt = (2 :: nat) ^ Suc k" and "spare = 2 * cnt - length hashes"
  note cnt = k [folded cnt_def]
  have "tree_hash_leaves hashes cnt spare spare (take spare hashes @ replicate (cnt - spare) (replicate HASH_SIZE 0)) =
      Inr (length hashes, leaves cnt hashes)"
    by (subst tree_hash_leaves_pairs) (use cnt in \<open>auto simp: leaves_def spare_def\<close>)
  moreover have "take cnt (leaves cnt hashes) = leaves cnt hashes" "cnt \<le> length (leaves cnt hashes)"
    using cnt by (auto simp: leaves_def)
  then have "and_then (tree_hash_levels cnt (leaves cnt hashes)) (\<lambda>ints. hash_pair ints 0) = Inr (merkle (Suc k) (leaves cnt hashes))"
    using tree_hash_levels_merkle [of k "leaves cnt hashes"] unfolding cnt_def by simp
  moreover have "hashes \<noteq> []"
    using assms(1) by auto
  ultimately have "tree_hash hashes = Inr (merkle (Suc k) (leaves cnt hashes))"
    using assms(1) cnt(1) by (simp add: tree_hash_def Let_def flip: spare_def)
  then show ?thesis
    using k unfolding cnt_def by blast
qed

section \<open>Binding\<close>

text \<open>
  The strings that are hashed, in the order of the code: the pairs of a level, the levels of the
  balanced tree up to its root, and all of a block, where the hashes that do not fit the
  buffer come first.
\<close>

fun pair_inputs :: "blob list \<Rightarrow> blob list" where
  "pair_inputs (a # b # xs) = (a @ b) # pair_inputs xs"
| "pair_inputs _ = []"

function level_inputs :: "blob list \<Rightarrow> blob list" where
  "level_inputs xs = (if length xs \<le> 1 then [] else pair_inputs xs @ level_inputs (pairs xs))"
  by pat_completeness auto
termination
  by (relation "measure length") auto

declare level_inputs.simps [simp del]

definition hashed_inputs :: "blob list \<Rightarrow> blob list" where
  "hashed_inputs hashes =
     (case tree_hash_cnt (length hashes) of
        Inl _ \<Rightarrow> pair_inputs hashes
      | Inr cnt \<Rightarrow> pair_inputs (drop (2 * cnt - length hashes) hashes) @ level_inputs (leaves cnt hashes))"

lemma pairs_inputs: "pairs xs = map cn_fast_hash (pair_inputs xs)"
  by (induction xs rule: pairs.induct) simp_all

text \<open>Two sequences of hashed strings that differ at a position, with one hash there.\<close>

definition collides :: "blob list \<Rightarrow> blob list \<Rightarrow> bool" where
  "collides us vs \<longleftrightarrow> (\<exists>(a, b) \<in> set (zip us vs). a \<noteq> b \<and> cn_fast_hash a = cn_fast_hash b)"

lemma collides_append: "length us = length vs \<Longrightarrow> collides (us @ us') (vs @ vs') \<longleftrightarrow> collides us vs \<or> collides us' vs'"
  by (auto simp: collides_def)

lemma same_hashes: "map cn_fast_hash us = map cn_fast_hash vs \<Longrightarrow> us = vs \<or> collides us vs"
  by (induction us vs rule: list_induct2') (auto simp: collides_def)

definition hashes_ok :: "blob list \<Rightarrow> bool" where
  "hashes_ok xs = list_all (\<lambda>h. length h = HASH_SIZE) xs"

lemma hashes_ok_take_drop: "hashes_ok xs \<Longrightarrow> hashes_ok (take n xs) \<and> hashes_ok (drop n xs)"
  unfolding hashes_ok_def list_all_iff by (meson in_set_dropD in_set_takeD)

lemma hashes_ok_pairs: "hashes_ok (pairs xs)"
  by (induction xs rule: pairs.induct) (simp_all add: hashes_ok_def HASH_SIZE_def)

lemma length_pair_inputs: "length (pair_inputs xs) = length xs div 2"
  by (induction xs rule: pair_inputs.induct) simp_all

lemma pair_inputs_inject:
  "length xs = length ys \<Longrightarrow> even (length xs) \<Longrightarrow> hashes_ok xs \<Longrightarrow> hashes_ok ys \<Longrightarrow> pair_inputs xs = pair_inputs ys \<Longrightarrow> xs = ys"
proof (induction xs arbitrary: ys rule: pair_inputs.induct)
  case (1 a b xs)
  then obtain c d zs where ys: "ys = c # d # zs"
    by (metis Suc_length_conv)
  then show ?case
    using 1 by (auto simp: hashes_ok_def)
qed auto

lemma pairs_binding:
  assumes "length xs = length ys" "even (length xs)" "hashes_ok xs" "hashes_ok ys" "pairs xs = pairs ys"
  shows "xs = ys \<or> collides (pair_inputs xs) (pair_inputs ys)"
  using same_hashes [of "pair_inputs xs" "pair_inputs ys"] pair_inputs_inject [OF assms(1-4)] assms(5)
  by (auto simp: pairs_inputs)

lemma merkle_binding:
  assumes "length xs = 2 ^ k" and "length ys = 2 ^ k" and "hashes_ok xs" and "hashes_ok ys" and "merkle k xs = merkle k ys"
  shows "xs = ys \<or> collides (level_inputs xs) (level_inputs ys)"
  using assms
proof (induction k arbitrary: xs ys)
  case 0
  then show ?case
    by (auto simp: length_Suc_conv)
next
  case (Suc k)
  have "merkle k (pairs xs) = merkle k (pairs ys)"
    using Suc.prems(1,2,5) by (simp add: merkle_pairs del: merkle.simps)
  then have "pairs xs = pairs ys \<or> collides (level_inputs (pairs xs)) (level_inputs (pairs ys))"
    using Suc.prems(1,2) by (intro Suc.IH) (simp_all add: hashes_ok_pairs)
  moreover have "1 < length xs" "1 < length ys"
    using Suc.prems(1,2) one_less_power [of "2 :: nat" "Suc k"] by simp_all
  ultimately show ?case
    using pairs_binding [of xs ys] Suc.prems(1-4)
    by (auto simp: collides_append length_pair_inputs level_inputs.simps [of xs] level_inputs.simps [of ys])
qed

lemma leaves_binding:
  assumes "length xs = length ys" and "length xs \<le> 2 * cnt" and "cnt < length xs" and "hashes_ok xs" and "hashes_ok ys"
    and "leaves cnt xs = leaves cnt ys"
  shows "xs = ys \<or> collides (pair_inputs (drop (2 * cnt - length xs) xs)) (pair_inputs (drop (2 * cnt - length ys) ys))"
proof -
  define spare where "spare = 2 * cnt - length xs"
  have eq: "take spare xs = take spare ys" "pairs (drop spare xs) = pairs (drop spare ys)"
    using assms by (simp_all add: leaves_def spare_def)
  have "length xs - spare = 2 * (length xs - cnt)"
    using assms(2,3) by (simp add: spare_def)
  then have "drop spare xs = drop spare ys \<or> collides (pair_inputs (drop spare xs)) (pair_inputs (drop spare ys))"
    using assms eq(2) hashes_ok_take_drop [of xs spare] hashes_ok_take_drop [of ys spare]
    by (intro pairs_binding) simp_all
  with eq(1) show ?thesis
    using assms(1) by (metis append_take_drop_id spare_def)
qed

lemma tree_hash_too_long: "0x10000000 < length hashes \<Longrightarrow> tree_hash hashes = Inl Assertion_failed"
proof -
  assume long: "0x10000000 < length hashes"
  then have "tree_hash_cnt (length hashes) = Inl Assertion_failed"
    by (simp add: tree_hash_cnt_def)
  moreover have "hashes \<noteq> []" "length hashes \<noteq> 1" "length hashes \<noteq> 2"
    using long by auto
  ultimately show ?thesis
    by (simp add: tree_hash_def Let_def)
qed

lemma tree_hash_two: "tree_hash [a, b] = Inr (cn_fast_hash (a @ b))"
  by (simp add: tree_hash_def hash_pair_def)

section \<open>Properties\<close>

text \<open>
  C8. For every block of three to \<open>2 ^ 28\<close> hashes the in-place computation succeeds, with no access
  outside its buffers and no failing assertion. It returns the root of the balanced tree with \<open>2 ^ m\<close> leaves, the
  largest power of two below the number of hashes; the first hashes are leaves and the others
  are hashed in pairs.
\<close>

theorem tree_hash_merkle:
  assumes "3 \<le> length hashes" and "length hashes \<le> 0x10000000"
  shows "\<exists>m. tree_hash_cnt (length hashes) = Inr (2 ^ m) \<and> 2 ^ m < length hashes \<and> length hashes \<le> 2 * 2 ^ m \<and>
    tree_hash hashes = Inr (merkle m (leaves (2 ^ m) hashes))"
  using assms by (rule tree_hash_root)

theorem tree_hash_merkle_witness:
  "\<exists>m. tree_hash_cnt 5 = Inr (2 ^ m) \<and> (2 :: nat) ^ m < 5 \<and> 5 \<le> (2 :: nat) * 2 ^ m \<and>
     tree_hash (map (replicate 32) [1, 2, 3, 4, 5]) = Inr (merkle m (leaves (2 ^ m) (map (replicate 32) [1, 2, 3, 4, 5])))"
proof -
  have "length (map (replicate 32) [1, 2, 3, 4, 5 :: byte]) = 5"
    by simp
  from tree_hash_merkle [of "map (replicate 32) [1, 2, 3, 4, 5]", unfolded this] show ?thesis
    by simp
qed

text \<open>
  C12. The root binds the hashes: when two equally long lists of 32-byte hashes have the same root,
  they are equal, or the strings that the two computations hash differ at some position
  where \<open>cn_fast_hash\<close> is the same. So an attacker who exchanges a transaction under a given root has
  found a collision among the strings that were hashed.
\<close>

theorem tree_hash_binding:
  assumes "tree_hash xs = Inr root" and "tree_hash ys = Inr root" and "length xs = length ys"
    and "hashes_ok xs" and "hashes_ok ys"
  shows "xs = ys \<or> collides (hashed_inputs xs) (hashed_inputs ys)"
proof -
  consider "length xs = 0" | "length xs = 1" | "length xs = 2" | "3 \<le> length xs" "length xs \<le> 0x10000000" | "0x10000000 < length xs"
    by linarith
  then show ?thesis
  proof cases
    case 2
    then show ?thesis
      using assms by (auto simp: tree_hash_def length_Suc_conv)
  next
    case 3
    then have "pairs xs = pairs ys" "hashed_inputs xs = pair_inputs xs" "hashed_inputs ys = pair_inputs ys"
      using assms by (auto simp: numeral_2_eq_2 length_Suc_conv tree_hash_two hashed_inputs_def tree_hash_cnt_def)
    then show ?thesis
      using pairs_binding [of xs ys] 3 assms(3-5) by simp
  next
    case 4
    obtain m where m: "tree_hash_cnt (length xs) = Inr (2 ^ m)" "2 ^ m < length xs" "length xs \<le> 2 * 2 ^ m"
        "tree_hash xs = Inr (merkle m (leaves (2 ^ m) xs))"
      using tree_hash_root [OF 4] by blast
    then have "tree_hash ys = Inr (merkle m (leaves (2 ^ m) ys))"
      using tree_hash_root [of ys] 4 assms(3) by auto
    then have roots: "merkle m (leaves (2 ^ m) xs) = merkle m (leaves (2 ^ m) ys)"
      using assms(1,2) m(4) by simp
    have ok: "hashes_ok (leaves (2 ^ m) zs)" if "hashes_ok zs" for zs
      using that hashes_ok_take_drop [OF that] hashes_ok_pairs by (simp add: leaves_def hashes_ok_def)
    have len: "length (leaves (2 ^ m) zs) = 2 ^ m" if "length zs = length xs" for zs
      using that m(2,3) by (simp add: leaves_def)
    have inputs: "hashed_inputs zs = pair_inputs (drop (2 * 2 ^ m - length zs) zs) @ level_inputs (leaves (2 ^ m) zs)"
      if "length zs = length xs" for zs
      using that m(1) by (simp add: hashed_inputs_def)
    have "leaves (2 ^ m) xs = leaves (2 ^ m) ys \<or>
        collides (level_inputs (leaves (2 ^ m) xs)) (level_inputs (leaves (2 ^ m) ys))"
      using assms(3-5) roots by (intro merkle_binding) (simp_all add: len ok)
    then show ?thesis
      using leaves_binding [OF assms(3) m(3,2) assms(4,5)] assms(3)
      by (auto simp: inputs collides_append length_pair_inputs)
  qed (use assms tree_hash_too_long in simp_all)
qed

theorem tree_hash_binding_witness:
  "tree_hash [replicate 32 1, replicate 32 2] = Inr (cn_fast_hash (replicate 32 1 @ replicate 32 2)) \<and>
   ([replicate 32 1, replicate 32 2] = [replicate 32 1, replicate 32 (2 :: byte)] \<or>
    collides (hashed_inputs [replicate 32 1, replicate 32 2]) (hashed_inputs [replicate 32 1, replicate 32 2]))"
  using tree_hash_binding [OF tree_hash_two tree_hash_two, of "replicate 32 1" "replicate 32 2"]
  by (simp add: tree_hash_two hashes_ok_def HASH_SIZE_def)

end
