(* ===== verification/HardFork.thy ===== *)
theory HardFork
  imports Gyro_Prelude
begin

text \<open>
  Protocol upgrades by vote, \<open>cryptonote_basic/hardfork.cpp\<close>. A table of forks (version,
  height, threshold, time) is filled by \<open>add_fork\<close>; every block carries a vote, the votes
  of the last \<open>window_size\<close> blocks are kept with a count per version, and the current
  fork is the last one of the table that its height and its votes have activated.

  The object is a record and each method a function on it. The database behind it is the
  part the methods use: the blocks (their two version bytes) and the table of the version
  that was in force at each height (\<open>BlockchainLMDB::set_hard_fork_version\<close>). An access
  outside a vector, a failed assertion and an exception are values of \<open>result\<close>.
\<close>

section \<open>State\<close>

record hardfork_t =
  fork_version :: u8
  fork_height :: u64
  fork_threshold :: u8
  fork_time :: int

record block_versions =
  major_version :: u8
  minor_version :: u8

record blockchain_db =
  db_blocks :: "block_versions list"
  hf_versions :: "u64 \<Rightarrow> u8 option"

definition db_height :: "blockchain_db \<Rightarrow> u64" where
  "db_height db = of_nat (length (db_blocks db))"

definition get_block_from_height :: "blockchain_db \<Rightarrow> u64 \<Rightarrow> block_versions result" where
  "get_block_from_height db h =
     (if unat h < length (db_blocks db) then Inr (db_blocks db ! unat h) else Inl Block_does_not_exist)"

definition set_hard_fork_version :: "blockchain_db \<Rightarrow> u64 \<Rightarrow> u8 \<Rightarrow> blockchain_db" where
  "set_hard_fork_version db h v = db\<lparr>hf_versions := (hf_versions db)(h \<mapsto> v)\<rparr>"

definition get_hard_fork_version :: "blockchain_db \<Rightarrow> u64 \<Rightarrow> u8 result" where
  "get_hard_fork_version db h = (case hf_versions db h of None \<Rightarrow> Inl Db_error | Some v \<Rightarrow> Inr v)"

record hardfork =
  forked_time :: int
  update_time :: int
  window_size :: u64
  default_threshold_percent :: u8
  original_version :: u8
  original_version_till_height :: u64
  heights :: "hardfork_t list"
  versions :: "u8 list"
  last_versions :: "u8 \<Rightarrow> u32"
  current_fork_index :: nat

datatype fork_state = LikelyForked | UpdateNeeded | Ready

text \<open>The states in the order of their \<open>enum\<close>, from the worst on.\<close>

fun fork_state_rank :: "fork_state \<Rightarrow> nat" where
  "fork_state_rank LikelyForked = 0"
| "fork_state_rank UpdateNeeded = 1"
| "fork_state_rank Ready = 2"

instantiation fork_state :: linorder
begin

definition less_eq_fork_state :: "fork_state \<Rightarrow> fork_state \<Rightarrow> bool" where
  "less_eq_fork_state s t \<longleftrightarrow> fork_state_rank s \<le> fork_state_rank t"

definition less_fork_state :: "fork_state \<Rightarrow> fork_state \<Rightarrow> bool" where
  "less_fork_state s t \<longleftrightarrow> fork_state_rank s < fork_state_rank t"

instance
proof
  show "s = t" if "s \<le> t" and "t \<le> s" for s t :: fork_state
    using that by (cases s; cases t) (simp_all add: less_eq_fork_state_def)
qed (auto simp: less_eq_fork_state_def less_fork_state_def)

end

definition DEFAULT_FORKED_TIME :: int where
  "DEFAULT_FORKED_TIME = 31557600"

definition DEFAULT_UPDATE_TIME :: int where
  "DEFAULT_UPDATE_TIME = 15778800"

definition DEFAULT_WINDOW_SIZE :: u64 where
  "DEFAULT_WINDOW_SIZE = 10080"

definition DEFAULT_THRESHOLD_PERCENT :: u8 where
  "DEFAULT_THRESHOLD_PERCENT = 80"

section \<open>Operations\<close>

definition get_block_vote :: "block_versions \<Rightarrow> u8" where
  "get_block_vote b = (if minor_version b = 0 then 1 else minor_version b)"

definition get_block_version :: "block_versions \<Rightarrow> u8" where
  "get_block_version b = major_version b"

text \<open>
  The constructor. It leaves the counts uninitialised; \<open>init\<close>, which every caller runs
  before anything else, sets them.
\<close>

definition new_hardfork ::
  "u8 \<Rightarrow> u64 \<Rightarrow> int \<Rightarrow> int \<Rightarrow> u64 \<Rightarrow> u8 \<Rightarrow> (u8 \<Rightarrow> u32) \<Rightarrow> hardfork result" where
  "new_hardfork ver till ftime utime wsize percent garbage =
     (if wsize = 0 then Inl Runtime_error
      else if percent > 100 then Inl Runtime_error
      else Inr \<lparr>forked_time = ftime, update_time = utime, window_size = wsize,
             default_threshold_percent = percent, original_version = ver,
             original_version_till_height = till, heights = [], versions = [],
             last_versions = garbage, current_fork_index = 0\<rparr>)"

definition add_fork :: "hardfork \<Rightarrow> u8 \<Rightarrow> u64 \<Rightarrow> u8 \<Rightarrow> int \<Rightarrow> bool \<times> hardfork" where
  "add_fork hf ver ht thr tm =
     (if ver = 0 then (False, hf)
      else if heights hf \<noteq> [] \<and> ver \<le> fork_version (last (heights hf)) then (False, hf)
      else if heights hf \<noteq> [] \<and> ht \<le> fork_height (last (heights hf)) then (False, hf)
      else if heights hf \<noteq> [] \<and> tm \<le> fork_time (last (heights hf)) then (False, hf)
      else if thr > 100 then (False, hf)
      else (True, hf\<lparr>heights := heights hf @
              [\<lparr>fork_version = ver, fork_height = ht, fork_threshold = thr, fork_time = tm\<rparr>]\<rparr>))"

definition add_fork_default :: "hardfork \<Rightarrow> u8 \<Rightarrow> u64 \<Rightarrow> int \<Rightarrow> bool \<times> hardfork" where
  "add_fork_default hf ver ht tm = add_fork hf ver ht (default_threshold_percent hf) tm"

definition get_effective_version :: "hardfork \<Rightarrow> u8 \<Rightarrow> u8" where
  "get_effective_version hf voting_version =
     (if heights hf \<noteq> [] then
        (let max_version = fork_version (last (heights hf)) in
         if voting_version > max_version then max_version else voting_version)
      else voting_version)"

text \<open>
  \<open>get_voted_fork_index\<close>: the loop runs from the last fork to the first; \<open>n\<close> is the
  number of forks not looked at yet.
\<close>

fun voted_fork_loop :: "hardfork \<Rightarrow> u64 \<Rightarrow> nat \<Rightarrow> u32 \<Rightarrow> nat" where
  "voted_fork_loop hf ht 0 accumulated_votes = current_fork_index hf"
| "voted_fork_loop hf ht (Suc n) accumulated_votes =
     (let f = heights hf ! n;
          accumulated_votes = accumulated_votes + last_versions hf (fork_version f);
          threshold = ucast ((window_size hf * ucast (fork_threshold f) + 99) div 100) :: u32 in
      if ht \<ge> fork_height f \<and> accumulated_votes \<ge> threshold then n
      else voted_fork_loop hf ht n accumulated_votes)"

definition get_voted_fork_index :: "hardfork \<Rightarrow> u64 \<Rightarrow> nat" where
  "get_voted_fork_index hf ht = voted_fork_loop hf ht (length (heights hf)) 0"

definition do_check :: "hardfork \<Rightarrow> u8 \<Rightarrow> u8 \<Rightarrow> bool result" where
  "do_check hf block_version voting_version =
     and_then (at (heights hf) (current_fork_index hf)) (\<lambda>f.
       Inr (block_version = fork_version f \<and> voting_version \<ge> fork_version f))"

definition check :: "hardfork \<Rightarrow> block_versions \<Rightarrow> bool result" where
  "check hf b = do_check hf (get_block_version b) (get_block_vote b)"

definition do_check_for_height :: "hardfork \<Rightarrow> u8 \<Rightarrow> u8 \<Rightarrow> u64 \<Rightarrow> bool result" where
  "do_check_for_height hf block_version voting_version ht =
     and_then (at (heights hf) (get_voted_fork_index hf ht)) (\<lambda>f.
       Inr (block_version = fork_version f \<and> voting_version \<ge> fork_version f))"

definition check_for_height :: "hardfork \<Rightarrow> block_versions \<Rightarrow> u64 \<Rightarrow> bool result" where
  "check_for_height hf b ht = do_check_for_height hf (get_block_version b) (get_block_vote b) ht"

text \<open>\<open>last_versions[v]++; versions.push_back(v)\<close>\<close>

definition push_version :: "u8 \<Rightarrow> hardfork \<Rightarrow> hardfork" where
  "push_version v hf =
     hf\<lparr>versions := versions hf @ [v], last_versions := (last_versions hf)(v := last_versions hf v + 1)\<rparr>"

text \<open>\<open>versions.clear()\<close> and the loop that zeroes the counts.\<close>

definition clear_versions :: "hardfork \<Rightarrow> hardfork" where
  "clear_versions hf = hf\<lparr>versions := [], last_versions := (\<lambda>_. 0)\<rparr>"

text \<open>\<open>uint8_t voted = get_voted_fork_index(height); if (voted > current_fork_index) ...\<close>\<close>

definition advance_fork :: "u64 \<Rightarrow> hardfork \<Rightarrow> hardfork" where
  "advance_fork ht hf =
     (let voted = get_voted_fork_index hf ht mod 256 in
      if voted > current_fork_index hf then hf\<lparr>current_fork_index := voted\<rparr> else hf)"

text \<open>The loop of \<open>add\<close> that drops votes from the front while the window is full.\<close>

fun trim_window :: "u64 \<Rightarrow> u8 list \<Rightarrow> (u8 \<Rightarrow> u32) \<Rightarrow> (u8 list \<times> (u8 \<Rightarrow> u32)) result" where
  "trim_window w [] lv = (if w \<le> 0 then Inl Out_of_range else Inr ([], lv))"
| "trim_window w (v # vs) lv =
     (if w \<le> of_nat (length (v # vs)) then
        (if lv v \<ge> 1 then trim_window w vs (lv(v := lv v - 1)) else Inl Assertion_failed)
      else Inr (v # vs, lv))"

definition hf_add :: "hardfork \<Rightarrow> blockchain_db \<Rightarrow> u8 \<Rightarrow> u8 \<Rightarrow> u64 \<Rightarrow> (bool \<times> hardfork \<times> blockchain_db) result" where
  "hf_add hf db block_version voting_version ht =
     and_then (do_check hf block_version voting_version) (\<lambda>ok.
     if \<not> ok then Inr (False, hf, db)
     else
       and_then (at (heights hf) (current_fork_index hf)) (\<lambda>f.
       let db = set_hard_fork_version db ht (fork_version f);
           voting_version = get_effective_version hf voting_version in
       and_then (trim_window (window_size hf) (versions hf) (last_versions hf)) (\<lambda>(vs, lv).
       let hf = push_version voting_version (hf\<lparr>versions := vs, last_versions := lv\<rparr>) in
       Inr (True, advance_fork (ht + 1) hf, db))))"

definition hf_add_block :: "hardfork \<Rightarrow> blockchain_db \<Rightarrow> block_versions \<Rightarrow> u64 \<Rightarrow> (bool \<times> hardfork \<times> blockchain_db) result" where
  "hf_add_block hf db b ht = hf_add hf db (get_block_version b) (get_block_vote b) ht"

text \<open>
  The loops that read the votes of the blocks at some heights: \<open>get_block_from_height(h)\<close>,
  its effective vote counted and appended.
\<close>

fun push_blocks :: "blockchain_db \<Rightarrow> nat list \<Rightarrow> hardfork \<Rightarrow> hardfork result" where
  "push_blocks db [] hf = Inr hf"
| "push_blocks db (h # hs) hf =
     and_then (get_block_from_height db (of_nat h)) (\<lambda>b.
       push_blocks db hs (push_version (get_effective_version hf (get_block_vote b)) hf))"

text \<open>The search for the fork of version \<open>lastv\<close>: \<open>n\<close> forks are left from index \<open>i\<close> on.\<close>

fun find_fork :: "hardfork_t list \<Rightarrow> u8 \<Rightarrow> nat \<Rightarrow> nat" where
  "find_fork [] lastv i = i"
| "find_fork [f] lastv i = i"
| "find_fork (f # f' # fs) lastv i = (if fork_version f \<noteq> lastv then find_fork (f' # fs) lastv (i + 1) else i)"

definition rescan_from_block_height :: "hardfork \<Rightarrow> blockchain_db \<Rightarrow> u64 \<Rightarrow> (bool \<times> hardfork) result" where
  "rescan_from_block_height hf db ht =
     (if ht \<ge> db_height db then Inr (False, hf)
      else
        and_then (push_blocks db [unat ht..<unat (db_height db)] (clear_versions hf)) (\<lambda>hf.
        and_then (get_hard_fork_version db (db_height db - 1)) (\<lambda>lastv.
        Inr (True, advance_fork (db_height db)
          (hf\<lparr>current_fork_index := find_fork (heights hf) lastv 0\<rparr>)))))"

definition rescan_from_chain_height :: "hardfork \<Rightarrow> blockchain_db \<Rightarrow> u64 \<Rightarrow> (bool \<times> hardfork) result" where
  "rescan_from_chain_height hf db ht =
     (if ht = 0 then Inr (False, hf) else rescan_from_block_height hf db (ht - 1))"

definition hf_init :: "hardfork \<Rightarrow> blockchain_db \<Rightarrow> hardfork result" where
  "hf_init hf db =
     (let hf = (if heights hf = [] then
            hf\<lparr>heights := [\<lparr>fork_version = original_version hf, fork_height = 0, fork_threshold = 0, fork_time = 0\<rparr>]\<rparr>
          else hf);
          hf = (clear_versions hf)\<lparr>current_fork_index := 0\<rparr>;
          ht = db_height db;
          ht = (if ht > window_size hf then ht - (window_size hf - 1) else 1) in
      and_then (rescan_from_chain_height hf db ht) (\<lambda>(ok, hf). Inr hf))"

text \<open>The private \<open>get_block_version(height)\<close>, which nothing calls.\<close>

definition get_block_version_at :: "hardfork \<Rightarrow> blockchain_db \<Rightarrow> u64 \<Rightarrow> u8 result" where
  "get_block_version_at hf db ht =
     (if ht \<le> original_version_till_height hf then Inr (original_version hf)
      else and_then (get_block_from_height db ht) (\<lambda>b. Inr (get_block_version b)))"

text \<open>The loop of \<open>reorganize_from_block_height\<close> that steps back to the version of the kept block.\<close>

fun lower_fork :: "hardfork_t list \<Rightarrow> u8 \<Rightarrow> nat \<Rightarrow> nat result" where
  "lower_fork hs start_version 0 = Inr 0"
| "lower_fork hs start_version (Suc i) =
     and_then (at hs (Suc i)) (\<lambda>f.
       if fork_version f > start_version then lower_fork hs start_version i else Inr (Suc i))"

text \<open>The loop that adds the blocks at some heights again; what \<open>add\<close> returns is not looked at.\<close>

fun add_blocks :: "nat list \<Rightarrow> hardfork \<Rightarrow> blockchain_db \<Rightarrow> (hardfork \<times> blockchain_db) result" where
  "add_blocks [] hf db = Inr (hf, db)"
| "add_blocks (h # hs) hf db =
     and_then (get_block_from_height db (of_nat h)) (\<lambda>b.
     and_then (hf_add_block hf db b (of_nat h)) (\<lambda>(ok, hf, db). add_blocks hs hf db))"

definition reorganize_from_block_height ::
  "hardfork \<Rightarrow> blockchain_db \<Rightarrow> u64 \<Rightarrow> (bool \<times> hardfork \<times> blockchain_db) result" where
  "reorganize_from_block_height hf db ht =
     (if ht \<ge> db_height db then Inr (False, hf, db)
      else
        let hf = clear_versions hf;
            rescan_height = (if ht \<ge> window_size hf - 1 then ht - (window_size hf - 1) else 0) in
        and_then (if ht = 0 then Inr (original_version hf) else get_hard_fork_version db ht) (\<lambda>start_version.
        and_then (lower_fork (heights hf) start_version (current_fork_index hf)) (\<lambda>index.
        and_then (push_blocks db [unat rescan_height..<Suc (unat ht)] (hf\<lparr>current_fork_index := index\<rparr>)) (\<lambda>hf.
        and_then (add_blocks [Suc (unat ht)..<unat (db_height db)] (advance_fork (ht + 1) hf) db) (\<lambda>(hf, db).
        Inr (True, hf, db))))))"

definition reorganize_from_chain_height ::
  "hardfork \<Rightarrow> blockchain_db \<Rightarrow> u64 \<Rightarrow> (bool \<times> hardfork \<times> blockchain_db) result" where
  "reorganize_from_chain_height hf db ht =
     (if ht = 0 then Inr (False, hf, db) else reorganize_from_block_height hf db (ht - 1))"

text \<open>
  \<open>on_block_popped\<close>. One round of its loop, the loop itself (which need not end: its
  counter is unsigned, so the test is always true for a chain of height 0), and the scan
  for the fork of the new height.
\<close>

definition pop_version :: "hardfork \<Rightarrow> blockchain_db \<Rightarrow> u64 \<Rightarrow> hardfork result" where
  "pop_version hf db ht =
     (if versions hf = [] then Inl Out_of_range
      else
        let ver = last (versions hf);
            hf = hf\<lparr>last_versions := (last_versions hf)(ver := last_versions hf ver - 1),
                   versions := butlast (versions hf)\<rparr> in
        and_then (get_hard_fork_version db ht) (\<lambda>ver.
        Inr (hf\<lparr>versions := ver # versions hf, last_versions := (last_versions hf)(ver := last_versions hf ver + 1)\<rparr>)))"

partial_function (option) popped_loop :: "hardfork \<Rightarrow> blockchain_db \<Rightarrow> u64 \<Rightarrow> u64 \<Rightarrow> hardfork result option" where
  "popped_loop hf db new_chain_height ht =
     (if ht \<ge> new_chain_height then
        (case pop_version hf db ht of
           Inl e \<Rightarrow> Some (Inl e)
         | Inr hf' \<Rightarrow> popped_loop hf' db new_chain_height (ht - 1))
      else Some (Inr hf))"

fun fork_at_height :: "hardfork_t list \<Rightarrow> u64 \<Rightarrow> nat \<Rightarrow> nat" where
  "fork_at_height hs ht 0 = 0"
| "fork_at_height hs ht (Suc i) = (if ht \<ge> fork_height (hs ! Suc i) then Suc i else fork_at_height hs ht i)"

definition on_block_popped :: "hardfork \<Rightarrow> blockchain_db \<Rightarrow> u64 \<Rightarrow> hardfork result option" where
  "on_block_popped hf db nblocks =
     (if \<not> nblocks > 0 then Some (Inl Runtime_error)
      else
        let new_chain_height = db_height db;
            old_chain_height = new_chain_height + nblocks in
        (case popped_loop hf db new_chain_height (old_chain_height - 1) of
           None \<Rightarrow> None
         | Some (Inl e) \<Rightarrow> Some (Inl e)
         | Some (Inr hf) \<Rightarrow>
             if heights hf = [] then Some (Inl Out_of_range)
             else Some (Inr (hf\<lparr>current_fork_index :=
                    fork_at_height (heights hf) new_chain_height (length (heights hf) - 1)\<rparr>))))"

definition get_state :: "hardfork \<Rightarrow> int \<Rightarrow> fork_state" where
  "get_state hf t =
     (if length (heights hf) \<le> 1 then Ready
      else
        let t_last_fork = fork_time (last (heights hf)) in
        if t \<ge> t_last_fork + forked_time hf then LikelyForked
        else if t \<ge> t_last_fork + update_time hf then UpdateNeeded
        else Ready)"

definition get_current_version :: "hardfork \<Rightarrow> u8 result" where
  "get_current_version hf = and_then (at (heights hf) (current_fork_index hf)) (\<lambda>f. Inr (fork_version f))"

definition hf_get :: "hardfork \<Rightarrow> blockchain_db \<Rightarrow> u64 \<Rightarrow> u8 result" where
  "hf_get hf db ht =
     (if ht > db_height db then Inl Assertion_failed
      else if ht = db_height db then get_current_version hf
      else get_hard_fork_version db ht)"

definition get_ideal_version :: "hardfork \<Rightarrow> u8 result" where
  "get_ideal_version hf = (if heights hf = [] then Inl Out_of_range else Inr (fork_version (last (heights hf))))"

fun ideal_version_loop :: "hardfork_t list \<Rightarrow> u8 \<Rightarrow> u64 \<Rightarrow> nat \<Rightarrow> u8" where
  "ideal_version_loop hs orig ht 0 = orig"
| "ideal_version_loop hs orig ht (Suc n) =
     (if ht \<ge> fork_height (hs ! Suc n) then fork_version (hs ! Suc n) else ideal_version_loop hs orig ht n)"

definition get_ideal_version_at :: "hardfork \<Rightarrow> u64 \<Rightarrow> u8 result" where
  "get_ideal_version_at hf ht =
     (if heights hf = [] then Inl Out_of_range
      else Inr (ideal_version_loop (heights hf) (original_version hf) ht (length (heights hf) - 1)))"

text \<open>The forks from the last to the first, as the reverse iterators visit them.\<close>

fun earliest_height_loop :: "hardfork_t list \<Rightarrow> u8 \<Rightarrow> u64 \<Rightarrow> u64" where
  "earliest_height_loop [] ver ht = ht"
| "earliest_height_loop (f # fs) ver ht =
     (if fork_version f \<ge> ver then earliest_height_loop fs ver (fork_height f) else ht)"

definition get_earliest_ideal_height_for_version :: "hardfork \<Rightarrow> u8 \<Rightarrow> u64" where
  "get_earliest_ideal_height_for_version hf ver = earliest_height_loop (rev (heights hf)) ver (-1)"

fun next_version_loop :: "hardfork_t list \<Rightarrow> u64 \<Rightarrow> hardfork_t option \<Rightarrow> u8 \<Rightarrow> u8" where
  "next_version_loop [] ht later orig = orig"
| "next_version_loop (f # fs) ht later orig =
     (if ht \<ge> fork_height f then fork_version (case later of None \<Rightarrow> f | Some g \<Rightarrow> g)
      else next_version_loop fs ht (Some f) orig)"

definition get_next_version :: "hardfork \<Rightarrow> blockchain_db \<Rightarrow> u8" where
  "get_next_version hf db = next_version_loop (rev (heights hf)) (db_height db) None (original_version hf)"

record voting_info =
  vi_window :: u32
  vi_votes :: u32
  vi_threshold :: u32
  vi_earliest_height :: u64
  vi_voting :: u8

definition get_voting_info :: "hardfork \<Rightarrow> u8 \<Rightarrow> (bool \<times> voting_info) result" where
  "get_voting_info hf ver =
     and_then (at (heights hf) (current_fork_index hf)) (\<lambda>f.
     let window = of_nat (length (versions hf)) :: u32 in
     Inr (fork_version f \<ge> ver,
       \<lparr>vi_window = window,
        vi_votes = sum_list (map (\<lambda>n. last_versions hf (of_nat n)) [unat ver..<256]),
        vi_threshold = (window * ucast (fork_threshold f) + 99) div 100,
        vi_earliest_height = get_earliest_ideal_height_for_version hf ver,
        vi_voting = fork_version (last (heights hf))\<rparr>))"

section \<open>The fork tables and their set-up\<close>

definition fork :: "u8 \<Rightarrow> u64 \<Rightarrow> u8 \<Rightarrow> int \<Rightarrow> hardfork_t" where
  "fork ver ht thr tm = \<lparr>fork_version = ver, fork_height = ht, fork_threshold = thr, fork_time = tm\<rparr>"

definition mainnet_hard_forks :: "hardfork_t list" where
  "mainnet_hard_forks = [fork 1 1 0 1571677259, fork 12 1 0 1571677260]"

definition mainnet_hard_fork_version_1_till :: u64 where
  "mainnet_hard_fork_version_1_till = 1"

text \<open>The loop of \<open>Blockchain::init\<close>: every entry is passed to \<open>add_fork\<close>, whose result is dropped.\<close>

definition add_forks :: "hardfork_t list \<Rightarrow> hardfork \<Rightarrow> hardfork" where
  "add_forks fs hf =
     fold (\<lambda>f hf. snd (add_fork hf (fork_version f) (fork_height f) (fork_threshold f) (fork_time f))) fs hf"

section \<open>Invariant\<close>

definition fork_before :: "hardfork_t \<Rightarrow> hardfork_t \<Rightarrow> bool" where
  "fork_before f g \<longleftrightarrow> fork_version f < fork_version g \<and> fork_height f < fork_height g \<and> fork_time f < fork_time g"

text \<open>The table is strictly increasing in all three columns, and thresholds are percentages.\<close>

definition heights_ok :: "hardfork_t list \<Rightarrow> bool" where
  "heights_ok hs \<longleftrightarrow> sorted_wrt fork_before hs \<and> list_all (\<lambda>f. fork_threshold f \<le> 100) hs"

text \<open>The counts are the number of votes for each version in the window.\<close>

definition counts :: "u8 list \<Rightarrow> u8 \<Rightarrow> u32" where
  "counts vs v = of_nat (count_list vs v)"

definition hf_ok :: "hardfork \<Rightarrow> bool" where
  "hf_ok hf \<longleftrightarrow> heights_ok (heights hf) \<and> current_fork_index hf < length (heights hf) \<and>
     last_versions hf = counts (versions hf) \<and> length (versions hf) \<le> unat (window_size hf) \<and>
     0 < window_size hf \<and> unat (window_size hf) < 2 ^ 32"

text \<open>The last \<open>n\<close> elements of a list.\<close>

definition lastn :: "nat \<Rightarrow> 'a list \<Rightarrow> 'a list" where
  "lastn n xs = drop (length xs - n) xs"

lemma lastn_snoc: "0 < n \<Longrightarrow> lastn n (lastn n xs @ [x]) = lastn n (xs @ [x])"
  by (cases "n \<le> length xs") (auto simp: lastn_def Suc_diff_le)

lemma length_lastn [simp]: "length (lastn n xs) = min n (length xs)"
  by (simp add: lastn_def)

lemma counts_simps [simp]:
  "counts [] = (\<lambda>_. 0)"
  "counts (v # vs) = (counts vs)(v := counts vs v + 1)"
  "counts (vs @ ws) = (\<lambda>u. counts vs u + counts ws u)"
  by (auto simp: counts_def fun_eq_iff)

lemma sorted_fork_versions: "sorted_wrt fork_before hs \<Longrightarrow> sorted_wrt (<) (map fork_version hs)"
  unfolding sorted_wrt_map by (erule sorted_wrt_mono_rel [rotated]) (simp add: fork_before_def)

lemma distinct_fork_versions: "heights_ok hs \<Longrightarrow> distinct (map fork_version hs)"
  unfolding heights_ok_def by (metis sorted_fork_versions strict_sorted_iff)

text \<open>Version numbers are bytes, so a table has at most 256 forks and an index fits a byte.\<close>

lemma heights_ok_length:
  assumes "heights_ok hs"
  shows "length hs \<le> 256"
proof -
  have "distinct (map unat (map fork_version hs))"
    using distinct_fork_versions [OF assms] by (simp add: distinct_map inj_on_def flip: word_unat_eq_iff)
  then have "length hs = card (set (map unat (map fork_version hs)))"
    by (metis distinct_card length_map)
  also have "\<dots> \<le> card {..<256 :: nat}"
    by (rule card_mono) (use unat_byte_less in auto)
  finally show ?thesis
    by simp
qed

lemma nth_fork_less:
  assumes "heights_ok hs" and "i < j" and "j < length hs"
  shows "fork_version (hs ! i) < fork_version (hs ! j)" and "fork_height (hs ! i) < fork_height (hs ! j)"
  using assms sorted_wrt_nth_less [of fork_before hs i j] by (auto simp: heights_ok_def fork_before_def)

section \<open>Voting\<close>

lemma voted_fork_loop_bound:
  "n \<le> length (heights hf) \<Longrightarrow> current_fork_index hf < length (heights hf) \<Longrightarrow>
   voted_fork_loop hf ht n acc < length (heights hf)"
  by (induction n arbitrary: acc) (auto simp: Let_def)

lemma get_voted_fork_index_bound:
  "current_fork_index hf < length (heights hf) \<Longrightarrow> get_voted_fork_index hf ht < length (heights hf)"
  by (simp add: get_voted_fork_index_def voted_fork_loop_bound)

lemma advance_fork_ok:
  assumes "hf_ok hf"
  shows "hf_ok (advance_fork ht hf)" and "current_fork_index hf \<le> current_fork_index (advance_fork ht hf)"
proof -
  have "get_voted_fork_index hf ht < length (heights hf)"
    using assms by (intro get_voted_fork_index_bound) (simp add: hf_ok_def)
  moreover from this have "get_voted_fork_index hf ht mod 256 < length (heights hf)"
    using mod_less_eq_dividend order_le_less_trans by blast
  ultimately show "hf_ok (advance_fork ht hf)"
    using assms by (simp add: advance_fork_def hf_ok_def Let_def)
  show "current_fork_index hf \<le> current_fork_index (advance_fork ht hf)"
    by (simp add: advance_fork_def Let_def)
qed

lemma advance_fork_fields [simp]:
  "heights (advance_fork ht hf) = heights hf" "versions (advance_fork ht hf) = versions hf"
  "window_size (advance_fork ht hf) = window_size hf" "last_versions (advance_fork ht hf) = last_versions hf"
  by (simp_all add: advance_fork_def Let_def)

lemma push_version_fields [simp]:
  "heights (push_version v hf) = heights hf" "versions (push_version v hf) = versions hf @ [v]"
  "window_size (push_version v hf) = window_size hf" "current_fork_index (push_version v hf) = current_fork_index hf"
  by (simp_all add: push_version_def)

lemma trim_window_counts:
  assumes "0 < w" and "length vs < 2 ^ 32"
  shows "trim_window w vs (counts vs) = Inr (lastn (unat w - 1) vs, counts (lastn (unat w - 1) vs))"
  using assms(2)
proof (induction vs)
  case Nil
  then show ?case
    using assms(1) by (simp add: lastn_def word_le_nat_alt word_less_nat_alt)
next
  case (Cons v vs)
  have small: "length (v # vs) < 2 ^ 64"
    using Cons.prems by simp
  then have le: "w \<le> of_nat (length (v # vs)) \<longleftrightarrow> unat w \<le> length (v # vs)"
    by (simp add: word_le_nat_alt unat_of_nat del: of_nat_Suc)
  have "unat (of_nat (Suc (count_list vs v)) :: u32) = Suc (count_list vs v)"
    using Cons.prems count_le_length [of vs v] by (simp add: unat_of_nat del: of_nat_Suc)
  moreover have "counts (v # vs) v = of_nat (Suc (count_list vs v))"
    by (simp add: counts_def)
  ultimately have one: "counts (v # vs) v \<ge> 1"
    by (simp add: word_le_nat_alt del: of_nat_Suc counts_simps)
  have less: "(counts (v # vs))(v := counts (v # vs) v - 1) = counts vs"
    by (simp add: fun_eq_iff)
  have pos: "0 < unat w"
    using assms(1) by (simp add: word_less_nat_alt)
  show ?case
  proof (cases "unat w \<le> length (v # vs)")
    case True
    then have "lastn (unat w - 1) (v # vs) = lastn (unat w - 1) vs"
      using pos by (simp add: lastn_def Suc_diff_le)
    then show ?thesis
      using Cons.IH Cons.prems True le one less by (simp del: counts_simps)
  next
    case False
    then have "lastn (unat w - 1) (v # vs) = v # vs"
      by (simp add: lastn_def)
    then show ?thesis
      using False le by (simp del: counts_simps)
  qed
qed

section \<open>Adding a block\<close>

lemma do_check_ok:
  "hf_ok hf \<Longrightarrow> do_check hf bv vv =
     Inr (bv = fork_version (heights hf ! current_fork_index hf) \<and> fork_version (heights hf ! current_fork_index hf) \<le> vv)"
  by (simp add: do_check_def hf_ok_def)

text \<open>The window and its counts after a vote.\<close>

definition with_vote :: "u8 \<Rightarrow> hardfork \<Rightarrow> hardfork" where
  "with_vote v hf =
     (let vs = lastn (unat (window_size hf)) (versions hf @ [v]) in hf\<lparr>versions := vs, last_versions := counts vs\<rparr>)"

lemma with_vote_ok: "hf_ok hf \<Longrightarrow> hf_ok (with_vote v hf)"
  by (simp add: with_vote_def hf_ok_def Let_def)

lemma hf_add_ok:
  assumes "hf_ok hf"
  shows "hf_add hf db bv vv ht =
    (let cur = fork_version (heights hf ! current_fork_index hf) in
     if bv = cur \<and> cur \<le> vv then
       Inr (True, advance_fork (ht + 1) (with_vote (get_effective_version hf vv) hf), set_hard_fork_version db ht cur)
     else Inr (False, hf, db))"
proof -
  note ok = assms [unfolded hf_ok_def]
  have w: "0 < unat (window_size hf)"
    using ok by (simp add: word_less_nat_alt)
  have "trim_window (window_size hf) (versions hf) (last_versions hf) =
      Inr (lastn (unat (window_size hf) - 1) (versions hf), counts (lastn (unat (window_size hf) - 1) (versions hf)))"
    using ok trim_window_counts [of "window_size hf" "versions hf"] by simp
  moreover have "lastn (unat (window_size hf) - 1) (versions hf) @ [v] = lastn (unat (window_size hf)) (versions hf @ [v])" for v
    using w by (simp add: lastn_def)
  then have "push_version v (hf\<lparr>versions := lastn (unat (window_size hf) - 1) (versions hf),
      last_versions := counts (lastn (unat (window_size hf) - 1) (versions hf))\<rparr>) = with_vote v hf" for v
    by (simp add: push_version_def with_vote_def Let_def fun_eq_iff flip: \<open>\<And>v. lastn _ _ @ [v] = _\<close>)
  ultimately show ?thesis
    using ok by (simp add: hf_add_def do_check_ok [OF assms] Let_def)
qed

section \<open>Reading the votes of the chain\<close>

lemma get_effective_version_cong: "heights hf = heights hf' \<Longrightarrow> get_effective_version hf = get_effective_version hf'"
  by (simp add: get_effective_version_def fun_eq_iff)

text \<open>The votes of some blocks.\<close>

definition votes :: "hardfork \<Rightarrow> block_versions list \<Rightarrow> u8 list" where
  "votes hf bs = map (\<lambda>b. get_effective_version hf (get_block_vote b)) bs"

lemma votes_Cons: "votes hf (b # bs) = get_effective_version hf (get_block_vote b) # votes hf bs"
  by (simp add: votes_def)

lemma votes_snoc: "votes hf (bs @ [b]) = votes hf bs @ [get_effective_version hf (get_block_vote b)]"
  by (simp add: votes_def)

lemma lastn_votes: "lastn n (votes hf bs) = votes hf (lastn n bs)"
  by (simp add: lastn_def votes_def drop_map)

lemma votes_cong: "heights hf = heights hf' \<Longrightarrow> votes hf = votes hf'"
  unfolding votes_def using get_effective_version_cong by metis

lemma push_blocks_eq:
  assumes "\<forall>h \<in> set hs. h < length (db_blocks db)" and "length (db_blocks db) < 2 ^ 64"
    and "last_versions hf = counts (versions hf)"
  shows "push_blocks db hs hf =
    (let vs = versions hf @ votes hf (map ((!) (db_blocks db)) hs) in
     Inr (hf\<lparr>versions := vs, last_versions := counts vs\<rparr>))"
  using assms(1,3)
proof (induction hs arbitrary: hf)
  case Nil
  then show ?case
    by (simp add: votes_def Let_def flip: Nil.prems(2))
next
  case (Cons h hs)
  let ?v = "get_effective_version hf (get_block_vote (db_blocks db ! h))"
  have h: "h < length (db_blocks db)"
    using Cons.prems by simp
  then have "get_block_from_height db (of_nat h) = Inr (db_blocks db ! h)"
    using assms(2) by (simp add: get_block_from_height_def unat_of_nat)
  moreover have "last_versions (push_version ?v hf) = counts (versions (push_version ?v hf))"
    using Cons.prems(2) by (simp add: push_version_def fun_eq_iff)
  moreover have "votes (push_version ?v hf) = votes hf"
    by (rule votes_cong) simp
  moreover have "(push_version ?v hf)\<lparr>versions := vs, last_versions := c\<rparr> = hf\<lparr>versions := vs, last_versions := c\<rparr>" for vs c
    by (simp add: push_version_def)
  ultimately show ?case
    using Cons.IH [of "push_version ?v hf"] Cons.prems(1) by (simp add: Let_def votes_Cons del: counts_simps)
qed

lemma map_nth_upt: "map ((!) xs) [i..<length xs] = drop i xs"
  by (rule nth_equalityI) auto

text \<open>
  Finding the fork of a version that is in the table; versions are distinct, so it is the
  one with that index.
\<close>

lemma find_fork_nth:
  assumes "distinct (map fork_version hs)" and "k < length hs"
  shows "find_fork hs (fork_version (hs ! k)) i = i + k"
  using assms
proof (induction hs "fork_version (hs ! k)" i arbitrary: k rule: find_fork.induct)
  case (3 f f' fs i)
  show ?case
  proof (cases k)
    case (Suc k')
    then have "(f' # fs) ! k' \<in> set (f' # fs)"
      using 3 by (intro nth_mem) simp
    then have "fork_version f \<noteq> fork_version ((f # f' # fs) ! k)"
      using 3 Suc by (auto simp del: nth_Cons_Suc)
    then show ?thesis
      using 3 Suc by simp
  qed simp
qed simp_all

section \<open>Restarting\<close>

text \<open>
  The state in memory belongs to the chain in the database: the window holds the votes of
  its last blocks, every block has the version that was in force at its height, and these
  versions never go down and are at most the current one.
\<close>

definition synced :: "hardfork \<Rightarrow> blockchain_db \<Rightarrow> bool" where
  "synced hf db \<longleftrightarrow> hf_ok hf \<and> length (db_blocks db) < 2 ^ 64 \<and>
     versions hf = lastn (unat (window_size hf)) (votes hf (db_blocks db)) \<and>
     (\<forall>h < length (db_blocks db). hf_versions db (of_nat h) = Some (major_version (db_blocks db ! h))) \<and>
     sorted (map major_version (db_blocks db)) \<and>
     (\<forall>b \<in> set (db_blocks db). major_version b \<le> fork_version (heights hf ! current_fork_index hf))"

text \<open>A block is stored and then announced, as \<open>BlockchainDB::add_block\<close> does.\<close>

definition store_block :: "blockchain_db \<Rightarrow> block_versions \<Rightarrow> blockchain_db" where
  "store_block db b = db\<lparr>db_blocks := db_blocks db @ [b]\<rparr>"

definition db_add_block :: "hardfork \<Rightarrow> blockchain_db \<Rightarrow> block_versions \<Rightarrow> (bool \<times> hardfork \<times> blockchain_db) result" where
  "db_add_block hf db b = hf_add_block hf (store_block db b) b (db_height db)"

lemma db_add_block_ok:
  assumes "hf_ok hf" and "db_add_block hf db b = Inr (True, hf', db')"
  shows "major_version b = fork_version (heights hf ! current_fork_index hf)"
    and "hf' = advance_fork (db_height db + 1) (with_vote (get_effective_version hf (get_block_vote b)) hf)"
    and "db' = set_hard_fork_version (store_block db b) (db_height db) (major_version b)"
  using assms(2) unfolding db_add_block_def hf_add_block_def hf_add_ok [OF assms(1)] Let_def get_block_version_def
  by (simp_all split: if_splits)

lemma with_vote_fields [simp]:
  "heights (with_vote v hf) = heights hf" "window_size (with_vote v hf) = window_size hf"
  "current_fork_index (with_vote v hf) = current_fork_index hf"
  "versions (with_vote v hf) = lastn (unat (window_size hf)) (versions hf @ [v])"
  by (simp_all add: with_vote_def Let_def)

lemma current_version_mono:
  assumes "hf_ok hf" and "i \<le> current_fork_index hf"
  shows "fork_version (heights hf ! i) \<le> fork_version (heights hf ! current_fork_index hf)"
  using assms nth_fork_less(1) [of "heights hf" i "current_fork_index hf"]
  by (cases "i = current_fork_index hf") (auto simp: hf_ok_def)

lemma db_add_block_synced:
  assumes "synced hf db" and "db_add_block hf db b = Inr (True, hf', db')" and "Suc (length (db_blocks db)) < 2 ^ 64"
  shows "synced hf' db'" and "current_fork_index hf \<le> current_fork_index hf'" and "heights hf' = heights hf"
    and "db_blocks db' = db_blocks db @ [b]"
proof -
  note s = assms(1) [unfolded synced_def]
  have ok: "hf_ok hf"
    using s by simp
  note add = db_add_block_ok [OF ok assms(2)]
  let ?w = "with_vote (get_effective_version hf (get_block_vote b)) hf"
  show hts: "heights hf' = heights hf" and blocks: "db_blocks db' = db_blocks db @ [b]"
    by (simp_all add: add set_hard_fork_version_def store_block_def)
  have ok': "hf_ok hf'"
    using advance_fork_ok(1) [OF with_vote_ok [OF ok]] add(2) by simp
  show idx: "current_fork_index hf \<le> current_fork_index hf'"
    using advance_fork_ok(2) [OF with_vote_ok [OF ok]] add(2) by simp
  have "votes hf' = votes hf"
    using hts by (rule votes_cong)
  then have "versions hf' = lastn (unat (window_size hf')) (votes hf' (db_blocks db'))"
    using s ok lastn_snoc [of "unat (window_size hf)" "votes hf (db_blocks db)"]
    by (simp add: add(2) blocks votes_snoc hf_ok_def word_less_nat_alt)
  moreover have "hf_versions db' (of_nat h) = Some (major_version (db_blocks db' ! h))" if "h < length (db_blocks db')" for h
  proof (cases "h = length (db_blocks db)")
    case False
    then have "h < length (db_blocks db)"
      using that blocks by simp
    moreover from this have "(of_nat h :: u64) \<noteq> db_height db"
      using s by (simp add: db_height_def word_of_nat_eq_iff take_bit_nat_eq_self)
    ultimately show ?thesis
      using s by (simp add: add(3) blocks nth_append set_hard_fork_version_def store_block_def)
  qed (simp add: add(3) set_hard_fork_version_def store_block_def db_height_def)
  moreover have "fork_version (heights hf ! current_fork_index hf) \<le> fork_version (heights hf' ! current_fork_index hf')"
    using current_version_mono [OF ok' idx] by (simp add: hts)
  ultimately show "synced hf' db'"
    using s ok' assms(3) add(1) unfolding synced_def
    by (auto simp: blocks sorted_append intro: order_trans)
qed

text \<open>
  Two objects with the same configuration and table, whatever window, counts and index they
  hold: what a process has before \<open>init\<close>.
\<close>

definition same_setup :: "hardfork \<Rightarrow> hardfork \<Rightarrow> bool" where
  "same_setup hf0 hf \<longleftrightarrow>
     hf0\<lparr>versions := [], last_versions := (\<lambda>_. 0), current_fork_index := 0\<rparr> =
     hf\<lparr>versions := [], last_versions := (\<lambda>_. 0), current_fork_index := 0\<rparr>"

lemma same_setup_upd:
  assumes "same_setup hf0 hf"
  shows "hf0\<lparr>versions := vs, last_versions := c, current_fork_index := i\<rparr> =
         hf\<lparr>versions := vs, last_versions := c, current_fork_index := i\<rparr>"
  using assms unfolding same_setup_def by (cases hf0; cases hf) simp

lemma same_setup_fields:
  assumes "same_setup hf0 hf"
  shows "heights hf0 = heights hf" and "window_size hf0 = window_size hf"
  using assms unfolding same_setup_def by (cases hf0; cases hf; simp)+

lemma rescan_synced:
  assumes "hf_ok hf" and "same_setup hf0 hf" and "length (db_blocks db) < 2 ^ 64" and "start < length (db_blocks db)"
    and "hf_versions db (db_height db - 1) = Some (fork_version (heights hf ! k))" and "k < length (heights hf)"
  shows "rescan_from_block_height hf0 db (of_nat start) =
    (let vs = votes hf (drop start (db_blocks db)) in
     Inr (True, advance_fork (db_height db) (hf\<lparr>versions := vs, last_versions := counts vs, current_fork_index := k\<rparr>)))"
proof -
  note same = same_setup_fields [OF assms(2)]
  have nums: "unat (db_height db) = length (db_blocks db)" "unat (of_nat start :: u64) = start"
    using assms(3,4) by (simp_all add: db_height_def unat_of_nat)
  then have less: "\<not> db_height db \<le> of_nat start"
    using assms(4) by (simp add: word_le_nat_alt)
  have vs: "votes (clear_versions hf0) = votes hf"
    by (rule votes_cong) (simp add: clear_versions_def same)
  have "push_blocks db [start..<length (db_blocks db)] (clear_versions hf0) =
      (let vs = votes hf (drop start (db_blocks db)) in Inr (hf0\<lparr>versions := vs, last_versions := counts vs\<rparr>))"
    using assms(3,4) by (subst push_blocks_eq) (auto simp: clear_versions_def map_nth_upt Let_def vs [unfolded clear_versions_def])
  moreover have "find_fork (heights hf) (fork_version (heights hf ! k)) 0 = k"
    using find_fork_nth [of "heights hf" k 0] assms(1,6) distinct_fork_versions by (simp add: hf_ok_def)
  ultimately show ?thesis
    using nums less assms(5) same_setup_upd [OF assms(2)]
    by (simp add: rescan_from_block_height_def get_hard_fork_version_def same Let_def)
qed

text \<open>Where \<open>init\<close> starts to read: the votes of the window, one block being added later.\<close>

lemma init_start:
  fixes h w start :: u64
  assumes "0 < unat w" and "0 < unat h" and "start = (if h > w then h - (w - 1) else 1)"
  shows "start \<noteq> 0" "start - 1 = of_nat (unat h - unat w)"
proof -
  have "unat (w - 1) = unat w - 1"
    using assms(1) by (simp add: unat_sub word_le_nat_alt)
  then have "unat start = Suc (unat h - unat w)"
    using assms by (auto simp: word_less_nat_alt unat_sub word_le_nat_alt)
  then show "start \<noteq> 0" "start - 1 = of_nat (unat h - unat w)"
    by (auto simp: unat_sub word_le_nat_alt intro!: word_eq_of_natI)
qed

lemma window_after_block:
  assumes "synced hf db" and "0 < w" and "w = unat (window_size hf)"
  shows "votes hf (drop (Suc (length (db_blocks db)) - w) (db_blocks db @ [b])) =
    lastn w (versions hf @ [get_effective_version hf (get_block_vote b)])"
proof -
  have "votes hf (drop (Suc (length (db_blocks db)) - w) (db_blocks db @ [b])) = lastn w (votes hf (db_blocks db @ [b]))"
    by (simp add: lastn_votes) (simp add: lastn_def)
  also have "\<dots> = lastn w (versions hf @ [get_effective_version hf (get_block_vote b)])"
    using assms lastn_snoc [of w "votes hf (db_blocks db)"] by (simp add: synced_def votes_snoc)
  finally show ?thesis .
qed

text \<open>
  C2. Restarting is invisible to an object in step with its chain (\<open>synced\<close>): its window is the votes
  of the last blocks, the versions of the stored blocks are recorded and never went down, and none is above the current fork. Every
  object that grew with its chain from an empty database is; one that popped blocks need not be, since
  a pop puts recorded versions into the window where votes were. Let such an object accept one more block;
  then a new process that sets up the same table and runs \<open>init\<close> on the database ends in
  exactly the state the running process has (the window of votes, the counts and the
  current fork), whatever was in the uninitialised fields.
\<close>

theorem restart_equivalence:
  assumes "synced hf db" and "db_add_block hf db b = Inr (True, hf', db')" and "Suc (length (db_blocks db)) < 2 ^ 64"
    and "same_setup hf0 hf"
  shows "hf_init hf0 db' = Inr hf'"
proof -
  have ok: "hf_ok hf"
    using assms(1) by (simp add: synced_def)
  note add = db_add_block_ok [OF ok assms(2)] and same = same_setup_fields [OF assms(4)]
  let ?w = "unat (window_size hf)" and ?hf0 = "(clear_versions hf0)\<lparr>current_fork_index := 0\<rparr>"
  let ?start = "Suc (length (db_blocks db)) - ?w"
  have blocks: "db_blocks db' = db_blocks db @ [b]"
    by (simp add: add set_hard_fork_version_def store_block_def)
  have w: "0 < ?w" "?w < 2 ^ 32"
    using ok by (auto simp: hf_ok_def word_less_nat_alt)
  have ht: "unat (db_height db') = Suc (length (db_blocks db))" "db_height db' = db_height db + 1"
    using assms(3) by (simp_all add: db_height_def blocks unat_of_nat del: of_nat_Suc) simp
  have "db_height db' - 1 = db_height db"
    by (simp add: ht(2))
  then have lastv: "hf_versions db' (db_height db' - 1) = Some (fork_version (heights hf ! current_fork_index hf))"
    by (simp only: \<open>db_height db' - 1 = _\<close>) (simp add: add(1,3) set_hard_fork_version_def)
  have fields: "same_setup ?hf0 hf"
    using assms(4) by (simp add: same_setup_def clear_versions_def)
  define start where "start = (if db_height db' > window_size hf then db_height db' - (window_size hf - 1) else 1)"
  have start: "start \<noteq> 0" "start - 1 = of_nat ?start"
    using init_start [OF w(1) _ start_def] ht(1) by simp_all
  have "heights hf \<noteq> []"
    using ok by (auto simp: hf_ok_def)
  then have "hf_init hf0 db' = and_then (rescan_from_chain_height ?hf0 db' start) (\<lambda>(ok, hf). Inr hf)"
    by (simp add: hf_init_def Let_def clear_versions_def same start_def)
  also have "rescan_from_chain_height ?hf0 db' start = rescan_from_block_height ?hf0 db' (of_nat ?start)"
    using start by (simp add: rescan_from_chain_height_def)
  also have "rescan_from_block_height ?hf0 db' (of_nat ?start) = Inr (True, advance_fork (db_height db')
        (hf\<lparr>versions := votes hf (drop ?start (db_blocks db')),
            last_versions := counts (votes hf (drop ?start (db_blocks db')))\<rparr>))"
    using rescan_synced [OF ok fields _ _ lastv, of ?start] w assms(3) ok by (simp add: blocks Let_def hf_ok_def)
  also have "\<dots> = Inr (True, hf')"
    by (simp only: blocks window_after_block [OF assms(1) w(1) refl] ht(2) add(2) with_vote_def Let_def)
  finally show ?thesis
    by simp
qed

section \<open>A growing chain\<close>

text \<open>One more block accepted; a chain grows by such steps.\<close>

inductive grows :: "hardfork \<times> blockchain_db \<Rightarrow> hardfork \<times> blockchain_db \<Rightarrow> bool" where
  block: "db_add_block hf db b = Inr (True, hf', db') \<Longrightarrow> Suc (length (db_blocks db)) < 2 ^ 64 \<Longrightarrow>
    grows (hf, db) (hf', db')"

inductive_cases grows_cases: "grows (hf, db) st"

lemma grows_synced:
  assumes "grows\<^sup>*\<^sup>* (hf, db) (hf', db')" and "synced hf db"
  shows "synced hf' db' \<and> current_fork_index hf \<le> current_fork_index hf' \<and> heights hf' = heights hf \<and>
    (\<exists>bs. db_blocks db' = db_blocks db @ bs)"
  using assms
proof (induction "(hf', db')" arbitrary: hf' db' rule: rtranclp_induct)
  case (step st)
  obtain hf1 db1 where st: "st = (hf1, db1)"
    by fastforce
  then have IH: "synced hf1 db1" "current_fork_index hf \<le> current_fork_index hf1" "heights hf1 = heights hf"
      "\<exists>bs. db_blocks db1 = db_blocks db @ bs"
    using step by auto
  obtain b where add: "db_add_block hf1 db1 b = Inr (True, hf', db')" "Suc (length (db_blocks db1)) < 2 ^ 64"
    using step.hyps(2) st by (auto elim: grows_cases)
  then show ?case
    using IH db_add_block_synced [OF IH(1) add] by auto
qed auto

text \<open>The object as it is after \<open>init\<close> on an empty database.\<close>

definition fresh :: "hardfork_t list \<Rightarrow> hardfork \<Rightarrow> hardfork" where
  "fresh hs hf = hf\<lparr>heights := hs, versions := [], last_versions := (\<lambda>_. 0), current_fork_index := 0\<rparr>"

lemma fresh_synced:
  assumes "heights_ok hs" and "hs \<noteq> []" and "0 < window_size hf" and "unat (window_size hf) < 2 ^ 32"
  shows "synced (fresh hs hf) \<lparr>db_blocks = [], hf_versions = Map.empty\<rparr>"
  using assms by (simp add: synced_def fresh_def hf_ok_def votes_def lastn_def)

section \<open>What a vote decides\<close>

text \<open>
  The rule in plain numbers: a fork is active at a height that has reached its own, when
  the blocks of the window that vote for it or for a later fork are at least its percentage
  of the window, rounded up.
\<close>

definition supporters :: "hardfork \<Rightarrow> nat \<Rightarrow> nat" where
  "supporters hf n = length (filter (\<lambda>v. v \<in> set (map fork_version (drop n (heights hf)))) (versions hf))"

definition fork_active :: "hardfork \<Rightarrow> u64 \<Rightarrow> nat \<Rightarrow> bool" where
  "fork_active hf ht n \<longleftrightarrow> n < length (heights hf) \<and> fork_height (heights hf ! n) \<le> ht \<and>
     (unat (window_size hf) * unat (fork_threshold (heights hf ! n)) + 99) div 100 \<le> supporters hf n"

lemma sum_counts:
  assumes "distinct vs"
  shows "sum_list (map (\<lambda>v. count_list xs v) vs) = length (filter (\<lambda>x. x \<in> set vs) xs)"
proof (induction xs)
  case (Cons x xs)
  have "sum_list (map (\<lambda>v. if x = v then 1 else 0 :: nat) vs) = (if x \<in> set vs then 1 else 0)"
    using assms by (induction vs) auto
  moreover have "sum_list (map (\<lambda>v. count_list (x # xs) v) vs) =
      sum_list (map (\<lambda>v. if x = v then 1 else 0) vs) + sum_list (map (\<lambda>v. count_list xs v) vs)"
    by (induction vs) auto
  ultimately show ?case
    using Cons by simp
qed simp

lemma sum_counts_word:
  "sum_list (map (\<lambda>f. counts vs (fork_version f)) fs) =
   (of_nat (sum_list (map (\<lambda>v. count_list vs v) (map fork_version fs))) :: u32)"
  by (induction fs) (simp_all add: counts_def)

lemma supporters_word:
  assumes "hf_ok hf"
  shows "unat (sum_list (map (\<lambda>f. last_versions hf (fork_version f)) (drop n (heights hf)))) = supporters hf n"
proof -
  have "distinct (map fork_version (drop n (heights hf)))"
    using assms distinct_fork_versions by (simp add: hf_ok_def flip: drop_map) 
  then have "sum_list (map (count_list (versions hf)) (map fork_version (drop n (heights hf)))) = supporters hf n"
    unfolding supporters_def by (rule sum_counts)
  moreover have "supporters hf n < 2 ^ 32"
    using assms length_filter_le [of _ "versions hf"] unfolding supporters_def hf_ok_def by (meson le_less_trans)
  ultimately show ?thesis
    using assms by (simp add: hf_ok_def sum_counts_word unat_of_nat)
qed

lemma threshold_word:
  fixes w :: u64 and t :: u8
  assumes "unat w < 2 ^ 32" and "t \<le> 100"
  shows "unat (ucast ((w * ucast t + 99) div 100) :: u32) = (unat w * unat t + 99) div 100"
proof -
  have t: "unat t \<le> 100"
    using assms(2) by (simp add: word_le_nat_alt)
  have "unat (ucast t :: u64) = unat t"
    using t by (simp add: unsigned_ucast_eq take_bit_nat_eq_self)
  have prod: "unat w * unat t \<le> (2 ^ 32 - 1) * 100"
    using assms(1) t by (intro mult_le_mono) auto
  have "w * ucast t + 99 = of_nat (unat w * unat t + 99)"
    by simp
  then have "unat (w * ucast t + 99) = unat w * unat t + 99"
    using prod by (simp add: unat_of_nat del: of_nat_add of_nat_mult)
  then have quot: "unat ((w * ucast t + 99) div 100) = (unat w * unat t + 99) div 100"
    by (simp add: unat_div_distrib)
  moreover have "(unat w * unat t + 99) div 100 < 2 ^ 32"
    using prod by (intro less_mult_imp_div_less) simp
  ultimately show ?thesis
    by (simp add: unsigned_ucast_eq take_bit_nat_eq_self)
qed

lemma voted_fork_loop_spec:
  assumes "hf_ok hf" and "n \<le> length (heights hf)"
    and "acc = sum_list (map (\<lambda>f. last_versions hf (fork_version f)) (drop n (heights hf)))"
  shows "(voted_fork_loop hf ht n acc = current_fork_index hf \<and> (\<forall>m < n. \<not> fork_active hf ht m)) \<or>
    (voted_fork_loop hf ht n acc < n \<and> fork_active hf ht (voted_fork_loop hf ht n acc) \<and>
     (\<forall>m. voted_fork_loop hf ht n acc < m \<and> m < n \<longrightarrow> \<not> fork_active hf ht m))"
  using assms(2,3)
proof (induction n arbitrary: acc)
  case (Suc n)
  let ?f = "heights hf ! n" and ?acc = "acc + last_versions hf (fork_version (heights hf ! n))"
  have n: "n < length (heights hf)"
    using Suc.prems(1) by simp
  have acc: "?acc = sum_list (map (\<lambda>f. last_versions hf (fork_version f)) (drop n (heights hf)))"
    using Suc.prems(2) n by (simp add: add.commute flip: Cons_nth_drop_Suc)
  have sup: "unat ?acc = supporters hf n"
    unfolding acc by (rule supporters_word [OF assms(1)])
  have "fork_threshold ?f \<le> 100" and "unat (window_size hf) < 2 ^ 32"
    using assms(1) n by (auto simp: hf_ok_def heights_ok_def list_all_length)
  note thr = threshold_word [OF this(2,1)]
  have active: "fork_active hf ht n \<longleftrightarrow> fork_height ?f \<le> ht \<and>
      ucast ((window_size hf * ucast (fork_threshold ?f) + 99) div 100) \<le> ?acc"
    using n thr sup by (simp add: fork_active_def word_le_nat_alt)
  show ?case
  proof (cases "fork_active hf ht n")
    case True
    then have "voted_fork_loop hf ht (Suc n) acc = n"
      using active by (simp add: Let_def)
    then show ?thesis
      using True by auto
  next
    case False
    then have "voted_fork_loop hf ht (Suc n) acc = voted_fork_loop hf ht n ?acc"
      using active by (auto simp: Let_def)
    then show ?thesis
      using Suc.IH [OF _ acc] Suc.prems(1) False by (auto simp: less_Suc_eq)
  qed
qed simp

section \<open>Ideal versions and heights\<close>

lemma ideal_version_loop_ge:
  assumes "heights_ok hs" and "n < length hs" and "fork_version (hs ! 0) < ver"
    and "\<forall>m. n < m \<and> m < length hs \<longrightarrow> \<not> (fork_height (hs ! m) \<le> ht)" and "orig = fork_version (hs ! 0)"
  shows "ver \<le> ideal_version_loop hs orig ht n \<longleftrightarrow> (\<exists>m < length hs. ver \<le> fork_version (hs ! m) \<and> fork_height (hs ! m) \<le> ht)"
  using assms(2,4)
proof (induction n)
  case 0
  then have "m = 0" if "m < length hs" "fork_height (hs ! m) \<le> ht" for m
    using that by (cases m) auto
  then show ?case
    using assms(3,5) by auto
next
  case (Suc n)
  show ?case
  proof (cases "fork_height (hs ! Suc n) \<le> ht")
    case True
    have "fork_version (hs ! m) \<le> fork_version (hs ! Suc n)" if "m < length hs" "fork_height (hs ! m) \<le> ht" for m
    proof -
      have "m \<le> Suc n"
        using Suc.prems(2) that by (meson not_le)
      then show ?thesis
        using nth_fork_less(1) [OF assms(1), of m "Suc n"] Suc.prems(1) by (cases "m = Suc n") auto
    qed
    then show ?thesis
      using True Suc.prems(1) by (auto intro: order_trans)
  next
    case False
    then have "\<forall>m. n < m \<and> m < length hs \<longrightarrow> \<not> (fork_height (hs ! m) \<le> ht)"
      using Suc.prems(2) by (metis Suc_lessI)
    then show ?thesis
      using False Suc by simp
  qed
qed

text \<open>The forks are visited from the last to the first, that is, a reversed prefix at a time.\<close>

lemma earliest_height_loop_le:
  assumes "heights_ok (hs @ rest)" and "list_all (\<lambda>f. ver \<le> fork_version f) rest"
    and "acc = (case rest of [] \<Rightarrow> -1 | f # _ \<Rightarrow> fork_height f)" and "ht \<noteq> -1"
  shows "earliest_height_loop (rev hs) ver acc \<le> ht \<longleftrightarrow>
    (\<exists>f \<in> set (hs @ rest). ver \<le> fork_version f \<and> fork_height f \<le> ht)"
  using assms(1-3)
proof (induction hs arbitrary: rest acc rule: rev_induct)
  case Nil
  show ?case
  proof (cases rest)
    case Nil
    then show ?thesis
      using Nil.prems assms(4) by (simp add: word_order.extremum_unique)
  next
    case (Cons f fs)
    then show ?thesis
      using Nil.prems by (auto simp: heights_ok_def fork_before_def list_all_iff)
  qed
next
  case (snoc f hs)
  show ?case
  proof (cases "ver \<le> fork_version f")
    case True
    then show ?thesis
      using snoc.IH [of "f # rest" "fork_height f"] snoc.prems by simp
  next
    case False
    have "\<not> ver \<le> fork_version g" if "g \<in> set hs" for g
      using False snoc.prems(1) that by (fastforce simp: heights_ok_def sorted_wrt_append fork_before_def)
    moreover have "acc \<le> ht \<longleftrightarrow> (\<exists>g \<in> set rest. ver \<le> fork_version g \<and> fork_height g \<le> ht)"
      using snoc.prems assms(4)
      by (cases rest) (auto simp: heights_ok_def sorted_wrt_append fork_before_def list_all_iff word_order.extremum_unique)
    ultimately show ?thesis
      using False by auto
  qed
qed

section \<open>Popping blocks\<close>

lemma pop_version_ok:
  assumes "last_versions hf = counts (versions hf)" and "versions hf \<noteq> []" and "hf_versions db ht = Some v"
  shows "pop_version hf db ht =
    (let vs = v # butlast (versions hf) in Inr (hf\<lparr>versions := vs, last_versions := counts vs\<rparr>))"
proof -
  let ?b = "butlast (versions hf)" and ?l = "last (versions hf)"
  have "counts (versions hf) = counts (?b @ [?l])"
    using assms(2) by simp
  then have "(counts (versions hf))(?l := counts (versions hf) ?l - 1) = counts ?b"
    by (simp add: fun_eq_iff)
  then show ?thesis
    using assms by (simp add: pop_version_def get_hard_fork_version_def Let_def del: fun_upd_apply)
qed

text \<open>The versions recorded at \<open>n\<close> heights from \<open>new\<close> on.\<close>

definition recorded :: "blockchain_db \<Rightarrow> u64 \<Rightarrow> nat \<Rightarrow> u8 list" where
  "recorded db new n = map (\<lambda>i. the (hf_versions db (new + of_nat i))) [0..<n]"

lemma take_butlast_append: "xs \<noteq> [] \<Longrightarrow> take (length ys) (xs @ butlast ys) = take (length ys) (xs @ ys)"
  by (cases xs; cases ys rule: rev_cases) simp_all

lemma popped_loop_total:
  assumes "0 < new" and "unat new + n < 2 ^ 64"
    and "\<forall>h. new \<le> h \<and> h < new + of_nat n \<longrightarrow> hf_versions db h \<noteq> None"
    and "last_versions hf = counts (versions hf)" and "versions hf \<noteq> []"
  shows "\<exists>vs. popped_loop hf db new (new + of_nat n - 1) = Some (Inr (hf\<lparr>versions := vs, last_versions := counts vs\<rparr>)) \<and>
    vs = take (length (versions hf)) (recorded db new n @ versions hf)"
  using assms(2-)
proof (induction n arbitrary: hf)
  case 0
  have "\<not> new \<le> new - 1"
    using assms(1) by (simp add: word_le_nat_alt word_less_nat_alt unat_sub)
  then show ?case
    by (subst popped_loop.simps) (auto intro!: exI [of _ "versions hf"] simp: recorded_def simp flip: 0(3))
next
  case (Suc n)
  let ?h = "new + of_nat n"
  have num: "unat ?h = unat new + n" "unat (?h + 1) = unat new + n + 1"
    using Suc.prems(1) by (simp_all add: unat_word_ariths unat_of_nat)
  then have le: "new \<le> ?h" "?h < ?h + 1"
    by (simp_all add: word_le_nat_alt word_less_nat_alt)
  have "\<exists>v. hf_versions db ?h = Some v"
    using Suc.prems(2) le by (simp add: ac_simps)
  then obtain v where v: "hf_versions db ?h = Some v" ..
  let ?vs = "v # butlast (versions hf)"
  let ?hf = "hf\<lparr>versions := ?vs, last_versions := counts ?vs\<rparr>"
  have "popped_loop hf db new ?h = popped_loop ?hf db new (?h - 1)"
    using le pop_version_ok [OF Suc.prems(3,4) v] by (subst popped_loop.simps) (simp add: Let_def)
  moreover have "\<forall>h. new \<le> h \<and> h < new + of_nat n \<longrightarrow> hf_versions db h \<noteq> None"
    using Suc.prems(2) le(2) by (auto simp: add.assoc [symmetric] add.commute [of 1] dest: less_trans)
  moreover have "take (length ?vs) (recorded db new n @ ?vs) = take (length (versions hf)) (recorded db new (Suc n) @ versions hf)"
    using take_butlast_append [of "recorded db new n @ [v]" "versions hf"] Suc.prems(4) v by (simp add: recorded_def)
  ultimately show ?case
    using Suc.IH [of ?hf] Suc.prems by simp
qed

lemma fork_at_height_spec:
  assumes "i < length hs"
  shows "fork_at_height hs ht i \<le> i \<and>
    (fork_at_height hs ht i = 0 \<or> fork_height (hs ! fork_at_height hs ht i) \<le> ht) \<and>
    (\<forall>m. fork_at_height hs ht i < m \<and> m \<le> i \<longrightarrow> ht < fork_height (hs ! m))"
  using assms by (induction i) (auto simp: le_Suc_eq not_le)

section \<open>The tables of the networks\<close>

definition mainnet_hardfork :: "(u8 \<Rightarrow> u32) \<Rightarrow> hardfork result" where
  "mainnet_hardfork garbage =
     and_then (new_hardfork 1 mainnet_hard_fork_version_1_till DEFAULT_FORKED_TIME DEFAULT_UPDATE_TIME
       DEFAULT_WINDOW_SIZE DEFAULT_THRESHOLD_PERCENT garbage)
       (\<lambda>hf. Inr (add_forks mainnet_hard_forks hf))"

lemma mainnet_hardfork_eq:
  "mainnet_hardfork garbage = Inr \<lparr>forked_time = DEFAULT_FORKED_TIME, update_time = DEFAULT_UPDATE_TIME,
     window_size = 10080, default_threshold_percent = 80, original_version = 1, original_version_till_height = 1,
     heights = [fork 1 1 0 1571677259], versions = [], last_versions = garbage, current_fork_index = 0\<rparr>"
  by (simp add: mainnet_hardfork_def new_hardfork_def DEFAULT_WINDOW_SIZE_def DEFAULT_THRESHOLD_PERCENT_def
      add_forks_def mainnet_hard_forks_def add_fork_def fork_def mainnet_hard_fork_version_1_till_def)

lemma init_empty_db:
  assumes "heights hf \<noteq> []" and "db_blocks db = []"
  shows "hf_init hf db = Inr (fresh (heights hf) hf)"
proof -
  have "db_height db = 0"
    using assms(2) by (simp add: db_height_def)
  then show ?thesis
    using assms(1) by (simp add: hf_init_def rescan_from_chain_height_def rescan_from_block_height_def
        clear_versions_def fresh_def Let_def)
qed

section \<open>Activation\<close>

text \<open>A list of blocks added one after the other; \<open>None\<close> when one of them is refused.\<close>

fun grow :: "block_versions list \<Rightarrow> hardfork \<times> blockchain_db \<Rightarrow> (hardfork \<times> blockchain_db) option" where
  "grow [] st = Some st"
| "grow (b # bs) (hf, db) =
     (case db_add_block hf db b of Inr (ok, hf, db) \<Rightarrow> if ok then grow bs (hf, db) else None | Inl e \<Rightarrow> None)"

text \<open>A block whose vote counts for the fork \<open>n\<close>: it is for that version or for the version of a later fork.\<close>

definition supports :: "hardfork \<Rightarrow> nat \<Rightarrow> block_versions \<Rightarrow> bool" where
  "supports hf n b \<longleftrightarrow> get_effective_version hf (get_block_vote b) \<in> set (map fork_version (drop n (heights hf)))"

lemma supports_cong: "heights hf = heights hf' \<Longrightarrow> supports hf = supports hf'"
  unfolding supports_def using get_effective_version_cong by metis

lemma grow_Cons_Some:
  "grow (b # bs) (hf, db) = Some st \<longleftrightarrow> (\<exists>hf1 db1. db_add_block hf db b = Inr (True, hf1, db1) \<and> grow bs (hf1, db1) = Some st)"
  by (auto split: sum.splits prod.splits)

lemma grow_snoc:
  "grow (bs @ [b]) (hf, db) = Some st \<longleftrightarrow>
     (\<exists>hf1 db1. grow bs (hf, db) = Some (hf1, db1) \<and> grow [b] (hf1, db1) = Some st)"
  by (induction bs arbitrary: hf db) (auto simp: grow_Cons_Some simp del: grow.simps(2))

lemma grow_synced:
  assumes "grow bs (hf, db) = Some (hf', db')" and "synced hf db" and "length (db_blocks db) + length bs < 2 ^ 64"
  shows "synced hf' db' \<and> heights hf' = heights hf \<and> window_size hf' = window_size hf \<and> db_blocks db' = db_blocks db @ bs"
  using assms
proof (induction bs arbitrary: hf db)
  case (Cons b bs)
  then obtain hf1 db1 where add: "db_add_block hf db b = Inr (True, hf1, db1)" and rest: "grow bs (hf1, db1) = Some (hf', db')"
    unfolding grow_Cons_Some by blast
  have "window_size hf1 = window_size hf"
    using Cons.prems(2) db_add_block_ok(2) [OF _ add] by (simp add: synced_def)
  then show ?case
    using Cons.IH [OF rest] db_add_block_synced [OF Cons.prems(2) add] Cons.prems(3) by simp
qed simp

text \<open>The block that fills the window with support activates the fork.\<close>

lemma full_window_activates:
  assumes "synced hf db" and "db_add_block hf db b = Inr (True, hf', db')" and "Suc (length (db_blocks db)) < 2 ^ 64"
    and "n < length (heights hf)" and "fork_height (heights hf ! n) \<le> of_nat (Suc (length (db_blocks db)))"
    and "unat (window_size hf) \<le> Suc (length (db_blocks db))"
    and "\<forall>c \<in> set (lastn (unat (window_size hf)) (db_blocks db @ [b])). supports hf n c"
  shows "n \<le> current_fork_index hf'"
proof -
  have ok: "hf_ok hf"
    using assms(1) by (simp add: synced_def)
  define w where "w = with_vote (get_effective_version hf (get_block_vote b)) hf"
  note add = db_add_block_ok [OF ok assms(2), folded w_def]
  note next_state = db_add_block_synced [OF assms(1-3)]
  have w: "hf_ok w" "heights w = heights hf" "window_size w = window_size hf"
    unfolding w_def using ok by (simp_all add: with_vote_ok)
  have "versions w = lastn (unat (window_size hf)) (votes hf (db_blocks db @ [b]))"
    using next_state votes_cong [OF next_state(3)] w(3) by (simp add: synced_def add(2))
  then have window: "versions w = votes hf (lastn (unat (window_size hf)) (db_blocks db @ [b]))"
    by (simp add: lastn_votes)
  then have "filter (\<lambda>v. v \<in> set (map fork_version (drop n (heights w)))) (versions w) = versions w"
    using assms(7) by (auto simp: filter_id_conv votes_def supports_def w(2))
  then have "supporters w n = unat (window_size hf)"
    using assms(6) window by (simp add: supporters_def votes_def)
  moreover have "unat (fork_threshold (heights hf ! n)) \<le> 100"
    using ok assms(4) by (simp add: hf_ok_def heights_ok_def list_all_length word_le_nat_alt)
  then have "unat (window_size hf) * unat (fork_threshold (heights hf ! n)) + 99 < Suc (unat (window_size hf)) * 100"
    using mult_le_mono2 [of "unat (fork_threshold (heights hf ! n))" 100 "unat (window_size hf)"] unfolding mult_Suc by linarith
  then have "(unat (window_size hf) * unat (fork_threshold (heights hf ! n)) + 99) div 100 \<le> unat (window_size hf)"
    by (simp add: less_mult_imp_div_less less_Suc_eq_le flip: less_Suc_eq_le)
  ultimately have "fork_active w (db_height db + 1) n"
    using assms(4,5) by (simp add: fork_active_def w db_height_def add.commute)
  then have "n \<le> get_voted_fork_index w (db_height db + 1)"
    using voted_fork_loop_spec [OF w(1) order_refl, of 0 "db_height db + 1"] assms(4) w(2)
    unfolding get_voted_fork_index_def by (auto simp: not_less [symmetric])
  moreover have "get_voted_fork_index w (db_height db + 1) < 256"
    using get_voted_fork_index_bound [of w] w(1) heights_ok_length [of "heights w"]
    by (meson hf_ok_def order_less_le_trans)
  ultimately show ?thesis
    by (auto simp: add(2) advance_fork_def Let_def)
qed

lemma supported_fork_active:
  assumes "synced hf db" and "grow bs (hf, db) = Some (hf', db')" and "\<forall>b \<in> set bs. supports hf n b"
    and "n < length (heights hf)" and "unat (window_size hf) \<le> length bs"
    and "unat (fork_height (heights hf ! n)) \<le> length (db_blocks db) + length bs" and "length (db_blocks db) + length bs < 2 ^ 64"
  shows "n \<le> current_fork_index hf'"
proof -
  have "0 < unat (window_size hf)"
    using assms(1) by (simp add: synced_def hf_ok_def word_less_nat_alt)
  with assms(5) obtain cs b where bs: "bs = cs @ [b]"
    by (cases bs rule: rev_cases) auto
  obtain hf1 db1 where cs: "grow cs (hf, db) = Some (hf1, db1)" and add: "db_add_block hf1 db1 b = Inr (True, hf', db')"
    using assms(2) unfolding bs grow_snoc by (auto simp: grow_Cons_Some simp del: grow.simps(2))
  have st: "synced hf1 db1" "heights hf1 = heights hf" "window_size hf1 = window_size hf" "db_blocks db1 = db_blocks db @ cs"
    using grow_synced [OF cs assms(1)] assms(7) by (simp_all add: bs)
  have "lastn (unat (window_size hf)) (db_blocks db1 @ [b]) = lastn (unat (window_size hf)) bs"
    using assms(5) by (simp add: lastn_def st(4) bs)
  then have "\<forall>c \<in> set (lastn (unat (window_size hf)) (db_blocks db1 @ [b])). supports hf1 n c"
    using assms(3) supports_cong [OF st(2)] by (auto simp: lastn_def dest: in_set_dropD)
  moreover have "fork_height (heights hf ! n) \<le> of_nat (Suc (length (db_blocks db1)))"
    using assms(6,7) by (simp add: st(4) bs word_le_nat_alt unat_of_nat del: of_nat_Suc of_nat_add)
  ultimately show ?thesis
    using assms(4,5,7) by (intro full_window_activates [OF st(1) add]) (simp_all add: st bs)
qed

text \<open>A block with the current version that votes for the last fork is accepted and supports every fork.\<close>

lemma supporting_block:
  assumes "synced hf db" and "n < length (heights hf)"
  shows "\<exists>b hf' db'. supports hf n b \<and> db_add_block hf db b = Inr (True, hf', db')"
proof -
  have ok: "hf_ok hf"
    using assms(1) by (simp add: synced_def)
  let ?last = "fork_version (last (heights hf))" and ?cur = "fork_version (heights hf ! current_fork_index hf)"
  let ?b = "\<lparr>major_version = ?cur, minor_version = ?last\<rparr>"
  have last: "last (heights hf) = heights hf ! (length (heights hf) - 1)" "heights hf \<noteq> []"
    using assms(2) last_conv_nth [of "heights hf"] by (cases "heights hf = []"; simp)+
  have "?cur \<le> ?last"
    using ok nth_fork_less(1) [of "heights hf" "current_fork_index hf" "length (heights hf) - 1"] last
    by (cases "current_fork_index hf < length (heights hf) - 1") (auto simp: hf_ok_def not_less intro: less_imp_le dest: le_antisym)
  moreover have vote: "?last \<le> get_block_vote ?b"
    by (simp add: get_block_vote_def)
  ultimately have "\<exists>hf' db'. db_add_block hf db ?b = Inr (True, hf', db')"
    by (auto simp: db_add_block_def hf_add_block_def hf_add_ok [OF ok] get_block_version_def Let_def)
  moreover have "get_effective_version hf (get_block_vote ?b) = ?last"
    using vote last(2) by (auto simp: get_effective_version_def Let_def)
  then have "supports hf n ?b"
    using assms(2) last_in_set [of "drop n (heights hf)"] by (auto simp: supports_def last_drop)
  ultimately show ?thesis
    by blast
qed

lemma supporting_blocks:
  assumes "synced hf db" and "n < length (heights hf)" and "length (db_blocks db) + k < 2 ^ 64"
  shows "\<exists>bs st. length bs = k \<and> (\<forall>b \<in> set bs. supports hf n b) \<and> grow bs (hf, db) = Some st"
  using assms
proof (induction k arbitrary: hf db)
  case (Suc k)
  obtain b hf1 db1 where b: "supports hf n b" "db_add_block hf db b = Inr (True, hf1, db1)"
    using supporting_block [OF Suc.prems(1,2)] by blast
  note next_state = db_add_block_synced [OF Suc.prems(1) b(2)]
  then obtain bs st where bs: "length bs = k" "\<forall>b \<in> set bs. supports hf1 n b" "grow bs (hf1, db1) = Some st"
    using Suc.IH [of hf1 db1] Suc.prems by auto
  moreover have "supports hf1 = supports hf"
    using next_state(3) Suc.prems(3) by (intro supports_cong) simp
  ultimately have "length (b # bs) = Suc k \<and> (\<forall>c \<in> set (b # bs). supports hf n c) \<and> grow (b # bs) (hf, db) = Some st"
    using b by simp
  then show ?case
    by blast
qed simp

section \<open>Properties\<close>

text \<open>A small instance: a window of three votes, two forks, and a first block.\<close>

definition sample_hf :: hardfork where
  "sample_hf = fresh [fork 1 0 0 0, fork 2 1 50 9]
     \<lparr>forked_time = 100, update_time = 50, window_size = 3, default_threshold_percent = 80, original_version = 1,
      original_version_till_height = 0, heights = [], versions = [], last_versions = (\<lambda>_. 7), current_fork_index = 0\<rparr>"

definition sample_db :: blockchain_db where
  "sample_db = \<lparr>db_blocks = [], hf_versions = Map.empty\<rparr>"

definition sample_block :: block_versions where
  "sample_block = \<lparr>major_version = 1, minor_version = 2\<rparr>"

lemma sample_heights: "heights sample_hf = [fork 1 0 0 0, fork 2 1 50 9]"
  by (simp add: sample_hf_def fresh_def)

lemma sample_ok: "heights_ok [fork 1 0 0 0, fork 2 1 50 9]"
  by (simp add: heights_ok_def fork_before_def fork_def)

lemma sample_synced: "synced sample_hf sample_db"
  unfolding sample_hf_def sample_db_def by (rule fresh_synced) (simp_all add: sample_ok)

lemma sample_add:
  "db_add_block sample_hf sample_db sample_block =
     Inr (True, advance_fork 1 (with_vote 2 sample_hf), set_hard_fork_version (store_block sample_db sample_block) 0 1)"
proof -
  have "hf_ok sample_hf"
    using sample_synced by (simp add: synced_def)
  moreover have "get_effective_version sample_hf 2 = 2"
    by (simp add: get_effective_version_def sample_heights fork_def)
  ultimately show ?thesis
    by (simp add: db_add_block_def hf_add_block_def hf_add_ok Let_def sample_heights fork_def sample_block_def
        get_block_version_def get_block_vote_def db_height_def sample_db_def)
      (simp add: sample_hf_def fresh_def)
qed

theorem restart_equivalence_witness:
  "hf_init (sample_hf\<lparr>last_versions := (\<lambda>_. 7), current_fork_index := 5\<rparr>)
     (set_hard_fork_version (store_block sample_db sample_block) 0 1) = Inr (advance_fork 1 (with_vote 2 sample_hf))"
  by (rule restart_equivalence [OF sample_synced sample_add])
    (simp_all add: sample_db_def same_setup_def sample_hf_def fresh_def)

text \<open>
  C5. Along every chain that grows from an empty database, block by accepted block: the major
  versions of the blocks never go down and are what the database records for each height,
  none is above the current version, the window holds exactly the votes of the last
  \<open>window_size\<close> blocks with their counts, and the current fork never moves back.
\<close>

theorem growing_chain_invariant:
  assumes "heights_ok hs" and "hs \<noteq> []" and "0 < window_size hf0" and "unat (window_size hf0) < 2 ^ 32"
    and "grows\<^sup>*\<^sup>* (fresh hs hf0, \<lparr>db_blocks = [], hf_versions = Map.empty\<rparr>) (hf, db)"
    and "grows\<^sup>*\<^sup>* (hf, db) (hf', db')"
  shows "sorted (map major_version (db_blocks db')) \<and>
    (\<forall>h < length (db_blocks db'). hf_versions db' (of_nat h) = Some (major_version (db_blocks db' ! h))) \<and>
    (\<forall>b \<in> set (db_blocks db'). major_version b \<le> fork_version (hs ! current_fork_index hf')) \<and>
    get_current_version hf' = Inr (fork_version (hs ! current_fork_index hf')) \<and>
    versions hf' = lastn (unat (window_size hf')) (votes hf' (db_blocks db')) \<and>
    last_versions hf' = counts (versions hf') \<and>
    current_fork_index hf \<le> current_fork_index hf'"
proof -
  note start = grows_synced [OF assms(5) fresh_synced [OF assms(1-4)]]
  have "synced hf' db'" and "heights hf' = hs" and "current_fork_index hf \<le> current_fork_index hf'"
    using start grows_synced [OF assms(6)] by (auto simp: fresh_def)
  then show ?thesis
    by (simp add: synced_def hf_ok_def get_current_version_def)
qed

lemma sample_grows:
  "grows\<^sup>*\<^sup>* (sample_hf, sample_db)
     (advance_fork 1 (with_vote 2 sample_hf), set_hard_fork_version (store_block sample_db sample_block) 0 1)"
  by (rule r_into_rtranclp, rule grows.block [OF sample_add]) (simp add: sample_db_def)

theorem growing_chain_invariant_witness:
  "let hf' = advance_fork 1 (with_vote 2 sample_hf); db' = set_hard_fork_version (store_block sample_db sample_block) 0 1 in
   sorted (map major_version (db_blocks db')) \<and> last_versions hf' = counts (versions hf') \<and>
   versions hf' = [2] \<and> current_fork_index sample_hf \<le> current_fork_index hf'"
proof -
  have steps: "grows\<^sup>*\<^sup>* (fresh [fork 1 0 0 0, fork 2 1 50 9] sample_hf, \<lparr>db_blocks = [], hf_versions = Map.empty\<rparr>) (sample_hf, sample_db)"
    by (simp add: sample_hf_def sample_db_def fresh_def)
  have window: "0 < window_size sample_hf" "unat (window_size sample_hf) < 2 ^ 32"
    by (simp_all add: sample_hf_def fresh_def)
  have "versions (advance_fork 1 (with_vote 2 sample_hf)) = [2]"
    by (simp add: lastn_def) (simp add: sample_hf_def fresh_def)
  then show ?thesis
    unfolding Let_def using growing_chain_invariant [OF sample_ok _ window steps sample_grows] by blast
qed

text \<open>
  C33. The outcome of a vote: \<open>get_voted_fork_index\<close> returns the last fork of the table
  whose height is reached and whose supporters in the window (the votes for it or for a
  later fork) are at least the rounded-up percentage of the window size; if there is none,
  the current fork stays. No wrap-around of the 32-bit counters can change the result.
\<close>

theorem voted_fork_index_correct:
  assumes "hf_ok hf"
  shows "(if \<exists>n. fork_active hf ht n
          then fork_active hf ht (get_voted_fork_index hf ht) \<and>
            (\<forall>m. get_voted_fork_index hf ht < m \<longrightarrow> \<not> fork_active hf ht m)
          else get_voted_fork_index hf ht = current_fork_index hf)"
proof -
  have "n < length (heights hf)" if "fork_active hf ht n" for n
    using that by (simp add: fork_active_def)
  then show ?thesis
    using voted_fork_loop_spec [OF assms order_refl, of 0 ht] unfolding get_voted_fork_index_def by auto
qed

theorem voted_fork_index_correct_witness:
  "hf_ok (with_vote 2 (with_vote 2 sample_hf)) \<and>
   \<not> fork_active (with_vote 2 (with_vote 2 sample_hf)) 1 (Suc (get_voted_fork_index (with_vote 2 (with_vote 2 sample_hf)) 1))"
proof -
  have "hf_ok (with_vote 2 (with_vote 2 sample_hf))"
    using sample_synced by (simp add: synced_def with_vote_ok)
  then show ?thesis
    using voted_fork_index_correct [of "with_vote 2 (with_vote 2 sample_hf)" 1] by (auto split: if_splits)
qed

text \<open>
  The two schedules agree: a version above the first is the ideal version at a height, or
  below it, exactly when the earliest height of that version has been reached. (At the
  largest 64-bit height the second function's \<open>never\<close> value would count as reached.)
\<close>

theorem ideal_version_iff_earliest_height:
  assumes "heights_ok (heights hf)" and "heights hf \<noteq> []" and "original_version hf = fork_version (heights hf ! 0)"
    and "fork_version (heights hf ! 0) < ver" and "ht \<noteq> -1" and "get_ideal_version_at hf ht = Inr v"
  shows "ver \<le> v \<longleftrightarrow> get_earliest_ideal_height_for_version hf ver \<le> ht"
proof -
  let ?hs = "heights hf"
  have "v = ideal_version_loop ?hs (original_version hf) ht (length ?hs - 1)"
    using assms(2,6) by (simp add: get_ideal_version_at_def)
  moreover have "\<forall>m. length ?hs - 1 < m \<and> m < length ?hs \<longrightarrow> \<not> (fork_height (?hs ! m) \<le> ht)"
    by auto
  ultimately have "ver \<le> v \<longleftrightarrow> (\<exists>m < length ?hs. ver \<le> fork_version (?hs ! m) \<and> fork_height (?hs ! m) \<le> ht)"
    using ideal_version_loop_ge [OF assms(1) _ assms(4) _ assms(3), of "length ?hs - 1" ht] assms(2) by simp
  also have "\<dots> \<longleftrightarrow> (\<exists>f \<in> set ?hs. ver \<le> fork_version f \<and> fork_height f \<le> ht)"
    by (metis in_set_conv_nth)
  also have "\<dots> \<longleftrightarrow> get_earliest_ideal_height_for_version hf ver \<le> ht"
    using earliest_height_loop_le [of ?hs "[]" ver "-1" ht] assms(1,5)
    by (simp add: get_earliest_ideal_height_for_version_def)
  finally show ?thesis .
qed

theorem ideal_version_iff_earliest_height_witness:
  "get_ideal_version_at sample_hf 1 = Inr 2 \<and>
   ((2 :: u8) \<le> 2 \<longleftrightarrow> get_earliest_ideal_height_for_version sample_hf 2 \<le> 1)"
proof -
  have at1: "get_ideal_version_at sample_hf 1 = Inr 2"
    by (simp add: get_ideal_version_at_def sample_heights fork_def)
  have "(2 :: u8) \<le> 2 \<longleftrightarrow> get_earliest_ideal_height_for_version sample_hf 2 \<le> 1"
    by (rule ideal_version_iff_earliest_height [OF _ _ _ _ _ at1])
      (simp_all add: sample_heights sample_ok, simp_all add: sample_hf_def fresh_def fork_def)
  with at1 show ?thesis ..
qed

text \<open>
  C34. Popping \<open>nblocks\<close> blocks ends. The database has already dropped them; its height is positive, its old height
  fits 64 bits, the versions of the dropped heights are still recorded, and the window is not empty. Then \<open>on_block_popped\<close>
  returns; the window has the recorded versions of the dropped heights in front and as many entries less at
  its end, the counts are in step with it, and the current fork is the last one whose height the
  remaining chain has reached. (The header documents the argument as the new height, and the fork as looked up in the
  database; the code takes the number of blocks and compares heights in the table of forks.)
\<close>

theorem on_block_popped_returns:
  assumes "hf_ok hf" and "versions hf \<noteq> []" and "0 < db_height db" and "0 < nblocks"
    and "unat (db_height db) + unat nblocks < 2 ^ 64"
    and "\<forall>h. db_height db \<le> h \<and> h < db_height db + nblocks \<longrightarrow> hf_versions db h \<noteq> None"
  shows "\<exists>hf'. on_block_popped hf db nblocks = Some (Inr hf') \<and> hf_ok hf' \<and>
    versions hf' = take (length (versions hf)) (recorded db (db_height db) (unat nblocks) @ versions hf) \<and>
    (current_fork_index hf' = 0 \<or> fork_height (heights hf ! current_fork_index hf') \<le> db_height db) \<and>
    (\<forall>m. current_fork_index hf' < m \<and> m < length (heights hf) \<longrightarrow> db_height db < fork_height (heights hf ! m))"
proof -
  have hts: "heights hf \<noteq> []"
    using assms(1) by (auto simp: hf_ok_def)
  obtain vs where loop: "popped_loop hf db (db_height db) (db_height db + nblocks - 1) =
      Some (Inr (hf\<lparr>versions := vs, last_versions := counts vs\<rparr>))"
      and vs: "vs = take (length (versions hf)) (recorded db (db_height db) (unat nblocks) @ versions hf)"
    using popped_loop_total [of "db_height db" "unat nblocks" db hf] assms by (auto simp: hf_ok_def)
  then have len: "length vs = length (versions hf)"
    by simp
  let ?i = "fork_at_height (heights hf) (db_height db) (length (heights hf) - 1)"
  let ?hf' = "hf\<lparr>versions := vs, last_versions := counts vs, current_fork_index := ?i\<rparr>"
  have spec: "?i \<le> length (heights hf) - 1"
      "?i = 0 \<or> fork_height (heights hf ! ?i) \<le> db_height db"
      "\<forall>m. ?i < m \<and> m \<le> length (heights hf) - 1 \<longrightarrow> db_height db < fork_height (heights hf ! m)"
    using fork_at_height_spec [of "length (heights hf) - 1" "heights hf" "db_height db"] hts by auto
  have "on_block_popped hf db nblocks = Some (Inr ?hf')"
    using assms(4) loop hts by (simp add: on_block_popped_def Let_def)
  moreover have "hf_ok ?hf'"
    using assms(1) spec(1) len hts by (cases "heights hf") (auto simp: hf_ok_def)
  ultimately show ?thesis
    using spec(2,3) vs by (intro exI [of _ ?hf']) auto
qed

theorem on_block_popped_returns_witness:
  "let hf = with_vote 2 sample_hf; db = \<lparr>db_blocks = [sample_block], hf_versions = [1 \<mapsto> 1]\<rparr> in
   \<exists>hf'. on_block_popped hf db 1 = Some (Inr hf') \<and> hf_ok hf' \<and> versions hf' = [1]"
proof -
  let ?hf = "with_vote 2 sample_hf" and ?db = "\<lparr>db_blocks = [sample_block], hf_versions = [1 \<mapsto> 1]\<rparr> :: blockchain_db"
  have ok: "hf_ok ?hf"
    using sample_synced by (simp add: synced_def with_vote_ok)
  have vs: "versions ?hf \<noteq> []"
    by (simp add: lastn_def) (simp add: sample_hf_def fresh_def)
  have ht: "db_height ?db = 1"
    by (simp add: db_height_def)
  have only: "h = 1" if "db_height ?db \<le> h" "h < db_height ?db + 1" for h
  proof -
    have "1 \<le> unat h" "unat h < 2"
      using that by (simp_all add: ht word_le_nat_alt word_less_nat_alt)
    then show ?thesis
      by (intro word_eq_of_natI [of h 1, simplified]) simp
  qed
  then have "\<forall>h. db_height ?db \<le> h \<and> h < db_height ?db + 1 \<longrightarrow> hf_versions ?db h \<noteq> None"
    by auto
  moreover have "versions ?hf = [2]"
    by (simp add: lastn_def sample_hf_def fresh_def)
  ultimately show ?thesis
    unfolding Let_def using on_block_popped_returns [OF ok vs, of ?db 1] ht by (auto simp: recorded_def)
qed

text \<open>
  The votes a pop puts back are not the ones that left the window: the front gets the
  version that was in force at the popped height, not the vote of the block that enters.
\<close>

lemma pop_does_not_undo_add:
  defines "hf \<equiv> with_vote 2 (with_vote 2 (with_vote 2 sample_hf))"
  defines "db \<equiv> \<lparr>db_blocks = [sample_block, sample_block, sample_block], hf_versions = [0 \<mapsto> 1, 1 \<mapsto> 1, 2 \<mapsto> 1, 3 \<mapsto> 1]\<rparr>"
  shows "versions hf = [2, 2, 2]" and "versions (with_vote 2 hf) = [2, 2, 2]"
    and "\<exists>hf'. on_block_popped (with_vote 2 hf) db 1 = Some (Inr hf') \<and> versions hf' = [1, 2, 2]"
proof -
  have w: "window_size sample_hf = 3" "versions sample_hf = []"
    by (simp_all add: sample_hf_def fresh_def)
  show v: "versions hf = [2, 2, 2]" and v': "versions (with_vote 2 hf) = [2, 2, 2]"
    by (simp_all add: hf_def lastn_def w)
  have ok: "hf_ok (with_vote 2 hf)"
    using sample_synced by (simp add: synced_def with_vote_ok hf_def)
  have ht: "db_height db = 3"
    by (simp add: db_def db_height_def)
  have "hf_versions db 3 = Some 1"
    by (simp add: db_def)
  then have "pop_version (with_vote 2 hf) db 3 =
      Inr ((with_vote 2 hf)\<lparr>versions := [1, 2, 2], last_versions := counts [1, 2, 2]\<rparr>)"
    using pop_version_ok [of "with_vote 2 hf" db 3 1] ok v' by (simp add: hf_ok_def Let_def del: counts_simps)
  moreover have "popped_loop hf' db 3 2 = Some (Inr hf')" for hf'
    by (subst popped_loop.simps) simp
  ultimately have "popped_loop (with_vote 2 hf) db 3 3 =
      Some (Inr ((with_vote 2 hf)\<lparr>versions := [1, 2, 2], last_versions := counts [1, 2, 2]\<rparr>))"
    by (subst popped_loop.simps) (simp del: counts_simps)
  moreover have "heights hf \<noteq> []"
    using ok by (auto simp: hf_ok_def)
  ultimately show "\<exists>hf'. on_block_popped (with_vote 2 hf) db 1 = Some (Inr hf') \<and> versions hf' = [1, 2, 2]"
    by (simp add: on_block_popped_def Let_def ht)
qed

lemma fork_before_trans: "fork_before f g \<Longrightarrow> fork_before g k \<Longrightarrow> fork_before f k"
  by (auto simp: fork_before_def)

lemma sorted_forks_snoc:
  assumes "sorted_wrt fork_before hs" and "hs = [] \<or> fork_before (last hs) g"
  shows "sorted_wrt fork_before (hs @ [g])"
proof (cases hs rule: rev_cases)
  case (snoc hs' f)
  then show ?thesis
    using assms fork_before_trans [of _ f g] by (auto simp: sorted_wrt_append)
qed simp

lemma add_fork_ordered:
  assumes "heights_ok (heights hf)"
  shows "heights_ok (heights (snd (add_fork hf ver ht thr tm)))"
proof (cases "fst (add_fork hf ver ht thr tm)")
  case False
  then show ?thesis
    using assms by (auto simp: add_fork_def split: if_splits)
next
  case True
  let ?g = "\<lparr>fork_version = ver, fork_height = ht, fork_threshold = thr, fork_time = tm\<rparr>"
  have "heights (snd (add_fork hf ver ht thr tm)) = heights hf @ [?g]" and "thr \<le> 100"
    and "heights hf = [] \<or> fork_before (last (heights hf)) ?g"
    using True by (auto simp: add_fork_def fork_before_def not_le not_less split: if_splits)
  then show ?thesis
    using assms sorted_forks_snoc [of "heights hf" ?g] by (simp add: heights_ok_def)
qed

text \<open>
  The table is always in order: whatever entries are passed to \<open>add_fork\<close>, one after the
  other, the forks that are kept are strictly increasing in version, height and time, with
  thresholds of at most 100 percent.
\<close>

theorem add_forks_ordered:
  assumes "heights hf = []"
  shows "heights_ok (heights (add_forks fs hf))"
proof -
  have "heights_ok (heights (fold (\<lambda>f hf. snd (add_fork hf (fork_version f) (fork_height f) (fork_threshold f) (fork_time f))) fs hf))"
    if "heights_ok (heights hf)" for hf
    using that by (induction fs arbitrary: hf) (simp_all add: add_fork_ordered)
  then show ?thesis
    using assms by (simp add: add_forks_def heights_ok_def)
qed

theorem add_forks_ordered_witness:
  "heights (sample_hf\<lparr>heights := []\<rparr>) = [] \<and>
   heights_ok (heights (add_forks [fork 1 1 0 5, fork 3 1 0 6, fork 4 9 20 7] (sample_hf\<lparr>heights := []\<rparr>)))"
  by (rule conjI [OF _ add_forks_ordered]) simp_all

text \<open>
  C35. The network's own table loses its second entry: version 12 is scheduled for height 1, the
  height of version 1, so \<open>add_fork\<close> refuses it (and \<open>Blockchain::init\<close> does not look).
  On every chain that grows from there, the blocks accepted are exactly those of major
  version 1, and version 12 is never the current one.
\<close>

theorem mainnet_version_12_never_active:
  assumes "mainnet_hardfork garbage = Inr hf0" and "hf_init hf0 \<lparr>db_blocks = [], hf_versions = Map.empty\<rparr> = Inr hf1"
    and "grows\<^sup>*\<^sup>* (hf1, \<lparr>db_blocks = [], hf_versions = Map.empty\<rparr>) (hf, db)"
  shows "get_current_version hf = Inr 1 \<and> check hf b = Inr (major_version b = 1)"
proof -
  have hf1: "hf1 = fresh [fork 1 1 0 1571677259] hf0" and w: "window_size hf0 = 10080"
    using assms(1,2) by (auto simp: mainnet_hardfork_eq init_empty_db)
  have "heights_ok [fork 1 1 0 1571677259]"
    by (simp add: heights_ok_def fork_def)
  then have "synced hf1 \<lparr>db_blocks = [], hf_versions = Map.empty\<rparr>"
    unfolding hf1 by (rule fresh_synced) (simp_all add: w)
  then have "synced hf db" and hts: "heights hf = [fork 1 1 0 1571677259]"
    using grows_synced [OF assms(3)] by (simp_all add: hf1 fresh_def)
  then have ok: "hf_ok hf" and idx: "current_fork_index hf = 0"
    by (simp_all add: synced_def hf_ok_def)
  have "1 \<le> get_block_vote b"
    by (cases "minor_version b = 0") (simp_all add: get_block_vote_def word_le_nat_alt Suc_le_eq word_unat_eq_iff)
  then show ?thesis
    by (simp add: get_current_version_def check_def do_check_ok [OF ok] hts idx fork_def get_block_version_def)
qed

theorem mainnet_version_12_never_active_witness:
  "\<exists>hf0 hf1. mainnet_hardfork (\<lambda>_. 7) = Inr hf0 \<and> hf_init hf0 \<lparr>db_blocks = [], hf_versions = Map.empty\<rparr> = Inr hf1 \<and>
     get_current_version hf1 = Inr 1 \<and> check hf1 \<lparr>major_version = 12, minor_version = 12\<rparr> = Inr False"
proof -
  obtain hf0 where hf0: "mainnet_hardfork (\<lambda>_. 7) = Inr hf0"
    by (simp add: mainnet_hardfork_eq)
  moreover obtain hf1 where hf1: "hf_init hf0 \<lparr>db_blocks = [], hf_versions = Map.empty\<rparr> = Inr hf1"
    using hf0 by (auto simp: mainnet_hardfork_eq init_empty_db)
  ultimately show ?thesis
    using mainnet_version_12_never_active [OF hf0 hf1 rtranclp.rtrancl_refl, of "\<lparr>major_version = 12, minor_version = 12\<rparr>"]
    by simp
qed

text \<open>
  The state reported to the user only gets worse with time: with the update delay not above
  the fork delay, from \<open>Ready\<close> over \<open>UpdateNeeded\<close> to \<open>LikelyForked\<close>, never back.
\<close>

theorem get_state_antimono:
  assumes "update_time hf \<le> forked_time hf" and "t \<le> t'"
  shows "get_state hf t' \<le> get_state hf t"
  using assms by (auto simp: get_state_def Let_def less_eq_fork_state_def)

theorem get_state_antimono_witness:
  "update_time sample_hf \<le> forked_time sample_hf \<and> get_state sample_hf 70 \<le> get_state sample_hf 10"
  by (rule conjI [OF _ get_state_antimono]) (simp_all add: sample_hf_def fresh_def)

text \<open>
  C9. Upgrades happen: from every state that a chain from an empty database reaches, and for every fork \<open>n\<close> of the table, a
  continuation of \<open>k\<close> blocks that all vote for it exists and is accepted; and whenever \<open>k\<close> such blocks are accepted, \<open>k\<close> fills
  the window and the chain reaches the height of the fork, the fork or a later one is in force.
\<close>

theorem fork_activates:
  assumes "heights_ok hs" and "hs \<noteq> []" and "0 < window_size hf0" and "unat (window_size hf0) < 2 ^ 32"
    and "grow bs0 (fresh hs hf0, \<lparr>db_blocks = [], hf_versions = Map.empty\<rparr>) = Some (hf, db)" and "length bs0 + k < 2 ^ 64"
    and "n < length hs" and "unat (window_size hf0) \<le> k" and "unat (fork_height (hs ! n)) \<le> length bs0 + k"
  shows "(\<exists>bs. length bs = k \<and> (\<forall>b \<in> set bs. supports hf n b) \<and> grow bs (hf, db) \<noteq> None) \<and>
    (\<forall>bs hf' db'. length bs = k \<and> (\<forall>b \<in> set bs. supports hf n b) \<and> grow bs (hf, db) = Some (hf', db') \<longrightarrow>
      n \<le> current_fork_index hf' \<and> get_current_version hf' = Inr (fork_version (hs ! current_fork_index hf')))"
proof (intro conjI allI impI)
  have start: "synced hf db" "heights hf = hs" "window_size hf = window_size hf0" "db_blocks db = bs0"
    using grow_synced [OF assms(5) fresh_synced [OF assms(1-4)]] assms(6) by (simp_all add: fresh_def)
  show "\<exists>bs. length bs = k \<and> (\<forall>b \<in> set bs. supports hf n b) \<and> grow bs (hf, db) \<noteq> None"
    using supporting_blocks [OF start(1), of n k] assms(6,7) by (auto simp: start)
  fix bs hf' db'
  assume run: "length bs = k \<and> (\<forall>b \<in> set bs. supports hf n b) \<and> grow bs (hf, db) = Some (hf', db')"
  show "n \<le> current_fork_index hf'"
    by (rule supported_fork_active [OF start(1), of bs hf' db' n]) (use run assms in \<open>simp_all add: start\<close>)
  show "get_current_version hf' = Inr (fork_version (hs ! current_fork_index hf'))"
    using grow_synced [OF _ start(1), of bs hf' db'] run assms(6) by (auto simp: start synced_def hf_ok_def get_current_version_def)
qed

theorem fork_activates_witness:
  "\<exists>bs hf db. length bs = 3 \<and> grow bs (sample_hf, sample_db) = Some (hf, db) \<and> 1 \<le> current_fork_index hf"
proof -
  have start: "grow [] (fresh [fork 1 0 0 0, fork 2 1 50 9] sample_hf, \<lparr>db_blocks = [], hf_versions = Map.empty\<rparr>) = Some (sample_hf, sample_db)"
    by (simp add: sample_hf_def sample_db_def fresh_def)
  have window: "0 < window_size sample_hf" "unat (window_size sample_hf) < 2 ^ 32" "unat (window_size sample_hf) \<le> 3"
    by (simp_all add: sample_hf_def fresh_def)
  show ?thesis
    using fork_activates [OF sample_ok _ window(1,2) start, of 3 1] window(3) by (fastforce simp: fork_def)
qed

end
