(* ===== verification/I18n.thy ===== *)
theory I18n
  imports Gyro_Prelude
begin

unbundle bit_operations_syntax

text \<open>
  The run-time side of the translations, \<open>src/common/i18n.cpp\<close>: the choice of the language
  from the environment, the search for a compiled catalogue on disk and among the embedded
  files, the parser of the QM format, and the lookup \<open>i18n_translate\<close>.

  A \<open>std::string\<close> of text is a HOL \<open>string\<close> (a \<open>char\<close> is a byte); the contents of a
  file are a list of bytes. The file system is a parameter: which files exist and what
  loading one returns. Every read of the file contents is made through an accessor that
  returns \<open>None\<close> outside the buffer, and such a read makes the parser \<open>Fault\<close>; that
  this never happens is a theorem, not an assumption.
\<close>

section \<open>Choice of the language\<close>

definition MAX_LANGUAGE_SIZE :: nat where
  "MAX_LANGUAGE_SIZE = 16"

definition language_chars :: string where
  "language_chars = ''abcdefghijklmnopqrstuvwxyzABCDEFGHIJKLMNOPQRSTUVWXYZ_-.@''"

text \<open>\<open>tolower\<close> of the C locale.\<close>

definition c_tolower :: "char \<Rightarrow> char" where
  "c_tolower c =
     (if 65 \<le> (of_char c :: nat) \<and> (of_char c :: nat) \<le> 90 then char_of ((of_char c :: nat) + 32) else c)"

text \<open>\<open>!e || !*e\<close>: the variable is not set, or set to the empty string.\<close>

fun unset_or_empty :: "string option \<Rightarrow> bool" where
  "unset_or_empty None = True"
| "unset_or_empty (Some s) = (s = [])"

definition i18n_get_language :: "string option \<Rightarrow> string option \<Rightarrow> string" where
  "i18n_get_language env_lang env_lc_all =
     (let e = env_lang;
          e = (if unset_or_empty e then env_lc_all else e);
          e = (if unset_or_empty e then Some ''en'' else e);
          language = (case e of None \<Rightarrow> [] | Some s \<Rightarrow> s);
          language = takeWhile (\<lambda>c. c \<noteq> CHR ''.'') language;
          language = takeWhile (\<lambda>c. c \<noteq> CHR ''@'') language
      in if \<not> list_all (\<lambda>c. c \<in> set language_chars) language then ''en''
         else
           (let language = map c_tolower language in
            if MAX_LANGUAGE_SIZE < length language then ''en'' else language))"

section \<open>Byte-level decoding\<close>

definition qm_magic :: blob where
  "qm_magic = [0x3c, 0xb8, 0x64, 0x18, 0xca, 0xef, 0x9c, 0x95,
               0xcd, 0x21, 0x1c, 0xbf, 0x60, 0xa1, 0xbd, 0xdd]"

text \<open>Checked accesses to the buffer \<open>data\<close>.\<close>

definition byte_at :: "blob \<Rightarrow> nat \<Rightarrow> byte option" where
  "byte_at data i = (if i < length data then Some (data ! i) else None)"

definition slice :: "blob \<Rightarrow> nat \<Rightarrow> nat \<Rightarrow> blob option" where
  "slice data i n = (if i + n \<le> length data then Some (take n (drop i data)) else None)"

fun be32 :: "blob \<Rightarrow> u32" where
  "be32 (a # b # c # d # _) =
     push_bit 24 (ucast a) OR push_bit 16 (ucast b) OR push_bit 8 (ucast c) OR ucast d"
| "be32 _ = 0"

definition be32_at :: "blob \<Rightarrow> nat \<Rightarrow> u32 option" where
  "be32_at data i = map_option be32 (slice data i 4)"

text \<open>
  \<open>s += x\<close> for an integer \<open>x\<close>: the low eight bits become a \<open>char\<close>.
\<close>

definition to_char :: "u32 \<Rightarrow> char" where
  "to_char x = char_of (unat (ucast x :: byte))"

text \<open>The branch of \<open>utf16\<close> that appends one code point to the result.\<close>

definition utf16_append :: "u32 \<Rightarrow> string" where
  "utf16_append code =
     (if code \<le> 0x7f then [to_char code]
      else if code \<le> 0x7ff then
        [to_char (0xc0 OR drop_bit 6 code), to_char (0x80 OR (code AND 0x3f))]
      else if code \<le> 0xffff then
        [to_char (0xe0 OR drop_bit 12 code), to_char (0x80 OR (drop_bit 6 code AND 0x3f)),
         to_char (0x80 OR (code AND 0x3f))]
      else
        [to_char (0xf0 OR drop_bit 18 code), to_char (0x80 OR (drop_bit 12 code AND 0x3f)),
         to_char (0x80 OR (drop_bit 6 code AND 0x3f)), to_char (0x80 OR (code AND 0x3f))])"

definition utf16_unit :: "byte \<Rightarrow> byte \<Rightarrow> u32" where
  "utf16_unit hi lo = push_bit 8 (ucast hi) OR ucast lo"

text \<open>The upper bound \<open>0xdbfff\<close> of the first test is the source's.\<close>

fun utf16 :: "blob \<Rightarrow> string" where
  "utf16 (a # b # c # d # data) =
     (let code = utf16_unit a b; next_unit = utf16_unit c d in
      if 0xd800 \<le> code \<and> code \<le> 0xdbfff \<and> 0xdc00 \<le> next_unit \<and> next_unit \<le> 0xdfff then
        utf16_append (push_bit 10 code + next_unit - 0x35dfc00) @ utf16 data
      else utf16_append code @ utf16 (c # d # data))"
| "utf16 (a # b # data) = utf16_append (utf16_unit a b) @ utf16 data"
| "utf16 _ = []"

definition utf8 :: "blob \<Rightarrow> string" where
  "utf8 data = map (\<lambda>b. char_of (unat b)) data"

section \<open>The QM parser\<close>

text \<open>
  How a parsing step ends: a read outside the buffer, \<open>return -1\<close>, or a value to go on with.
\<close>

datatype 'a load = Fault | Reject | Accept 'a

fun fetch :: "'b option \<Rightarrow> ('b \<Rightarrow> 'a load) \<Rightarrow> 'a load" where
  "fetch None k = Fault"
| "fetch (Some x) k = k x"

record qm_index =
  num_messages :: u32
  messages_idx :: u32
  offsets_idx :: u32

definition qm_index_init :: qm_index where
  "qm_index_init = \<lparr>num_messages = -1, messages_idx = -1, offsets_idx = -1\<rparr>"

definition qm_index_chunk :: "byte \<Rightarrow> u32 \<Rightarrow> nat \<Rightarrow> qm_index \<Rightarrow> qm_index" where
  "qm_index_chunk chunk_type chunk_size idx ix =
     (if chunk_type = 0x42 then
        ix\<lparr>offsets_idx := of_nat idx, num_messages := chunk_size div 8\<rparr>
      else if chunk_type = 0x69 then ix\<lparr>messages_idx := of_nat idx\<rparr>
      else ix)"

text \<open>The loop over the chunks of the file.\<close>

function scan_chunks :: "blob \<Rightarrow> nat \<Rightarrow> qm_index \<Rightarrow> qm_index load" where
  "scan_chunks data idx ix =
     (if idx < length data then
        if length data < idx + 5 then Reject
        else
          fetch (byte_at data idx) (\<lambda>chunk_type.
          fetch (be32_at data (idx + 1)) (\<lambda>chunk_size.
            if length data \<le> unat chunk_size \<or> length data - unat chunk_size < idx + 5 then Reject
            else scan_chunks data (idx + 5 + unat chunk_size)
                   (qm_index_chunk chunk_type chunk_size (idx + 5) ix)))
      else Accept ix)"
  by pat_completeness auto
termination
  by (relation "measure (\<lambda>(data, idx, ix). length data - idx)") auto

text \<open>The string variables \<open>translation\<close>, \<open>source\<close> and \<open>context\<close> of the function.\<close>

record qm_message =
  translation :: string
  "source" :: string
  msgctxt :: string

definition qm_message_init :: qm_message where
  "qm_message_init = \<lparr>translation = [], source = [], msgctxt = []\<rparr>"

definition qm_field :: "byte \<Rightarrow> blob \<Rightarrow> qm_message \<Rightarrow> qm_message" where
  "qm_field chunk_type chunk msg =
     (if chunk_type = 0x03 then msg\<lparr>translation := utf16 chunk\<rparr>
      else if chunk_type = 0x06 then msg\<lparr>source := utf8 chunk\<rparr>
      else if chunk_type = 0x07 then msg\<lparr>msgctxt := utf8 chunk\<rparr>
      else msg)"

text \<open>The \<open>while (1)\<close> loop that reads the fields of one message up to its end tag.\<close>

function scan_message :: "blob \<Rightarrow> nat \<Rightarrow> qm_message \<Rightarrow> qm_message load" where
  "scan_message data idx msg =
     (if length data < idx + 5 then Reject
      else
        fetch (byte_at data idx) (\<lambda>chunk_type.
          if chunk_type = 0x01 then Accept msg
          else
            fetch (be32_at data (idx + 1)) (\<lambda>chunk_size.
              if length data \<le> unat chunk_size \<or> length data - unat chunk_size < idx + 5 then Reject
              else
                fetch (slice data (idx + 5) (unat chunk_size)) (\<lambda>chunk.
                  scan_message data (idx + 5 + unat chunk_size) (qm_field chunk_type chunk msg)))))"
  by pat_completeness auto
termination
  by (relation "measure (\<lambda>(data, idx, msg). length data - idx)") auto

type_synonym i18n_entries = "string \<Rightarrow> string option"

text \<open>\<open>context + std::string("", 1) + source\<close>: the separator is one NUL character.\<close>

definition i18n_key :: "string \<Rightarrow> string \<Rightarrow> string" where
  "i18n_key ctxt src = ctxt @ [CHR 0x00] @ src"

text \<open>
  The loop over the messages, from message \<open>m\<close> on. It returns \<open>None\<close> on a fault, else
  the return code with the entries as they are then: a rejected file keeps the messages
  read before the defect.
\<close>

function load_messages ::
  "blob \<Rightarrow> qm_index \<Rightarrow> nat \<Rightarrow> i18n_entries \<Rightarrow> (int \<times> i18n_entries) option" where
  "load_messages data ix m entries =
     (if m < unat (num_messages ix) then
        (case be32_at data (unat (offsets_idx ix) + m * 8 + 4) of
           None \<Rightarrow> None
         | Some offset \<Rightarrow>
             (let idx = unat offset + unat (messages_idx ix) in
              if length data < idx \<or> length data < idx + 1 then Some (-1, entries)
              else
                (case scan_message data idx qm_message_init of
                   Fault \<Rightarrow> None
                 | Reject \<Rightarrow> Some (-1, entries)
                 | Accept msg \<Rightarrow>
                     load_messages data ix (Suc m)
                       (entries(i18n_key (msgctxt msg) (source msg) \<mapsto> translation msg)))))
      else Some (0, entries))"
  by pat_completeness auto
termination
  by (relation "measure (\<lambda>(data, ix, m, entries). unat (num_messages ix) - m)") auto

definition load_qm :: "blob \<Rightarrow> i18n_entries \<Rightarrow> (int \<times> i18n_entries) option" where
  "load_qm data entries =
     (if length data < length qm_magic \<or> take (length qm_magic) data \<noteq> qm_magic then Some (-1, entries)
      else
        (case scan_chunks data (length qm_magic) qm_index_init of
           Fault \<Rightarrow> None
         | Reject \<Rightarrow> Some (-1, entries)
         | Accept ix \<Rightarrow>
             if offsets_idx ix = -1 then Some (-1, entries)
             else if messages_idx ix = -1 then Some (-1, entries)
             else load_messages data ix 0 entries))"

section \<open>Finding the catalogue and translating\<close>

text \<open>
  \<open>find_embedded_file\<close>, as \<open>translations/generate_translations_header.c\<close> emits it:
  the first embedded file of that name.
\<close>

fun find_embedded_file :: "(string \<times> blob) list \<Rightarrow> string \<Rightarrow> blob option" where
  "find_embedded_file [] name = None"
| "find_embedded_file ((n, d) # files) name = (if n = name then Some d else find_embedded_file files name)"

text \<open>
  The host: \<open>getenv\<close>, \<open>boost::filesystem::exists\<close> and \<open>load_file_to_string\<close>
  are library calls, so they are parameters.
\<close>

record host =
  env_LANG :: "string option"
  env_LC_ALL :: "string option"
  file_exists :: "string \<Rightarrow> bool"
  load_file_to_string :: "string \<Rightarrow> blob option"
  embedded_files :: "(string \<times> blob) list"

definition qm_name :: "string \<Rightarrow> string \<Rightarrow> string" where
  "qm_name base language = base @ ''_'' @ language @ ''.qm''"

text \<open>What a reader of \<open>s.c_str()\<close> sees.\<close>

definition c_str :: "string \<Rightarrow> string" where
  "c_str s = takeWhile (\<lambda>c. c \<noteq> CHR 0x00) s"

text \<open>The contents of the catalogue that is used, \<open>None\<close> for \<open>return -1\<close>.\<close>

definition find_catalogue :: "host \<Rightarrow> string \<Rightarrow> string \<Rightarrow> string \<Rightarrow> blob option" where
  "find_catalogue h directory base language =
     (let filename = directory @ ''/'' @ qm_name base language in
      if file_exists h filename then load_file_to_string h filename
      else
        (case find_embedded_file (embedded_files h) (qm_name base language) of
           Some contents \<Rightarrow> Some contents
         | None \<Rightarrow>
             if CHR ''_'' \<in> set (c_str language) then
               (let fallback_language = takeWhile (\<lambda>c. c \<noteq> CHR ''_'') language;
                    filename = directory @ ''/'' @ qm_name base fallback_language in
                if file_exists h filename then load_file_to_string h filename
                else find_embedded_file (embedded_files h) (qm_name base fallback_language))
             else None))"

definition i18n_set_language ::
  "host \<Rightarrow> string option \<Rightarrow> string option \<Rightarrow> string \<Rightarrow> i18n_entries \<Rightarrow> (int \<times> i18n_entries) option" where
  "i18n_set_language h directory base language entries =
     (case (directory, base) of
        (Some dir, Some bas) \<Rightarrow>
          (let language = (if language = [] then i18n_get_language (env_LANG h) (env_LC_ALL h) else language) in
           case find_catalogue h dir bas language of
             None \<Rightarrow> Some (-1, entries)
           | Some contents \<Rightarrow> load_qm contents entries)
      | _ \<Rightarrow> Some (-1, entries))"

definition i18n_translate :: "i18n_entries \<Rightarrow> string \<Rightarrow> string \<Rightarrow> string" where
  "i18n_translate entries s ctxt =
     (case entries (i18n_key ctxt s) of None \<Rightarrow> s | Some t \<Rightarrow> c_str t)"

text \<open>
  Reference layout of a QM file, from the comment in \<open>i18n_set_language\<close>: a chunk is a
  type, a big-endian length and the data; a message is a list of such fields closed by the
  tag 1; the offsets chunk is a table of (unused hash, offset of a message); any other
  chunks may follow.
\<close>

definition be32_bytes :: "nat \<Rightarrow> blob" where
  "be32_bytes n = [of_nat (n div 2 ^ 24), of_nat (n div 2 ^ 16 mod 256), of_nat (n div 2 ^ 8 mod 256), of_nat (n mod 256)]"

definition qm_chunk :: "byte \<Rightarrow> blob \<Rightarrow> blob" where
  "qm_chunk ty body = ty # be32_bytes (length body) @ body"

type_synonym qm_fields = "(byte \<times> blob) list"

definition qm_record :: "qm_fields \<Rightarrow> blob" where
  "qm_record flds = concat (map (\<lambda>(t, b). qm_chunk t b) flds) @ [0x01]"

definition qm_offset :: "qm_fields list \<Rightarrow> nat \<Rightarrow> nat" where
  "qm_offset recs k = length (concat (map qm_record (take k recs)))"

definition qm_table :: "(nat \<times> nat) list \<Rightarrow> qm_fields list \<Rightarrow> blob" where
  "qm_table tbl recs = concat (map (\<lambda>(hash, k). be32_bytes hash @ be32_bytes (qm_offset recs k)) tbl)"

definition qm_file :: "(nat \<times> nat) list \<Rightarrow> qm_fields list \<Rightarrow> (byte \<times> blob) list \<Rightarrow> blob" where
  "qm_file tbl recs extra =
     qm_magic @ qm_chunk 0x42 (qm_table tbl recs) @ qm_chunk 0x69 (concat (map qm_record recs))
       @ concat (map (\<lambda>(t, b). qm_chunk t b) extra)"

text \<open>What the fields of a message, read in their order, amount to.\<close>

definition qm_decode :: "qm_fields \<Rightarrow> qm_message" where
  "qm_decode flds = fold (\<lambda>(t, b). qm_field t b) flds qm_message_init"

definition qm_store :: "qm_fields \<Rightarrow> i18n_entries \<Rightarrow> i18n_entries" where
  "qm_store flds entries =
     (let msg = qm_decode flds in entries(i18n_key (msgctxt msg) (source msg) \<mapsto> translation msg))"

text \<open>
  Reference encodings of a Unicode scalar value, by arithmetic on its number: UTF-16 in
  big-endian order, which is what a catalogue holds, and UTF-8, which is what the program
  prints.
\<close>

definition scalar_value :: "nat \<Rightarrow> bool" where
  "scalar_value cp \<longleftrightarrow> cp < 0xd800 \<or> 0xdfff < cp \<and> cp \<le> 0x10ffff"

definition utf16be_unit :: "nat \<Rightarrow> blob" where
  "utf16be_unit u = [of_nat (u div 256), of_nat (u mod 256)]"

definition utf16be_encode :: "nat \<Rightarrow> blob" where
  "utf16be_encode cp =
     (if cp < 0x10000 then utf16be_unit cp
      else utf16be_unit (0xd800 + (cp - 0x10000) div 1024) @ utf16be_unit (0xdc00 + (cp - 0x10000) mod 1024))"

definition utf8_encode :: "nat \<Rightarrow> string" where
  "utf8_encode cp = map char_of
     (if cp < 0x80 then [cp]
      else if cp < 0x800 then [0xc0 + cp div 64, 0x80 + cp mod 64]
      else if cp < 0x10000 then [0xe0 + cp div 4096, 0x80 + cp div 64 mod 64, 0x80 + cp mod 64]
      else [0xf0 + cp div 262144, 0x80 + cp div 4096 mod 64, 0x80 + cp div 64 mod 64, 0x80 + cp mod 64])"

text \<open>
  The fields of the message with a context, a source text and a translation, as
  \<open>lrelease\<close> writes them.
\<close>

definition text_bytes :: "string \<Rightarrow> blob" where
  "text_bytes s = map (\<lambda>c. of_nat (of_char c)) s"

definition message_fields :: "string \<times> string \<times> nat list \<Rightarrow> qm_fields" where
  "message_fields = (\<lambda>(ctxt, src, cps).
     [(0x03, concat (map utf16be_encode cps)), (0x06, text_bytes src), (0x07, text_bytes ctxt)])"

declare scan_chunks.simps [simp del] scan_message.simps [simp del] load_messages.simps [simp del]

section \<open>Big-endian integers\<close>

lemma unat_ucast_byte_u32 [simp, byte_simps]: "unat (ucast (b :: byte) :: u32) = unat b"
  using unat_byte_less [of b] by (simp add: unsigned_ucast_eq take_bit_nat_eq_self)

lemma unat_be32:
  "unat (be32 (a # b # c # d # rest)) = unat a * 2 ^ 24 + unat b * 2 ^ 16 + unat c * 2 ^ 8 + unat d"
proof -
  note ranges = unat_byte_less [of a] unat_byte_less [of b] unat_byte_less [of c] unat_byte_less [of d]
  have "be32 (a # b # c # d # rest) =
      ((ucast d OR push_bit 8 (ucast c)) OR push_bit 16 (ucast b)) OR push_bit 24 (ucast a)"
    by (simp add: ac_simps)
  moreover have "unat (ucast d OR push_bit 8 (ucast c) :: u32) = unat d + unat c * 2 ^ 8"
    using ranges by (subst unat_or_push_bit) simp_all
  moreover from this have "unat ((ucast d OR push_bit 8 (ucast c)) OR push_bit 16 (ucast b) :: u32)
      = unat d + unat c * 2 ^ 8 + unat b * 2 ^ 16"
    using ranges by (subst unat_or_push_bit) simp_all
  moreover from this have "unat (((ucast d OR push_bit 8 (ucast c)) OR push_bit 16 (ucast b)) OR push_bit 24 (ucast a) :: u32)
      = unat d + unat c * 2 ^ 8 + unat b * 2 ^ 16 + unat a * 2 ^ 24"
    using ranges by (subst unat_or_push_bit) simp_all
  ultimately show ?thesis
    by simp
qed

declare be32.simps [simp del]

lemma length_be32_bytes [simp]: "length (be32_bytes n) = 4"
  by (simp add: be32_bytes_def)

lemma base256_digits: "n = n div 2 ^ 24 * 2 ^ 24 + n div 2 ^ 16 mod 256 * 2 ^ 16 + n div 2 ^ 8 mod 256 * 2 ^ 8 + n mod 256"
  for n :: nat
proof -
  define p q r where "p = n div 256" and "q = p div 256" and "r = q div 256"
  have "n = p * 256 + n mod 256" and "p = q * 256 + p mod 256" and "q = r * 256 + q mod 256"
    by (simp_all add: p_def q_def r_def)
  then have "n = r * 2 ^ 24 + q mod 256 * 2 ^ 16 + p mod 256 * 2 ^ 8 + n mod 256"
    by simp
  moreover have "n div 2 ^ 24 = r" and "n div 2 ^ 16 = q" and "n div 2 ^ 8 = p"
    by (simp_all add: p_def q_def r_def flip: div_mult2_eq)
  ultimately show ?thesis
    by simp
qed

lemma be32_be32_bytes:
  assumes "n < 2 ^ 32"
  shows "unat (be32 (be32_bytes n @ rest)) = n"
proof -
  have "n div 2 ^ 24 < 256"
    using assms by (simp add: less_mult_imp_div_less)
  then show ?thesis
    using base256_digits [of n] by (simp add: be32_bytes_def unat_be32 unat_of_nat_byte)
qed

section \<open>Every read is inside the file\<close>

lemma be32_at_Some: "i + 4 \<le> length data \<Longrightarrow> be32_at data i = Some (be32 (take 4 (drop i data)))"
  by (simp add: be32_at_def slice_def)

text \<open>The two loops, unfolded once, with the reads resolved by the preceding length test.\<close>

lemma scan_chunks_step:
  assumes "idx + 5 \<le> length data"
  shows "scan_chunks data idx ix =
    (let chunk_size = be32 (take 4 (drop (idx + 1) data)) in
     if length data < idx + 5 + unat chunk_size then Reject
     else scan_chunks data (idx + 5 + unat chunk_size) (qm_index_chunk (data ! idx) chunk_size (idx + 5) ix))"
  using assms
  by (subst scan_chunks.simps) (auto simp: byte_at_def be32_at_Some Let_def)

lemma scan_message_step:
  assumes "idx + 5 \<le> length data" and "data ! idx \<noteq> 0x01"
  shows "scan_message data idx msg =
    (let chunk_size = be32 (take 4 (drop (idx + 1) data)) in
     if length data < idx + 5 + unat chunk_size then Reject
     else scan_message data (idx + 5 + unat chunk_size)
            (qm_field (data ! idx) (take (unat chunk_size) (drop (idx + 5) data)) msg))"
  using assms
  by (subst scan_message.simps) (auto simp: byte_at_def be32_at_Some slice_def Let_def)

lemma scan_message_end:
  "idx + 5 \<le> length data \<Longrightarrow> data ! idx = 0x01 \<Longrightarrow> scan_message data idx msg = Accept msg"
  by (subst scan_message.simps) (simp add: byte_at_def)

lemma scan_message_short: "length data < idx + 5 \<Longrightarrow> scan_message data idx msg = Reject"
  by (subst scan_message.simps) simp

lemma scan_message_no_fault: "scan_message data idx msg \<noteq> Fault"
proof (induction "length data - idx" arbitrary: idx msg rule: less_induct)
  case less
  consider "length data < idx + 5" | "idx + 5 \<le> length data" "data ! idx = 0x01"
    | "idx + 5 \<le> length data" "data ! idx \<noteq> 0x01"
    by linarith
  then show ?case
  proof cases
    case 3
    then show ?thesis
      using less by (subst scan_message_step) (auto simp: Let_def)
  qed (simp_all add: scan_message_end scan_message_short)
qed

text \<open>The offsets table found by the chunk loop lies inside the file.\<close>

definition index_in_file :: "blob \<Rightarrow> qm_index \<Rightarrow> bool" where
  "index_in_file data ix \<longleftrightarrow>
     offsets_idx ix = -1 \<or> unat (offsets_idx ix) + unat (num_messages ix) * 8 \<le> length data"

lemma index_in_file_chunk:
  assumes "index_in_file data ix" and "idx + unat chunk_size \<le> length data" and "length data < 2 ^ 32"
  shows "index_in_file data (qm_index_chunk ty chunk_size idx ix)"
proof -
  have "unat (of_nat idx :: u32) = idx"
    using assms(2,3) by (simp add: unat_of_nat)
  moreover have "unat (chunk_size div 8) * 8 \<le> unat chunk_size"
    by (simp add: unat_div_distrib)
  ultimately show ?thesis
    using assms(1,2) by (auto simp: index_in_file_def qm_index_chunk_def)
qed

lemma scan_chunks_in_file:
  assumes "length data < 2 ^ 32" and "index_in_file data ix"
  shows "scan_chunks data idx ix \<noteq> Fault \<and> (\<forall>ix'. scan_chunks data idx ix = Accept ix' \<longrightarrow> index_in_file data ix')"
  using assms(2)
proof (induction "length data - idx" arbitrary: idx ix rule: less_induct)
  case less
  consider "length data \<le> idx" | "idx < length data" "length data < idx + 5" | "idx + 5 \<le> length data"
    by linarith
  then show ?case
  proof cases
    case 3
    let ?size = "be32 (take 4 (drop (idx + 1) data))"
    show ?thesis
    proof (cases "length data < idx + 5 + unat ?size")
      case False
      then have "index_in_file data (qm_index_chunk (data ! idx) ?size (idx + 5) ix)"
        using less.prems assms(1) by (intro index_in_file_chunk) auto
      with False 3 show ?thesis
        using less.hyps [of "idx + 5 + unat ?size"] by (simp add: scan_chunks_step Let_def)
    qed (use 3 in \<open>simp add: scan_chunks_step Let_def\<close>)
  qed (use less.prems in \<open>simp_all add: scan_chunks.simps [of data idx ix]\<close>)
qed

lemma load_messages_total:
  assumes "index_in_file data ix" and "offsets_idx ix \<noteq> -1"
  shows "load_messages data ix m entries \<noteq> None"
proof (induction "unat (num_messages ix) - m" arbitrary: m entries rule: less_induct)
  case less
  show ?case
  proof (cases "m < unat (num_messages ix)")
    case True
    have "unat (offsets_idx ix) + m * 8 + 4 + 4 \<le> length data"
      using assms True by (auto simp: index_in_file_def)
    then obtain offset where "be32_at data (unat (offsets_idx ix) + m * 8 + 4) = Some offset"
      by (simp add: be32_at_Some)
    with True show ?thesis
      using less scan_message_no_fault [of data "unat offset + unat (messages_idx ix)" qm_message_init]
      by (subst load_messages.simps) (auto simp: Let_def split: load.split)
  qed (simp add: load_messages.simps)
qed

lemma load_messages_codes:
  assumes "load_messages data ix m entries = Some (rc, entries')"
  shows "rc \<in> {0, -1}"
  using assms
proof (induction "unat (num_messages ix) - m" arbitrary: m entries rule: less_induct)
  case less
  have "load_messages data ix (Suc m) entries2 = Some (rc, entries') \<Longrightarrow> m < unat (num_messages ix) \<Longrightarrow> rc \<in> {0, -1}"
    for entries2
    using less.hyps [of "Suc m"] by simp
  with less.prems show ?case
    by (subst (asm) load_messages.simps) (auto simp: Let_def split: if_splits option.splits load.splits)
qed

section \<open>Reading what the layout describes\<close>

lemma length_qm_chunk [simp]: "length (qm_chunk t b) = 5 + length b"
  by (simp add: qm_chunk_def)

text \<open>Everything the loops ask of a chunk that starts at \<open>idx\<close>.\<close>

lemma chunk_at:
  assumes "drop idx data = qm_chunk t b @ rest" and "length b < 2 ^ 32"
  shows "idx + 5 + length b \<le> length data" and "data ! idx = t"
    and "unat (be32 (take 4 (drop (idx + 1) data))) = length b"
    and "take (length b) (drop (idx + 5) data) = b"
    and "drop (idx + 5 + length b) data = rest"
proof -
  have split: "data = take idx data @ qm_chunk t b @ rest" and "idx < length data"
    using assms(1) by (metis append_take_drop_id) (metis assms(1) drop_all length_qm_chunk append_is_Nil_conv
      length_0_conv add_is_0 not_le numeral_neq_zero)
  then have len: "length (take idx data) = idx"
    by simp
  show "idx + 5 + length b \<le> length data"
    using arg_cong [OF assms(1), of length] \<open>idx < length data\<close> by simp
  show "data ! idx = t"
    using assms(1) \<open>idx < length data\<close> by (metis nth_via_drop qm_chunk_def append_Cons)
  have "drop (idx + 1) data = drop 1 (drop idx data)"
    by simp
  then have "drop (idx + 1) data = be32_bytes (length b) @ b @ rest"
    by (simp only: assms(1)) (simp add: qm_chunk_def)
  then show "unat (be32 (take 4 (drop (idx + 1) data))) = length b"
    using be32_be32_bytes [OF assms(2), of "[]"] by simp
  have five: "drop (idx + 5) data = b @ rest"
    using assms(1) by (simp add: qm_chunk_def add.commute [of idx] flip: drop_drop)
  then show "take (length b) (drop (idx + 5) data) = b"
    by simp
  show "drop (idx + 5 + length b) data = rest"
    using five by (simp add: add.commute [of "idx + 5"] flip: drop_drop)
qed

abbreviation chunks :: "(byte \<times> blob) list \<Rightarrow> blob" where
  "chunks cs \<equiv> concat (map (\<lambda>(t, b). qm_chunk t b) cs)"

lemma scan_message_fields:
  assumes "drop idx data = chunks flds @ [0x01] @ rest" and "4 \<le> length rest"
    and "\<forall>(t, b) \<in> set flds. t \<noteq> 0x01 \<and> length b < 2 ^ 32"
  shows "scan_message data idx msg = Accept (fold (\<lambda>(t, b). qm_field t b) flds msg)"
  using assms
proof (induction flds arbitrary: idx msg)
  case Nil
  have "length data = idx + 1 + length rest"
    using arg_cong [OF Nil.prems(1), of length] by simp
  moreover have "data ! idx = 0x01"
    using Nil.prems(1) by (simp add: nth_via_drop)
  ultimately show ?case
    using Nil.prems(2) by (simp add: scan_message_end)
next
  case (Cons f flds)
  obtain t b where f: "f = (t, b)"
    by fastforce
  have ok: "t \<noteq> 0x01" "length b < 2 ^ 32"
    using Cons.prems(3) f by auto
  note ch = chunk_at [of idx data t b "chunks flds @ [0x01] @ rest", OF _ ok(2)]
  have start: "drop idx data = qm_chunk t b @ chunks flds @ [0x01] @ rest"
    using Cons.prems(1) f by simp
  have "scan_message data (idx + 5 + length b) (qm_field t b msg) =
      Accept (fold (\<lambda>(t, b). qm_field t b) flds (qm_field t b msg))"
    using Cons.IH [OF ch(5) [OF start] Cons.prems(2)] Cons.prems(3) by simp
  then show ?case
    using ch [OF start] ok(1) f by (simp add: scan_message_step Let_def)
qed

lemma scan_chunks_other:
  assumes "drop idx data = chunks cs" and "idx \<le> length data"
    and "\<forall>(t, b) \<in> set cs. t \<noteq> 0x42 \<and> t \<noteq> 0x69 \<and> length b < 2 ^ 32"
  shows "scan_chunks data idx ix = Accept ix"
  using assms
proof (induction cs arbitrary: idx)
  case Nil
  then show ?case
    by (subst scan_chunks.simps) simp
next
  case (Cons c cs)
  obtain t b where c: "c = (t, b)"
    by fastforce
  have ok: "t \<noteq> 0x42" "t \<noteq> 0x69" "length b < 2 ^ 32"
    using Cons.prems(3) c by auto
  have start: "drop idx data = qm_chunk t b @ chunks cs"
    using Cons.prems(1) c by simp
  note ch = chunk_at [OF start ok(3)]
  have "scan_chunks data (idx + 5 + length b) ix = Accept ix"
    using Cons.IH [OF ch(5) ch(1)] Cons.prems(3) by simp
  then show ?case
    using ch ok by (simp add: scan_chunks_step Let_def qm_index_chunk_def)
qed

lemma drop_concat_map:
  assumes "k < length xs"
  shows "drop (length (concat (map f (take k xs)))) (concat (map f xs)) = f (xs ! k) @ concat (map f (drop (Suc k) xs))"
proof -
  have "concat (map f xs) = concat (map f (take k xs)) @ concat (map f (drop k xs))"
    by (metis append_take_drop_id concat_append map_append)
  moreover have "drop k xs = xs ! k # drop (Suc k) xs"
    using assms by (rule Cons_nth_drop_Suc [symmetric])
  ultimately show ?thesis
    by simp
qed

lemma length_qm_table: "length (qm_table tbl recs) = length tbl * 8"
  by (induction tbl) (auto simp: qm_table_def)

lemma qm_table_entry:
  assumes "m < length tbl" and "snd (tbl ! m) = k"
  shows "take 4 (drop (m * 8 + 4) (qm_table tbl recs @ rest)) = be32_bytes (qm_offset recs k)"
proof -
  let ?e = "\<lambda>(hash, k). be32_bytes hash @ be32_bytes (qm_offset recs k)"
  have "length (concat (map ?e (take m tbl))) = m * 8"
    using length_qm_table [of "take m tbl" recs] assms(1) by (simp add: qm_table_def)
  then have "drop (m * 8) (qm_table tbl recs) = ?e (tbl ! m) @ concat (map ?e (drop (Suc m) tbl))"
    using drop_concat_map [OF assms(1), of ?e] by (simp add: qm_table_def)
  moreover have "drop (m * 8 + 4) (qm_table tbl recs @ rest) = drop 4 (drop (m * 8) (qm_table tbl recs) @ rest)"
    using assms(1) by (simp add: length_qm_table add.commute)
  ultimately show ?thesis
    using assms(2) by (simp add: case_prod_unfold)
qed

lemma length_chunk_le: "(t, b) \<in> set cs \<Longrightarrow> 5 + length b \<le> length (chunks cs)"
  by (induction cs) auto

text \<open>
  The file described by the layout, as the parser sees it: where the table and the
  messages start, and what is found at the offset the table gives for a message.
\<close>

lemma length_qm_magic: "length qm_magic = 16"
  by (simp add: qm_magic_def)

lemma qm_file_length:
  "length (qm_file tbl recs extra) =
     16 + 5 + length tbl * 8 + 5 + length (concat (map qm_record recs)) + length (chunks extra)"
  by (simp add: qm_file_def qm_magic_def length_qm_table)

lemma qm_file_drops:
  defines "data \<equiv> \<lambda>tbl recs extra. qm_file tbl recs extra"
  shows "take 16 (data tbl recs extra) = qm_magic"
    and "drop 16 (data tbl recs extra) =
      qm_chunk 0x42 (qm_table tbl recs) @ qm_chunk 0x69 (concat (map qm_record recs)) @ chunks extra"
    and "drop 21 (data tbl recs extra) =
      qm_table tbl recs @ qm_chunk 0x69 (concat (map qm_record recs)) @ chunks extra"
    and "drop (26 + length tbl * 8) (data tbl recs extra) = concat (map qm_record recs) @ chunks extra"
proof -
  have magic: "length qm_magic = 16"
    by (simp add: qm_magic_def)
  then show "take 16 (data tbl recs extra) = qm_magic"
    and d16: "drop 16 (data tbl recs extra) =
      qm_chunk 0x42 (qm_table tbl recs) @ qm_chunk 0x69 (concat (map qm_record recs)) @ chunks extra"
    by (simp_all add: data_def qm_file_def)
  have "drop 21 (data tbl recs extra) = drop 5 (drop 16 (data tbl recs extra))"
    by simp
  then show d21: "drop 21 (data tbl recs extra) =
      qm_table tbl recs @ qm_chunk 0x69 (concat (map qm_record recs)) @ chunks extra"
    by (simp only: d16) (simp add: qm_chunk_def)
  have "drop (26 + length tbl * 8) (data tbl recs extra) =
      drop 5 (drop (length tbl * 8) (drop 21 (data tbl recs extra)))"
    by (simp add: add.commute)
  then show "drop (26 + length tbl * 8) (data tbl recs extra) = concat (map qm_record recs) @ chunks extra"
    by (simp only: d21) (simp add: length_qm_table qm_chunk_def)
qed

lemma scan_chunks_qm_file:
  assumes "length (qm_file tbl recs extra) < 2 ^ 32"
    and "\<forall>(t, b) \<in> set extra. t \<noteq> 0x42 \<and> t \<noteq> 0x69"
  shows "scan_chunks (qm_file tbl recs extra) 16 qm_index_init =
    Accept \<lparr>num_messages = of_nat (length tbl), messages_idx = of_nat (26 + length tbl * 8), offsets_idx = 21\<rparr>"
proof -
  let ?data = "qm_file tbl recs extra" and ?msgs = "concat (map qm_record recs)"
  have small: "length (qm_table tbl recs) < 2 ^ 32" "length ?msgs < 2 ^ 32"
    using assms(1) by (simp_all add: qm_file_length length_qm_table)
  note c1 = chunk_at [OF qm_file_drops(2) [of tbl recs extra] small(1), unfolded length_qm_table]
  have second: "drop (21 + length tbl * 8) ?data = qm_chunk 0x69 ?msgs @ chunks extra"
    using c1(5) by simp
  note c2 = chunk_at [OF second small(2)]
  have bound: "length b < 2 ^ 32" if "(t, b) \<in> set extra" for t b
    using length_chunk_le [OF that] assms(1) by (simp add: qm_file_length)
  let ?size1 = "be32 (take 4 (drop 17 ?data))"
  have size1: "?size1 div 8 = of_nat (length tbl)"
    using c1(3) by (intro word_eq_of_natI) (simp add: unat_div_distrib)
  have rest: "scan_chunks ?data (21 + length tbl * 8 + 5 + length ?msgs) ix = Accept ix" for ix
    using assms(2) bound c2(1,5) by (intro scan_chunks_other) auto
  have "scan_chunks ?data (21 + length tbl * 8) ix =
      Accept (ix\<lparr>messages_idx := of_nat (21 + length tbl * 8 + 5)\<rparr>)" for ix
    using c2 rest by (simp add: scan_chunks_step Let_def qm_index_chunk_def)
  moreover have "21 \<le> length ?data"
    by (simp add: qm_file_length)
  ultimately have "scan_chunks ?data 16 qm_index_init =
      Accept (qm_index_init\<lparr>offsets_idx := of_nat 21, num_messages := ?size1 div 8,
         messages_idx := of_nat (21 + length tbl * 8 + 5)\<rparr>)"
    using c1 by (simp add: scan_chunks_step Let_def qm_index_chunk_def)
  then show ?thesis
    by (simp add: size1 qm_index_init_def)
qed

lemma scan_message_qm_file:
  assumes "length (qm_file tbl recs extra) < 2 ^ 32" and "k < length recs" and "extra \<noteq> []"
    and "\<forall>flds \<in> set recs. \<forall>(t, b) \<in> set flds. t \<noteq> 0x01"
  shows "scan_message (qm_file tbl recs extra) (qm_offset recs k + (26 + length tbl * 8)) qm_message_init =
    Accept (qm_decode (recs ! k))"
proof -
  let ?data = "qm_file tbl recs extra" and ?idx = "qm_offset recs k + (26 + length tbl * 8)"
  let ?rest = "concat (map qm_record (drop (Suc k) recs)) @ chunks extra"
  have "length (concat (map qm_record (take k recs))) \<le> length (concat (map qm_record recs))"
    by (metis append_take_drop_id concat_append le_add1 length_append map_append)
  then have "drop ?idx ?data = qm_record (recs ! k) @ ?rest"
    using qm_file_drops(4) [of tbl recs extra] drop_concat_map [OF assms(2), of qm_record]
    by (simp add: qm_offset_def flip: drop_drop)
  then have start: "drop ?idx ?data = chunks (recs ! k) @ [0x01] @ ?rest"
    by (simp add: qm_record_def)
  have "4 \<le> length ?rest"
    using assms(3) by (cases extra) (auto simp: case_prod_unfold)
  moreover have "length b < 2 ^ 32" if "(t, b) \<in> set (recs ! k)" for t b
  proof -
    have "length (chunks (recs ! k)) \<le> length ?data"
      using arg_cong [OF start, of length] by simp
    then show ?thesis
      using length_chunk_le [OF that] assms(1) by simp
  qed
  then have "\<forall>(t, b) \<in> set (recs ! k). t \<noteq> 0x01 \<and> length b < 2 ^ 32"
    using assms(2,4) nth_mem by fastforce
  ultimately show ?thesis
    using scan_message_fields [OF start] by (simp add: qm_decode_def)
qed

lemma load_messages_qm_file:
  assumes "length (qm_file tbl recs extra) < 2 ^ 32" and "extra \<noteq> []"
    and "\<forall>flds \<in> set recs. \<forall>(t, b) \<in> set flds. t \<noteq> 0x01"
    and "\<forall>(hash, k) \<in> set tbl. k < length recs"
    and ix: "ix = \<lparr>num_messages = of_nat (length tbl), messages_idx = of_nat (26 + length tbl * 8), offsets_idx = 21\<rparr>"
    and "m \<le> length tbl"
  shows "load_messages (qm_file tbl recs extra) ix m entries =
    Some (0, fold (\<lambda>(hash, k). qm_store (recs ! k)) (drop m tbl) entries)"
  using assms(6)
proof (induction "length tbl - m" arbitrary: m entries)
  case 0
  have "unat (of_nat (length tbl) :: u32) = length tbl"
    using assms(1) by (simp add: unat_of_nat qm_file_length)
  with 0 show ?case
    by (subst load_messages.simps) (simp add: ix)
next
  case (Suc d)
  let ?data = "qm_file tbl recs extra"
  have m: "m < length tbl"
    using Suc.hyps(2) by simp
  obtain hash k where hk: "tbl ! m = (hash, k)"
    by fastforce
  then have k: "k < length recs"
    using assms(4) m nth_mem by fastforce
  have nums: "unat (num_messages ix) = length tbl" "unat (messages_idx ix) = 26 + length tbl * 8"
    using assms(1) by (simp_all add: ix unat_of_nat qm_file_length del: of_nat_add)
  have off: "qm_offset recs k \<le> length (concat (map qm_record recs))"
    unfolding qm_offset_def by (metis append_take_drop_id concat_append le_add1 length_append map_append)
  have "drop (21 + (m * 8 + 4)) ?data = drop (m * 8 + 4) (drop 21 ?data)"
    by (simp add: add.commute)
  then have "take 4 (drop (21 + (m * 8 + 4)) ?data) = be32_bytes (qm_offset recs k)"
    using qm_table_entry [OF m, of k recs] hk by (simp only: qm_file_drops(3) snd_conv)
  moreover have "21 + (m * 8 + 4) + 4 \<le> length ?data"
    using m by (simp add: qm_file_length)
  moreover have "qm_offset recs k < 2 ^ 32"
    using off assms(1) by (simp add: qm_file_length)
  ultimately obtain offset where "be32_at ?data (unat (offsets_idx ix) + m * 8 + 4) = Some offset"
      and "unat offset = qm_offset recs k"
    using be32_be32_bytes [of "qm_offset recs k" "[]"]
    by (simp add: ix be32_at_Some add.assoc)
  moreover have "qm_offset recs k + (26 + length tbl * 8) + 1 \<le> length ?data"
  proof -
    have "5 \<le> length (chunks extra)"
      using assms(2) by (cases extra) (auto simp: case_prod_unfold)
    then show ?thesis
      using off by (simp add: qm_file_length)
  qed
  moreover have "load_messages ?data ix (Suc m) (qm_store (recs ! k) entries) =
      Some (0, fold (\<lambda>(hash, k). qm_store (recs ! k)) (drop (Suc m) tbl) (qm_store (recs ! k) entries))"
    using Suc.hyps(1) [of "Suc m"] Suc.hyps(2) m by simp
  ultimately show ?case
    using m hk nums scan_message_qm_file [OF assms(1) k assms(2,3)]
    by (subst load_messages.simps) (simp add: Let_def qm_store_def flip: Cons_nth_drop_Suc)
qed

lemma load_qm_qm_file:
  assumes "length (qm_file tbl recs extra) < 2 ^ 32" and "extra \<noteq> []"
    and "\<forall>(t, b) \<in> set extra. t \<noteq> 0x42 \<and> t \<noteq> 0x69"
    and "\<forall>flds \<in> set recs. \<forall>(t, b) \<in> set flds. t \<noteq> 0x01"
    and "\<forall>(hash, k) \<in> set tbl. k < length recs"
  shows "load_qm (qm_file tbl recs extra) entries =
    Some (0, fold (\<lambda>(hash, k). qm_store (recs ! k)) tbl entries)"
proof -
  let ?ix = "\<lparr>num_messages = of_nat (length tbl), messages_idx = of_nat (26 + length tbl * 8), offsets_idx = 21\<rparr> :: qm_index"
  have "unat (messages_idx ?ix) < 2 ^ 32 - 1"
    using assms(1,2) by (cases extra) (auto simp: qm_file_length unat_of_nat case_prod_unfold simp del: of_nat_add of_nat_mult)
  moreover have "w \<noteq> -1" if "unat w < 2 ^ 32 - 1" for w :: u32
    using that by (auto simp: unsigned_minus_1_eq_mask mask_eq_exp_minus_1)
  ultimately have "messages_idx ?ix \<noteq> -1"
    by blast
  then show ?thesis
    using scan_chunks_qm_file [OF assms(1,3)] qm_file_drops(1) [of tbl recs extra] qm_file_length [of tbl recs extra]
      load_messages_qm_file [OF assms(1,2,4,5) refl, of 0 entries]
    by (simp add: load_qm_def length_qm_magic)
qed

section \<open>UTF-16 to UTF-8\<close>

lemma to_char_nat: "to_char x = char_of (unat x)"
proof -
  have "unat (ucast x :: byte) = unat x mod 256"
    by (simp add: unsigned_ucast_eq take_bit_eq_mod)
  then show ?thesis
    by (simp add: to_char_def)
qed

lemma unat_or_0xc0: "unat x < 64 \<Longrightarrow> unat (0xc0 OR x :: u32) = 0xc0 + unat x"
  using unat_or_push_bit [of x 6 3] by (simp add: push_bit_eq_mult or.commute)

lemma unat_or_0xe0: "unat x < 16 \<Longrightarrow> unat (0xe0 OR x :: u32) = 0xe0 + unat x"
  using unat_or_push_bit [of x 4 14] by (simp add: push_bit_eq_mult or.commute)

lemma unat_or_0xf0: "unat x < 8 \<Longrightarrow> unat (0xf0 OR x :: u32) = 0xf0 + unat x"
  using unat_or_push_bit [of x 3 30] by (simp add: push_bit_eq_mult or.commute)

lemma unat_or_0x80: "unat x < 64 \<Longrightarrow> unat (0x80 OR x :: u32) = 0x80 + unat x"
  using unat_or_push_bit [of x 6 2] by (simp add: push_bit_eq_mult or.commute)

lemma unat_and_0x3f: "unat (x AND 0x3f :: u32) = unat x mod 64"
  using unat_and_mask [of x 6] by (simp add: mask_eq_exp_minus_1)

lemma to_char_continuation: "to_char (0x80 OR (x AND 0x3f)) = char_of (0x80 + unat x mod 64)"
  by (simp add: to_char_nat unat_or_0x80 unat_and_0x3f)

lemma utf16_append_utf8:
  assumes "unat code = cp" and "cp < 0x200000"
  shows "utf16_append code = utf8_encode cp"
proof -
  have le: "code \<le> 0x7f \<longleftrightarrow> cp < 0x80" "code \<le> 0x7ff \<longleftrightarrow> cp < 0x800" "code \<le> 0xffff \<longleftrightarrow> cp < 0x10000"
    using assms(1) by (auto simp: word_le_nat_alt)
  have "cp < 0x800 \<Longrightarrow> cp div 64 < 64" "cp < 0x10000 \<Longrightarrow> cp div 4096 < 16" "cp div 262144 < 8"
    using assms(2) by (auto simp: less_mult_imp_div_less)
  then show ?thesis
    using assms(1) le
    by (simp add: utf16_append_def utf8_encode_def to_char_continuation)
      (simp add: to_char_nat unat_drop_bit unat_or_0xc0 unat_or_0xe0 unat_or_0xf0)
qed

lemma unat_utf16_unit:
  assumes "u < 65536"
  shows "unat (utf16_unit (of_nat (u div 256)) (of_nat (u mod 256))) = u"
proof -
  have bytes: "unat (of_nat (u div 256) :: byte) = u div 256" "unat (of_nat (u mod 256) :: byte) = u mod 256"
    using assms by (auto simp: unat_of_nat_byte less_mult_imp_div_less)
  have "utf16_unit (of_nat (u div 256)) (of_nat (u mod 256)) =
      ucast (of_nat (u mod 256) :: byte) OR push_bit 8 (ucast (of_nat (u div 256) :: byte))"
    by (simp add: utf16_unit_def or.commute)
  also have "unat \<dots> = u mod 256 + u div 256 * 2 ^ 8"
    using bytes assms by (subst unat_or_push_bit) (auto simp: less_mult_imp_div_less)
  finally show ?thesis
    by simp
qed

lemma utf16_lone:
  assumes "unat (utf16_unit a b) = u" and "u < 65536"
    and "rest = [] \<or> (\<exists>v r. rest = utf16be_unit v @ r \<and> v < 65536 \<and> \<not> (0xdc00 \<le> v \<and> v \<le> 0xdfff))"
  shows "utf16 (a # b # rest) = utf8_encode u @ utf16 rest"
proof -
  have app: "utf16_append (utf16_unit a b) = utf8_encode u"
    using assms by (intro utf16_append_utf8) auto
  from assms(3) show ?thesis
  proof (elim disjE exE conjE)
    fix v r assume "rest = utf16be_unit v @ r" and v: "v < 65536" and out: "\<not> (0xdc00 \<le> v \<and> v \<le> 0xdfff)"
    then obtain c d where rest: "rest = c # d # r" and "unat (utf16_unit c d) = v"
      using unat_utf16_unit [OF v] by (simp add: utf16be_unit_def)
    with out have "\<not> (0xdc00 \<le> utf16_unit c d \<and> utf16_unit c d \<le> 0xdfff)"
      by (auto simp: word_le_nat_alt)
    then show ?thesis
      using app by (auto simp: rest Let_def)
  qed (use app in simp)
qed

lemma utf16_pair:
  assumes "unat (utf16_unit a b) = 0xd800 + h" and "unat (utf16_unit c d) = 0xdc00 + l" and "h < 1024" and "l < 1024"
  shows "utf16 (a # b # c # d # rest) = utf8_encode (0x2e000 + h * 1024 + l) @ utf16 rest"
proof -
  have "utf16_unit a b = of_nat (0xd800 + h)" and "utf16_unit c d = of_nat (0xdc00 + l)"
    using assms(1,2) by (simp_all only: word_eq_of_natI)
  then have "push_bit 10 (utf16_unit a b) + utf16_unit c d - 0x35dfc00 = of_nat (0x2e000 + h * 1024 + l)"
    by (simp add: push_bit_eq_mult algebra_simps)
  then have "unat (push_bit 10 (utf16_unit a b) + utf16_unit c d - 0x35dfc00) = 0x2e000 + h * 1024 + l"
    using assms(3,4) by (simp add: unat_of_nat del: of_nat_add of_nat_mult)
  then show ?thesis
    using assms utf16_append_utf8 by (simp add: Let_def word_le_nat_alt)
qed

text \<open>
  What the function makes of a scalar value: the constant it subtracts for a surrogate
  pair is 0x35dfc00, where the encoding needs 0x35fdc00, so the characters outside the basic
  plane move up by 0x1e000.
\<close>

definition decoded_value :: "nat \<Rightarrow> nat" where
  "decoded_value cp = (if cp < 0x10000 then cp else cp + 0x1e000)"

lemma decoded_basic_plane:
  assumes "\<forall>cp \<in> set cps. cp < 0x10000"
  shows "concat (map (\<lambda>cp. utf8_encode (decoded_value cp)) cps) = concat (map utf8_encode cps)"
  using assms by (induction cps) (auto simp: decoded_value_def)

lemma utf16be_first_unit:
  assumes "scalar_value cp"
  shows "\<exists>v r. utf16be_encode cp = utf16be_unit v @ r \<and> v < 65536 \<and> \<not> (0xdc00 \<le> v \<and> v \<le> 0xdfff)"
proof (cases "cp < 0x10000")
  case True
  then show ?thesis
    using assms by (intro exI [of _ cp] exI [of _ "[]"]) (auto simp: utf16be_encode_def scalar_value_def)
next
  case False
  then have "(cp - 0x10000) div 1024 < 1024"
    using assms by (auto simp: scalar_value_def less_mult_imp_div_less)
  then show ?thesis
    using False by (intro exI [of _ "0xd800 + (cp - 0x10000) div 1024"] exI) (auto simp: utf16be_encode_def)
qed

lemma utf16_encoded:
  assumes "\<forall>cp \<in> set cps. scalar_value cp"
  shows "utf16 (concat (map utf16be_encode cps)) = concat (map (\<lambda>cp. utf8_encode (decoded_value cp)) cps)"
  using assms
proof (induction cps)
  case (Cons cp cps)
  let ?rest = "concat (map utf16be_encode cps)"
  have IH: "utf16 ?rest = concat (map (\<lambda>cp. utf8_encode (decoded_value cp)) cps)"
    using Cons by simp
  show ?case
  proof (cases "cp < 0x10000")
    case True
    have "?rest = [] \<or> (\<exists>v r. ?rest = utf16be_unit v @ r \<and> v < 65536 \<and> \<not> (0xdc00 \<le> v \<and> v \<le> 0xdfff))"
    proof (cases cps)
      case Nil
      then show ?thesis
        by simp
    next
      case (Cons cp' cps')
      with Cons.prems utf16be_first_unit [of cp'] show ?thesis
        by fastforce
    qed
    then have "utf16 (utf16be_unit cp @ ?rest) = utf8_encode cp @ utf16 ?rest"
      using True by (simp add: utf16be_unit_def utf16_lone unat_utf16_unit)
    then show ?thesis
      using True IH by (simp add: utf16be_encode_def [of cp] decoded_value_def [of cp])
  next
    case False
    let ?c = "cp - 0x10000"
    have high: "?c div 1024 < 1024"
      using Cons.prems by (auto simp: scalar_value_def less_mult_imp_div_less)
    have "utf8_encode (0x2e000 + ?c div 1024 * 1024 + ?c mod 1024) = utf8_encode (decoded_value cp)"
      using False by (simp add: decoded_value_def add.commute add.assoc)
    moreover have "utf16 (utf16be_unit (0xd800 + ?c div 1024) @ utf16be_unit (0xdc00 + ?c mod 1024) @ ?rest) =
        utf8_encode (0x2e000 + ?c div 1024 * 1024 + ?c mod 1024) @ utf16 ?rest"
      unfolding utf16be_unit_def append_Cons append_Nil
      using high by (intro utf16_pair unat_utf16_unit) auto
    ultimately show ?thesis
      using False IH by (simp add: utf16be_encode_def [of cp])
  qed
qed simp

section \<open>Storing and looking up\<close>

lemma fold_upd_hit:
  assumes "\<exists>x \<in> set xs. f x = key" and "\<forall>x \<in> set xs. f x = key \<longrightarrow> g x = v"
  shows "fold (\<lambda>x m. m(f x \<mapsto> g x)) xs m key = Some v"
  using assms
proof (induction xs rule: rev_induct)
  case (snoc x xs)
  then show ?case
    by (cases "f x = key") auto
qed simp

lemma fold_upd_miss: "\<forall>x \<in> set xs. f x \<noteq> key \<Longrightarrow> fold (\<lambda>x m. m(f x \<mapsto> g x)) xs m key = m key"
  by (induction xs arbitrary: m) auto

lemma utf8_text_bytes [simp]: "utf8 (text_bytes s) = s"
proof -
  have "unat (of_nat (of_char c) :: byte) = of_char c" for c
    using of_char_mod_256 [of c, where ?'a = nat] by (simp add: unat_of_nat)
  then show ?thesis
    by (simp add: utf8_def text_bytes_def comp_def)
qed

lemma i18n_key_inject:
  assumes "CHR 0x00 \<notin> set c" and "CHR 0x00 \<notin> set c'"
  shows "i18n_key c s = i18n_key c' s' \<longleftrightarrow> c = c' \<and> s = s'"
proof
  assume eq: "i18n_key c s = i18n_key c' s'"
  have "takeWhile (\<lambda>x. x \<noteq> CHR 0x00) (i18n_key d t) = d" if "CHR 0x00 \<notin> set d" for d t
    using that unfolding i18n_key_def by (subst takeWhile_append2) auto
  then have "c = c'"
    using eq assms by metis
  with eq show "c = c' \<and> s = s'"
    by (simp add: i18n_key_def)
qed simp

lemma char_of_not_nul: "0 < n \<Longrightarrow> n < 256 \<Longrightarrow> char_of (n :: nat) \<noteq> CHR 0x00"
  by (simp add: char_of_eq_iff take_bit_nat_eq_self)

lemma utf8_encode_no_nul:
  assumes "0 < cp" and "cp < 0x200000"
  shows "CHR 0x00 \<notin> set (utf8_encode cp)"
proof -
  have bounds: "cp < 0x800 \<Longrightarrow> cp div 64 < 64" "cp < 0x10000 \<Longrightarrow> cp div 4096 < 16" "cp div 262144 < 8"
    using assms(2) by (auto simp: less_mult_imp_div_less)
  have "char_of (128 + x mod 64) \<noteq> CHR 0x00" for x :: nat
    using mod_less_divisor [of 64 x] by (intro char_of_not_nul) auto
  then show ?thesis
    using assms bounds char_of_not_nul
    by (auto simp: utf8_encode_def eq_commute [of "CHR 0x00"])
qed

lemma qm_store_message:
  "qm_store (message_fields msg) entries =
     entries(i18n_key (fst msg) (fst (snd msg)) \<mapsto> utf16 (concat (map utf16be_encode (snd (snd msg)))))"
  by (simp add: qm_store_def qm_decode_def message_fields_def case_prod_unfold qm_field_def qm_message_init_def Let_def)

text \<open>
  After the messages of a catalogue have been stored, in whatever order the table lists
  them, each is found under its context and source text.
\<close>

lemma stored_message:
  assumes "distinct (map (\<lambda>msg. (fst msg, fst (snd msg))) msgs)"
    and "\<forall>msg \<in> set msgs. CHR 0x00 \<notin> set (fst msg)"
    and "snd ` set tbl = {..<length msgs}" and "(ctxt, src, cps) \<in> set msgs"
  shows "fold (\<lambda>(hash, k). qm_store (map message_fields msgs ! k)) tbl entries (i18n_key ctxt src) =
    Some (utf16 (concat (map utf16be_encode cps)))"
proof -
  let ?f = "\<lambda>x. i18n_key (fst (msgs ! snd x)) (fst (snd (msgs ! snd x)))"
    and ?g = "\<lambda>x. utf16 (concat (map utf16be_encode (snd (snd (msgs ! snd x)))))"
  have inside: "snd x < length msgs" if "x \<in> set tbl" for x
    using assms(3) that by blast
  have "fold (\<lambda>(hash, k). qm_store (map message_fields msgs ! k)) tbl entries = fold (\<lambda>x m. m(?f x \<mapsto> ?g x)) tbl entries"
    by (rule fold_cong [OF refl refl]) (simp add: fun_eq_iff case_prod_unfold qm_store_message inside)
  moreover obtain k where k: "k < length msgs" "msgs ! k = (ctxt, src, cps)"
    using assms(4) by (metis in_set_conv_nth)
  then obtain x where "x \<in> set tbl" "snd x = k"
    using assms(3) by (metis imageE lessThan_iff)
  then have "\<exists>x \<in> set tbl. ?f x = i18n_key ctxt src"
    using k by (intro bexI [of _ x]) auto
  moreover have "?g x = utf16 (concat (map utf16be_encode cps))" if "x \<in> set tbl" "?f x = i18n_key ctxt src" for x
  proof -
    note j = inside [OF that(1)]
    have "CHR 0x00 \<notin> set (fst (msgs ! snd x))" "CHR 0x00 \<notin> set ctxt"
      using assms(2,4) nth_mem [OF j] by auto
    then have "fst (msgs ! snd x) = ctxt \<and> fst (snd (msgs ! snd x)) = src"
      using that(2) by (simp add: i18n_key_inject)
    then have "map (\<lambda>msg. (fst msg, fst (snd msg))) msgs ! snd x = map (\<lambda>msg. (fst msg, fst (snd msg))) msgs ! k"
      using j k by simp
    then have "snd x = k"
      using assms(1) j k by (simp only: nth_eq_iff_index_eq length_map)
    then show ?thesis
      using k by simp
  qed
  ultimately show ?thesis
    using fold_upd_hit [of tbl ?f "i18n_key ctxt src" ?g] by simp
qed

section \<open>Properties\<close>

text \<open>
  C17. Memory safety of the QM parser: whatever bytes a catalogue file smaller than 4 GiB
  holds, \<open>i18n_set_language\<close> reads only inside the file, terminates, and returns 0 or -1.
\<close>

theorem load_qm_safe:
  assumes "length data < 2 ^ 32"
  shows "\<exists>rc entries'. load_qm data entries = Some (rc, entries') \<and> rc \<in> {0, -1}"
proof -
  have "index_in_file data qm_index_init"
    by (simp add: index_in_file_def qm_index_init_def)
  note chunks = scan_chunks_in_file [OF assms this, of "length qm_magic"]
  show ?thesis
  proof (cases "scan_chunks data (length qm_magic) qm_index_init")
    case (Accept ix)
    then have "index_in_file data ix"
      using chunks by simp
    then have "offsets_idx ix \<noteq> -1 \<Longrightarrow> \<exists>rc entries'. load_messages data ix 0 entries = Some (rc, entries')"
      using load_messages_total [of data ix 0 entries] by force
    then show ?thesis
      using Accept load_messages_codes [of data ix 0 entries] by (auto simp: load_qm_def)
  qed (use chunks in \<open>auto simp: load_qm_def\<close>)
qed

theorem load_qm_safe_witness:
  "length (qm_magic @ [0x42, 0, 0, 0, 8, 0, 0, 0, 0, 0xff, 0xff, 0xff, 0xff, 0x69, 0, 0, 0, 0]) < 2 ^ 32 \<and>
   (\<exists>rc entries'. load_qm (qm_magic @ [0x42, 0, 0, 0, 8, 0, 0, 0, 0, 0xff, 0xff, 0xff, 0xff, 0x69, 0, 0, 0, 0]) Map.empty
       = Some (rc, entries') \<and> rc \<in> {0, -1})"
  by (rule conjI [OF _ load_qm_safe]) (simp_all add: qm_magic_def)

text \<open>
  \<open>utf16\<close> converts text: the big-endian UTF-16 encoding of any sequence of scalar
  values of the basic multilingual plane becomes its UTF-8 encoding.
\<close>

theorem utf16_basic_plane:
  assumes "\<forall>cp \<in> set cps. scalar_value cp \<and> cp < 0x10000"
  shows "utf16 (concat (map utf16be_encode cps)) = concat (map utf8_encode cps)"
  using utf16_encoded [of cps] decoded_basic_plane [of cps] assms by auto

theorem utf16_basic_plane_witness:
  "utf16 (concat (map utf16be_encode [0x56, 0xe9, 0x20ac])) = concat (map utf8_encode [0x56, 0xe9, 0x20ac])"
  by (rule utf16_basic_plane) (simp add: scalar_value_def)

text \<open>
  Outside that plane the conversion is wrong: the constant of the surrogate branch has two
  digits exchanged, and U+1F600 comes out as U+3D600.
\<close>

lemma utf16_supplementary_wrong:
  assumes "scalar_value cp" and "0x10000 \<le> cp"
  shows "utf16 (utf16be_encode cp) = utf8_encode (cp + 0x1e000)"
  using utf16_encoded [of "[cp]"] assms by (simp add: decoded_value_def)

text \<open>
  C18. From catalogue to screen: when the file chosen for the language is the compiled form of
  a catalogue whose messages have distinct (context, source) pairs, contexts without NUL and translations of
  nonzero code points of the basic plane, with a chunk after the messages and less than 4 GiB, \<open>i18n_set_language\<close> succeeds and \<open>i18n_translate\<close> then returns, for every
  message of the catalogue, its translation in UTF-8; the order in which the table of
  hashes lists the messages does not matter.
\<close>

theorem set_language_translates:
  assumes "find_catalogue h dir base lang = Some (qm_file tbl (map message_fields msgs) extra)" and "lang \<noteq> []"
    and "length (qm_file tbl (map message_fields msgs) extra) < 2 ^ 32"
    and "extra \<noteq> []" and "\<forall>(t, b) \<in> set extra. t \<noteq> 0x42 \<and> t \<noteq> 0x69"
    and "snd ` set tbl = {..<length msgs}"
    and "distinct (map (\<lambda>msg. (fst msg, fst (snd msg))) msgs)"
    and "\<forall>msg \<in> set msgs. CHR 0x00 \<notin> set (fst msg)"
    and "\<forall>msg \<in> set msgs. \<forall>cp \<in> set (snd (snd msg)). scalar_value cp \<and> 0 < cp \<and> cp < 0x10000"
  shows "\<exists>entries'. i18n_set_language h (Some dir) (Some base) lang entries = Some (0, entries') \<and>
    (\<forall>(ctxt, src, cps) \<in> set msgs. i18n_translate entries' src ctxt = concat (map utf8_encode cps))"
proof -
  let ?entries' = "fold (\<lambda>(hash, k). qm_store (map message_fields msgs ! k)) tbl entries"
  have "load_qm (qm_file tbl (map message_fields msgs) extra) entries = Some (0, ?entries')"
  proof (rule load_qm_qm_file [OF assms(3,4,5)])
    show "\<forall>flds \<in> set (map message_fields msgs). \<forall>(t, b) \<in> set flds. t \<noteq> 0x01"
      by (auto simp: message_fields_def)
    show "\<forall>(hash, k) \<in> set tbl. k < length (map message_fields msgs)"
      using assms(6) by force
  qed
  then have "i18n_set_language h (Some dir) (Some base) lang entries = Some (0, ?entries')"
    using assms(1,2) by (simp add: i18n_set_language_def Let_def)
  moreover have "i18n_translate ?entries' src ctxt = concat (map utf8_encode cps)" if "(ctxt, src, cps) \<in> set msgs" for ctxt src cps
  proof -
    have cps: "\<forall>cp \<in> set cps. scalar_value cp \<and> 0 < cp \<and> cp < 0x10000"
      using assms(9) that by auto
    then have "utf16 (concat (map utf16be_encode cps)) = concat (map utf8_encode cps)"
      using utf16_encoded [of cps] decoded_basic_plane [of cps] by auto
    moreover have "CHR 0x00 \<notin> set (concat (map utf8_encode cps))"
      using cps utf8_encode_no_nul by auto
    ultimately show ?thesis
      using stored_message [OF assms(7,8,6) that, of entries]
      by (simp add: i18n_translate_def c_str_def takeWhile_eq_all_conv) metis
  qed
  ultimately show ?thesis
    by blast
qed

text \<open>
  The hypotheses hold of a host with one embedded catalogue of two French messages.
\<close>

definition sample_msgs :: "(string \<times> string \<times> nat list) list" where
  "sample_msgs = [(''wallet'', ''failed'', [0xe9, 0x63, 0x68, 0x65, 0x63]), (''wallet'', ''yes'', [0x6f, 0x75, 0x69])]"

definition sample_qm :: blob where
  "sample_qm = qm_file [(7, 1), (9, 0)] (map message_fields sample_msgs) [(0x88, [])]"

definition sample_host :: host where
  "sample_host = \<lparr>env_LANG = Some ''fr_FR.UTF-8'', env_LC_ALL = None, file_exists = (\<lambda>_. False),
     load_file_to_string = (\<lambda>_. None), embedded_files = [(''monero_fr.qm'', sample_qm)]\<rparr>"

theorem set_language_translates_witness:
  "find_catalogue sample_host ''t'' ''monero'' ''fr_fr'' = Some sample_qm \<and>
   (\<exists>entries'. i18n_set_language sample_host (Some ''t'') (Some ''monero'') ''fr_fr'' Map.empty = Some (0, entries') \<and>
     list_all (\<lambda>(ctxt, src, cps). i18n_translate entries' src ctxt = concat (map utf8_encode cps)) sample_msgs)"
proof -
  have found: "find_catalogue sample_host ''t'' ''monero'' ''fr_fr'' =
      Some (qm_file [(7, 1), (9, 0)] (map message_fields sample_msgs) [(0x88, [])])"
    by (simp add: find_catalogue_def c_str_def sample_host_def sample_qm_def qm_name_def Let_def)
  have "\<exists>entries'. i18n_set_language sample_host (Some ''t'') (Some ''monero'') ''fr_fr'' Map.empty = Some (0, entries') \<and>
     (\<forall>(ctxt, src, cps) \<in> set sample_msgs. i18n_translate entries' src ctxt = concat (map utf8_encode cps))"
  proof (rule set_language_translates [OF found])
    show "length (qm_file [(7, 1), (9, 0)] (map message_fields sample_msgs) [(0x88, [])]) < 2 ^ 32"
      by (simp add: qm_file_length qm_record_def sample_msgs_def message_fields_def utf16be_encode_def
          utf16be_unit_def text_bytes_def)
    show "snd ` set [(7, 1), (9, 0)] = {..<length sample_msgs}"
      by (auto simp: sample_msgs_def lessThan_Suc)
  qed (simp_all add: sample_msgs_def scalar_value_def)
  then show ?thesis
    using found by (simp add: sample_qm_def list_all_iff)
qed

lemma i18n_get_language_cases:
  assumes "P ''en''"
    and "\<And>l s. list_all (\<lambda>c. c \<in> set language_chars) l \<Longrightarrow> length l \<le> MAX_LANGUAGE_SIZE \<Longrightarrow>
      l = takeWhile (\<lambda>c. c \<noteq> CHR ''@'') (takeWhile (\<lambda>c. c \<noteq> CHR ''.'') s) \<Longrightarrow> P (map c_tolower l)"
  shows "P (i18n_get_language env_lang env_lc_all)"
  using assms unfolding i18n_get_language_def Let_def by (simp split: if_split)

text \<open>
  The language taken from the environment is safe in a file name: whatever \<open>LANG\<close> and
  \<open>LC_ALL\<close> hold, it has at most 16 characters, each of them a lower-case letter, an
  underscore or a hyphen, so it can name no other directory.
\<close>

theorem i18n_get_language_safe:
  "length (i18n_get_language env_lang env_lc_all) \<le> MAX_LANGUAGE_SIZE \<and>
   set (i18n_get_language env_lang env_lc_all) \<subseteq> set ''abcdefghijklmnopqrstuvwxyz_-''"
proof -
  let ?ok = "set ''abcdefghijklmnopqrstuvwxyz_-''"
  have chars: "\<forall>c \<in> set language_chars. c = CHR ''.'' \<or> c = CHR ''@'' \<or> c_tolower c \<in> ?ok"
    by code_simp
  have lower: "set (map c_tolower l) \<subseteq> ?ok"
    if "list_all (\<lambda>c. c \<in> set language_chars) l"
      and "l = takeWhile (\<lambda>c. c \<noteq> CHR ''@'') (takeWhile (\<lambda>c. c \<noteq> CHR ''.'') s)" for l s
  proof -
    have "c \<in> set language_chars" if "c \<in> set l" for c
      using that \<open>list_all _ l\<close> by (simp only: list_all_iff)
    moreover have "c \<noteq> CHR ''@'' \<and> c \<noteq> CHR ''.''" if "c \<in> set l" for c
      using that \<open>l = _\<close> by (auto dest: set_takeWhileD)
    ultimately have "\<forall>c \<in> set l. c_tolower c \<in> ?ok"
      using chars by blast
    then show ?thesis
      by (simp only: set_map image_subset_iff)
  qed
  have en: "length ''en'' \<le> MAX_LANGUAGE_SIZE \<and> set ''en'' \<subseteq> ?ok"
    by (simp add: MAX_LANGUAGE_SIZE_def)
  show ?thesis
  proof (rule i18n_get_language_cases)
    fix l s
    assume "list_all (\<lambda>c. c \<in> set language_chars) l" and "length l \<le> MAX_LANGUAGE_SIZE"
      and "l = takeWhile (\<lambda>c. c \<noteq> CHR ''@'') (takeWhile (\<lambda>c. c \<noteq> CHR ''.'') s)"
    then show "length (map c_tolower l) \<le> MAX_LANGUAGE_SIZE \<and> set (map c_tolower l) \<subseteq> ?ok"
      using lower by (simp only: length_map)
  qed (rule en)
qed

text \<open>
  The language is lower-cased, so a catalogue whose name has a capital letter is not found
  from its own locale: \<open>nb_NO\<close> asks for \<open>monero_nb_no.qm\<close> and then \<open>monero_nb.qm\<close>.
\<close>

lemma norwegian_catalogue_not_found:
  assumes "\<forall>f. \<not> file_exists h f" and "map fst (embedded_files h) = [''monero_nb_NO.qm'']"
  shows "i18n_get_language (Some ''nb_NO.UTF-8'') None = ''nb_no''"
    and "find_catalogue h ''t'' ''monero'' ''nb_no'' = None"
proof -
  show "i18n_get_language (Some ''nb_NO.UTF-8'') None = ''nb_no''"
    by (simp add: i18n_get_language_def language_chars_def c_tolower_def MAX_LANGUAGE_SIZE_def) code_simp
  obtain d where "embedded_files h = [(''monero_nb_NO.qm'', d)]"
    using assms(2) by (cases "embedded_files h") auto
  then show "find_catalogue h ''t'' ''monero'' ''nb_no'' = None"
    using assms(1) by (simp add: find_catalogue_def qm_name_def Let_def)
qed

text \<open>
  The end tag of a message is one byte, but the loop asks for five bytes before it looks:
  a file that ends with its messages chunk is rejected.
\<close>

lemma trailing_messages_chunk_rejected: "load_qm (qm_file [(0, 0)] [[]] []) entries = Some (-1, entries)"
proof -
  let ?data = "qm_file [(0, 0)] [[]] []"
  let ?ix = "\<lparr>num_messages = 1, messages_idx = 34, offsets_idx = 21\<rparr> :: qm_index"
  have len: "length ?data = 35"
    by (simp add: qm_file_length qm_record_def)
  have "drop 25 ?data = drop 4 (drop 21 ?data)"
    by simp
  then have "take 4 (drop 25 ?data) = be32_bytes 0"
    using qm_table_entry [of 0 "[(0, 0)]" 0 "[[]]" "qm_chunk 0x69 (concat (map qm_record [[]])) @ chunks []"]
      qm_file_drops(3) [of "[(0, 0)]" "[[]]" "[]"]
    by (simp only: qm_offset_def) simp
  then have "be32_at ?data 25 = Some 0"
    by (simp add: be32_at_Some len be32_bytes_def be32.simps)
  then have "load_messages ?data ?ix 0 entries = Some (-1, entries)"
    by (subst load_messages.simps) (simp add: len scan_message_short)
  then show ?thesis
    using scan_chunks_qm_file [of "[(0, 0)]" "[[]]" "[]"] qm_file_drops(1) [of "[(0, 0)]" "[[]]" "[]"]
      length_qm_magic by (simp add: load_qm_def len)
qed

end
