(* ===== verification/Limbs.thy ===== *)
theory Limbs
  imports Digits
begin

unbundle bit_operations_syntax

text \<open>
  Straight-line multi-limb arithmetic, as \<open>crypto/crypto-ops.c\<close> has it: a number is an
  array of signed limbs, and the code is a sequence of three kinds of lines,

  \<^item> a carry, \<open>c = (s[i] + h) >> w; s[j] += c * m; s[i] -= c << w;\<close>
  \<^item> a folding of a high limb, \<open>s[j] += s[i] * k0; s[j+1] += s[i] * k1; ...\<close>
  \<^item> and the clearing of a limb, \<open>s[i] = 0;\<close>

  which are the constructors of \<open>limb_step\<close>. \<open>exec\<close> runs a step in 64-bit signed
  arithmetic, with the wrap-around written out. Two checkers run over the same code: one
  follows an interval for every limb and fails when a 64-bit operation could overflow, the
  other follows the weight of every limb and fails when a step changes the number modulo
  \<open>M\<close>. Their soundness, proved once here, reduces the correctness of each routine to
  evaluating the checkers on its code.
\<close>

section \<open>Machine arithmetic\<close>

definition i32 :: "int \<Rightarrow> int" where
  "i32 x = signed_take_bit 31 x"

definition i64 :: "int \<Rightarrow> int" where
  "i64 x = signed_take_bit 63 x"

lemma i64_id: "- (2 ^ 63) \<le> x \<Longrightarrow> x < 2 ^ 63 \<Longrightarrow> i64 x = x"
  unfolding i64_def by (rule signed_take_bit_int_eq_self) simp_all

lemma i32_id: "- (2 ^ 31) \<le> x \<Longrightarrow> x < 2 ^ 31 \<Longrightarrow> i32 x = x"
  unfolding i32_def by (rule signed_take_bit_int_eq_self) simp_all

section \<open>Steps\<close>

datatype limb_step =
    Carry (source_limb: nat) (width: nat) (half: int) (target_limb: nat) (factor: int)
  | Fold (source_limb: nat) (first_target: nat) (coefficients: "int list")
  | Clear (source_limb: nat)

text \<open>\<open>s[j] += x * k0; s[j + 1] += x * k1; ...\<close>\<close>

fun mul_add :: "int \<Rightarrow> nat \<Rightarrow> int list \<Rightarrow> int list \<Rightarrow> int list" where
  "mul_add x j [] s = s"
| "mul_add x j (k # ks) s = mul_add x (Suc j) ks (s[j := i64 (s ! j + i64 (x * k))])"

fun exec :: "limb_step \<Rightarrow> int list \<Rightarrow> int list" where
  "exec (Carry i w h j m) s =
     (let c = drop_bit w (i64 (s ! i + h));
          s = s[j := i64 (s ! j + i64 (c * m))] in
      s[i := i64 (s ! i - i64 (push_bit w c))])"
| "exec (Fold i j ks) s = mul_add (s ! i) j ks s"
| "exec (Clear i) s = s[i := 0]"

definition exec_all :: "limb_step list \<Rightarrow> int list \<Rightarrow> int list" where
  "exec_all steps s = fold exec steps s"

section \<open>Intervals\<close>

type_synonym interval = "int \<times> int"

definition within :: "int \<Rightarrow> interval \<Rightarrow> bool" where
  "within x I \<longleftrightarrow> fst I \<le> x \<and> x \<le> snd I"

definition fits64 :: "interval \<Rightarrow> bool" where
  "fits64 I \<longleftrightarrow> - (2 ^ 63) \<le> fst I \<and> snd I < 2 ^ 63"

definition limbs_within :: "int list \<Rightarrow> interval list \<Rightarrow> bool" where
  "limbs_within s Is = list_all2 within s Is"

definition ivl_add :: "interval \<Rightarrow> interval \<Rightarrow> interval" where
  "ivl_add I J = (fst I + fst J, snd I + snd J)"

definition ivl_scale :: "int \<Rightarrow> interval \<Rightarrow> interval" where
  "ivl_scale k I = (if 0 \<le> k then (k * fst I, k * snd I) else (k * snd I, k * fst I))"

definition ivl_shift :: "nat \<Rightarrow> interval \<Rightarrow> interval" where
  "ivl_shift w I = (fst I div 2 ^ w, snd I div 2 ^ w)"

lemma within_add: "within x I \<Longrightarrow> within y J \<Longrightarrow> within (x + y) (ivl_add I J)"
  by (simp add: within_def ivl_add_def)

lemma within_scale: "within x I \<Longrightarrow> within (x * k) (ivl_scale k I)"
  by (auto simp: within_def ivl_scale_def mult.commute mult_left_mono mult_left_mono_neg)

lemma within_shift: "within x I \<Longrightarrow> within (x div 2 ^ w) (ivl_shift w I)"
  by (simp add: within_def ivl_shift_def zdiv_mono1)

lemma i64_within: "within x I \<Longrightarrow> fits64 I \<Longrightarrow> i64 x = x"
  by (rule i64_id) (auto simp: within_def fits64_def)

lemma limbs_within_nth: "limbs_within s Is \<Longrightarrow> i < length Is \<Longrightarrow> within (s ! i) (Is ! i)"
  by (simp add: limbs_within_def list_all2_nthD2)

lemma limbs_within_length: "limbs_within s Is \<Longrightarrow> length s = length Is"
  unfolding limbs_within_def by (rule list_all2_lengthD)

lemma limbs_within_update: "limbs_within s Is \<Longrightarrow> within x I \<Longrightarrow> limbs_within (s[i := x]) (Is[i := I])"
  unfolding limbs_within_def by (rule list_all2_update_cong)

text \<open>\<open>i\<close> is a position of \<open>xs\<close>; written so that it evaluates without computing the length.\<close>

fun inside :: "nat \<Rightarrow> 'a list \<Rightarrow> bool" where
  "inside i [] = False"
| "inside 0 (x # xs) = True"
| "inside (Suc i) (x # xs) = inside i xs"

lemma inside_iff [simp]: "inside i xs \<longleftrightarrow> i < length xs"
  by (induction i xs rule: inside.induct) auto

text \<open>The interval checker: the intervals after a step, if no operation of it can overflow.\<close>

fun mul_add_ivl :: "interval \<Rightarrow> nat \<Rightarrow> int list \<Rightarrow> interval list \<Rightarrow> interval list option" where
  "mul_add_ivl X j [] Is = Some Is"
| "mul_add_ivl X j (k # ks) Is =
     (let P = ivl_scale k X; S = ivl_add (Is ! j) P in
      if inside j Is \<and> fits64 P \<and> fits64 S then mul_add_ivl X (Suc j) ks (Is[j := S]) else None)"

fun step_ivl :: "limb_step \<Rightarrow> interval list \<Rightarrow> interval list option" where
  "step_ivl (Carry i w h j m) Is =
     (let A = ivl_add (Is ! i) (h, h); C = ivl_shift w A; P = ivl_scale m C; S = ivl_add (Is ! j) P in
      if inside i Is \<and> inside j Is \<and> i \<noteq> j \<and> 0 \<le> h \<and> h < 2 ^ w \<and> w < 63 \<and> fits64 A \<and> fits64 P \<and> fits64 S \<and> fits64 (ivl_scale (2 ^ w) C)
      then Some (Is[j := S, i := (- h, 2 ^ w - 1 - h)]) else None)"
| "step_ivl (Fold i j ks) Is =
     (if inside i Is \<and> (i < j \<or> j + length ks \<le> i) then mul_add_ivl (Is ! i) j ks Is else None)"
| "step_ivl (Clear i) Is = Some (Is[i := (0, 0)])"

fun steps_ivl :: "limb_step list \<Rightarrow> interval list \<Rightarrow> interval list option" where
  "steps_ivl [] Is = Some Is"
| "steps_ivl (st # sts) Is = (case step_ivl st Is of None \<Rightarrow> None | Some Is' \<Rightarrow> steps_ivl sts Is')"

section \<open>Weights\<close>

text \<open>
  The number an array stands for, given the weight of each limb. A limb whose content has
  been folded away has weight 0 until it is cleared for reuse.
\<close>

definition limbs_value :: "int list \<Rightarrow> int list \<Rightarrow> int" where
  "limbs_value ws s = sum_list (map2 (*) ws s)"

text \<open>The weight checker; \<open>w0\<close> are the weights of the limbs when in use, \<open>ws\<close> the current ones.\<close>

fun step_weights :: "int \<Rightarrow> int list \<Rightarrow> limb_step \<Rightarrow> int list \<Rightarrow> int list option" where
  "step_weights M w0 (Carry i w h j m) ws =
     (if inside i ws \<and> inside j ws \<and> i \<noteq> j \<and> (ws ! j * m - ws ! i * 2 ^ w) mod M = 0 then Some ws else None)"
| "step_weights M w0 (Fold i j ks) ws =
     (if inside i ws \<and> j + length ks \<le> length ws \<and> (i < j \<or> j + length ks \<le> i) \<and>
         (sum_list (map2 (*) (drop j ws) ks) - ws ! i) mod M = 0
      then Some (ws[i := 0]) else None)"
| "step_weights M w0 (Clear i) ws =
     (if inside i ws \<and> ws ! i = 0 then Some (ws[i := w0 ! i]) else None)"

fun steps_weights :: "int \<Rightarrow> int list \<Rightarrow> limb_step list \<Rightarrow> int list \<Rightarrow> int list option" where
  "steps_weights M w0 [] ws = Some ws"
| "steps_weights M w0 (st # sts) ws =
     (case step_weights M w0 st ws of None \<Rightarrow> None | Some ws' \<Rightarrow> steps_weights M w0 sts ws')"

section \<open>Soundness of the interval checker\<close>

lemma limb_residue: "within (x - (x + h) div 2 ^ w * 2 ^ w) (- h, 2 ^ w - 1 - h)" for x h :: int
proof -
  have "(x + h) mod 2 ^ w = x + h - (x + h) div 2 ^ w * 2 ^ w"
    by (simp add: minus_div_mult_eq_mod [symmetric])
  moreover have "0 \<le> (x + h) mod 2 ^ w" "(x + h) mod 2 ^ w < 2 ^ w"
    by simp_all
  ultimately show ?thesis
    unfolding within_def fst_conv snd_conv by linarith
qed

lemma exec_carry:
  assumes "limbs_within s Is" and "step_ivl (Carry i w h j m) Is = Some Is'"
  defines "c \<equiv> (s ! i + h) div 2 ^ w"
  shows "exec (Carry i w h j m) s = s[j := s ! j + c * m, i := s ! i - c * 2 ^ w]"
    and "limbs_within (exec (Carry i w h j m) s) Is'"
proof -
  define A C P S where "A = ivl_add (Is ! i) (h, h)" and "C = ivl_shift w A" and "P = ivl_scale m C" and "S = ivl_add (Is ! j) P"
  have ok: "i < length Is" "j < length Is" "i \<noteq> j" "0 \<le> h" "h < 2 ^ w" "w < 63" "fits64 A" "fits64 P" "fits64 S"
      "fits64 (ivl_scale (2 ^ w) C)" and Is': "Is' = Is[j := S, i := (- h, 2 ^ w - 1 - h)]"
    using assms(2) by (auto simp: A_def C_def P_def S_def Let_def split: if_splits)
  have x: "within (s ! i) (Is ! i)" "within (s ! j) (Is ! j)"
    using assms(1) ok by (simp_all add: limbs_within_nth)
  have A: "within (s ! i + h) A"
    using within_add [OF x(1), of h "(h, h)"] by (simp add: A_def within_def)
  have C: "within c C"
    using within_shift [OF A, of w] by (simp add: c_def C_def)
  have P: "within (c * m) P" and W: "within (c * 2 ^ w) (ivl_scale (2 ^ w) C)"
    using within_scale [OF C] by (simp_all add: P_def)
  have S: "within (s ! j + c * m) S"
    using within_add [OF x(2) P] by (simp add: S_def)
  have r: "within (s ! i - c * 2 ^ w) (- h, 2 ^ w - 1 - h)"
    unfolding c_def by (rule limb_residue)
  have "(2 :: int) ^ w \<le> 2 ^ 62"
    using ok(6) by (intro power_increasing) auto
  then have "fits64 (- h, 2 ^ w - 1 - h)"
    using ok(4,5) by (simp add: fits64_def)
  note ids = i64_within [OF A ok(7)] i64_within [OF P ok(8)] i64_within [OF S ok(9)] i64_within [OF W ok(10)]
    i64_within [OF r this]
  have "length s = length Is"
    using assms(1) by (rule limbs_within_length)
  then show eq: "exec (Carry i w h j m) s = s[j := s ! j + c * m, i := s ! i - c * 2 ^ w]"
    using ids ok(1-3) by (simp add: Let_def drop_bit_eq_div push_bit_eq_mult c_def)
  show "limbs_within (exec (Carry i w h j m) s) Is'"
    unfolding eq Is' by (intro limbs_within_update assms(1) S r)
qed

lemma mul_add_ivl_sound:
  assumes "limbs_within s Is" and "within x X" and "mul_add_ivl X j ks Is = Some Is'"
  shows "limbs_within (mul_add x j ks s) Is' \<and> length Is' = length Is"
  using assms
proof (induction ks arbitrary: j s Is)
  case (Cons k ks)
  define P S where "P = ivl_scale k X" and "S = ivl_add (Is ! j) P"
  have ok: "j < length Is" "fits64 P" "fits64 S" and rest: "mul_add_ivl X (Suc j) ks (Is[j := S]) = Some Is'"
    using Cons.prems(3) by (auto simp: P_def S_def Let_def split: if_splits)
  have P: "within (x * k) P"
    unfolding P_def by (rule within_scale [OF Cons.prems(2)])
  have S: "within (s ! j + x * k) S"
    unfolding S_def using limbs_within_nth [OF Cons.prems(1) ok(1)] P by (rule within_add)
  have "limbs_within (s[j := i64 (s ! j + i64 (x * k))]) (Is[j := S])"
    using Cons.prems(1) S i64_within [OF P ok(2)] i64_within [OF S ok(3)] by (simp add: limbs_within_update)
  then show ?case
    using Cons.IH [OF _ Cons.prems(2) rest] by simp
qed simp

lemma step_ivl_sound:
  assumes "limbs_within s Is" and "step_ivl st Is = Some Is'"
  shows "limbs_within (exec st s) Is'"
proof (cases st)
  case (Carry i w h j m)
  then show ?thesis
    using exec_carry(2) assms by blast
next
  case (Fold i j ks)
  then have "within (s ! i) (Is ! i)" "mul_add_ivl (Is ! i) j ks Is = Some Is'"
    using assms by (auto simp: limbs_within_nth split: if_splits)
  then show ?thesis
    using mul_add_ivl_sound [OF assms(1)] Fold by simp
next
  case (Clear i)
  then show ?thesis
    using assms by (auto simp: limbs_within_update within_def)
qed

lemma steps_ivl_sound:
  assumes "limbs_within s Is" and "steps_ivl sts Is = Some Is'"
  shows "limbs_within (exec_all sts s) Is'"
  using assms
proof (induction sts arbitrary: s Is)
  case (Cons st sts)
  then obtain I where "step_ivl st Is = Some I" "steps_ivl sts I = Some Is'"
    by (auto split: option.splits)
  then show ?case
    using Cons step_ivl_sound [of s Is st I] by (simp add: exec_all_def)
qed (simp add: exec_all_def)

section \<open>Soundness of the weight checker\<close>

lemma limbs_value_Nil [simp]: "limbs_value [] s = 0" "limbs_value ws [] = 0"
  by (simp_all add: limbs_value_def)

lemma limbs_value_Cons [simp]: "limbs_value (w # ws) (x # s) = w * x + limbs_value ws s"
  by (simp add: limbs_value_def)

lemma limbs_value_update:
  "length ws = length s \<Longrightarrow> j < length s \<Longrightarrow> limbs_value ws (s[j := v]) = limbs_value ws s + ws ! j * (v - s ! j)"
proof (induction ws s arbitrary: j rule: list_induct2)
  case (Cons w ws x s)
  then show ?case
    by (cases j) (auto simp: algebra_simps)
qed simp

lemma limbs_value_weight_update:
  "length ws = length s \<Longrightarrow> i < length s \<Longrightarrow> limbs_value (ws[i := v]) s = limbs_value ws s + (v - ws ! i) * s ! i"
proof (induction ws s arbitrary: i rule: list_induct2)
  case (Cons w ws x s)
  then show ?case
    by (cases i) (auto simp: algebra_simps)
qed simp

lemma mul_add_length [simp]: "length (mul_add x j ks s) = length s"
  by (induction ks arbitrary: j s) auto

lemma mul_add_other: "i < j \<or> j + length ks \<le> i \<Longrightarrow> mul_add x j ks s ! i = s ! i"
  by (induction ks arbitrary: j s) auto

lemma mul_add_value:
  assumes "limbs_within s Is" and "within x X" and "mul_add_ivl X j ks Is = Some Is'"
    and "length ws = length s" and "j + length ks \<le> length ws"
  shows "limbs_value ws (mul_add x j ks s) = limbs_value ws s + sum_list (map2 (*) (drop j ws) ks) * x"
  using assms
proof (induction ks arbitrary: j s Is)
  case (Cons k ks)
  define P S where "P = ivl_scale k X" and "S = ivl_add (Is ! j) P"
  have ok: "j < length Is" "fits64 P" "fits64 S" and rest: "mul_add_ivl X (Suc j) ks (Is[j := S]) = Some Is'"
    using Cons.prems(3) by (auto simp: P_def S_def Let_def split: if_splits)
  have P: "within (x * k) P"
    unfolding P_def by (rule within_scale [OF Cons.prems(2)])
  have S: "within (s ! j + x * k) S"
    unfolding S_def using limbs_within_nth [OF Cons.prems(1) ok(1)] P by (rule within_add)
  have "i64 (s ! j + i64 (x * k)) = s ! j + x * k"
    using i64_within [OF P ok(2)] i64_within [OF S ok(3)] by simp
  moreover have "limbs_within (s[j := s ! j + x * k]) (Is[j := S])"
    using Cons.prems(1) S by (rule limbs_within_update)
  moreover have "drop j ws = ws ! j # drop (Suc j) ws"
    using Cons.prems(5) by (simp add: Cons_nth_drop_Suc)
  ultimately show ?case
    using Cons.IH [OF _ Cons.prems(2) rest, of "s[j := s ! j + x * k]"] Cons.prems(4,5)
    by (simp add: limbs_value_update algebra_simps)
qed simp

lemma mod_add_multiple: "a mod M = 0 \<Longrightarrow> (v + a * c) mod M = v mod M" for a c v M :: int
  by (auto simp: mod_eq_0_iff_dvd mult.assoc elim!: dvdE)

lemma step_weights_sound:
  assumes "limbs_within s Is" and "step_ivl st Is = Some Is'" and "step_weights M w0 st ws = Some ws'" and "length ws = length s"
  shows "limbs_value ws' (exec st s) mod M = limbs_value ws s mod M"
proof (cases st)
  case (Carry i w h j m)
  let ?c = "(s ! i + h) div 2 ^ w"
  have ok: "i < length s" "j < length s" "i \<noteq> j" "(ws ! j * m - ws ! i * 2 ^ w) mod M = 0" and [simp]: "ws' = ws"
    using assms(3,4) Carry by (auto split: if_splits)
  have "exec st s = s[j := s ! j + ?c * m, i := s ! i - ?c * 2 ^ w]"
    unfolding Carry by (rule exec_carry(1) [OF assms(1) assms(2) [unfolded Carry]])
  then have "limbs_value ws' (exec st s) = limbs_value ws s + ws ! j * (?c * m) + ws ! i * (- (?c * 2 ^ w))"
    using ok(1-3) assms(4) by (simp add: limbs_value_update)
  also have "\<dots> = limbs_value ws s + (ws ! j * m - ws ! i * 2 ^ w) * ?c"
    by (simp add: left_diff_distrib)
  finally have "limbs_value ws' (exec st s) = limbs_value ws s + (ws ! j * m - ws ! i * 2 ^ w) * ?c" .
  then show ?thesis
    using ok(4) by (simp only: mod_add_multiple)
next
  case (Fold i j ks)
  have ok: "i < length s" "j + length ks \<le> length ws" "i < j \<or> j + length ks \<le> i"
      "(sum_list (map2 (*) (drop j ws) ks) - ws ! i) mod M = 0" and ws': "ws' = ws[i := 0]"
    using assms(3,4) Fold by (auto split: if_splits)
  have x: "within (s ! i) (Is ! i)" "mul_add_ivl (Is ! i) j ks Is = Some Is'"
    using assms(1,2) Fold by (auto simp: limbs_within_nth split: if_splits)
  have "limbs_value ws' (exec st s) = limbs_value ws s + (sum_list (map2 (*) (drop j ws) ks) - ws ! i) * s ! i"
    using mul_add_value [OF assms(1) x assms(4) ok(2)] mul_add_other [OF ok(3), of "s ! i" s] ok(1) assms(4) Fold
    by (simp add: ws' limbs_value_weight_update algebra_simps)
  then show ?thesis
    using ok(4) by (simp only: mod_add_multiple)
next
  case (Clear i)
  have ok: "i < length s" "ws ! i = 0" and ws': "ws' = ws[i := w0 ! i]"
    using assms(3,4) Clear by (auto split: if_splits)
  then show ?thesis
    using assms(4) Clear by (simp add: limbs_value_update limbs_value_weight_update)
qed

lemma exec_length [simp]: "length (exec st s) = length s"
  by (cases st) (auto simp: Let_def)

lemma exec_all_length [simp]: "length (exec_all sts s) = length s"
  by (induction sts arbitrary: s) (auto simp: exec_all_def)

lemma step_weights_length: "step_weights M w0 st ws = Some ws' \<Longrightarrow> length ws' = length ws"
  by (cases st) (auto split: if_splits)

theorem steps_sound:
  assumes "limbs_within s Is" and "steps_ivl sts Is = Some Is'" and "steps_weights M w0 sts ws = Some ws'"
    and "length ws = length s"
  shows "limbs_within (exec_all sts s) Is'" and "limbs_value ws' (exec_all sts s) mod M = limbs_value ws s mod M"
proof -
  show "limbs_within (exec_all sts s) Is'"
    using assms(1,2) by (rule steps_ivl_sound)
  show "limbs_value ws' (exec_all sts s) mod M = limbs_value ws s mod M"
    using assms
  proof (induction sts arbitrary: s Is ws)
    case (Cons st sts)
    then obtain I W where st: "step_ivl st Is = Some I" "steps_ivl sts I = Some Is'"
        "step_weights M w0 st ws = Some W" "steps_weights M w0 sts W = Some ws'"
      by (auto split: option.splits)
    then show ?case
      using Cons.IH [of "exec st s" I W] Cons.prems step_ivl_sound [OF _ st(1)] step_weights_sound [OF _ st(1,3)]
        step_weights_length [OF st(3)]
      by (simp add: exec_all_def)
  qed (simp add: exec_all_def)
qed

lemma exec_all_append: "exec_all (xs @ ys) s = exec_all ys (exec_all xs s)"
  by (simp add: exec_all_def)

section \<open>Weights that are powers\<close>

lemma limbs_value_zeros [simp]: "limbs_value (replicate k 0) s = 0"
proof (induction k arbitrary: s)
  case (Suc k)
  then show ?case
    by (cases s) simp_all
qed simp

lemma limbs_value_powers:
  "n \<le> length s \<Longrightarrow> limbs_value (map (\<lambda>i. c * 2 ^ (b * i)) [0..<n] @ replicate k 0) s = c * hsum b (take n s)"
proof (induction s arbitrary: n c)
  case (Cons x s)
  show ?case
  proof (cases n)
    case (Suc m)
    have "map (\<lambda>i. c * 2 ^ (b * i)) [0..<Suc m] = c # map (\<lambda>i. c * 2 ^ b * 2 ^ (b * i)) [0..<m]"
      by (simp add: upt_conv_Cons map_Suc_upt [symmetric] power_add mult.assoc del: upt_Suc)
    then show ?thesis
      using Suc Cons.IH [of m "c * 2 ^ b"] Cons.prems by (simp add: algebra_simps)
  qed simp
qed simp

section \<open>Evaluation of the checkers\<close>

text \<open>
  Rules that run the checkers on concrete code, for use with \<open>simp only\<close>: list access and
  update by numerals, and interval arithmetic on binary numerals.
\<close>

lemma list_eval:
  "(x # xs) ! 0 = x" "(x # xs) ! 1 = xs ! 0" "(x # xs) ! Suc n = xs ! n" "(x # xs) ! numeral k = xs ! pred_numeral k"
  "(x # xs)[0 := y] = y # xs" "(x # xs)[1 := y] = x # xs[0 := y]" "(x # xs)[Suc n := y] = x # xs[n := y]"
  "(x # xs)[numeral k := y] = x # xs[pred_numeral k := y]"
  "inside 0 (x # xs)" "inside 1 (x # xs) = inside 0 xs" "inside (Suc n) (x # xs) = inside n xs"
  "inside (numeral k) (x # xs) = inside (pred_numeral k) xs"
  by (simp_all add: numeral_eq_Suc)

lemma replicate_numeral [simp]: "replicate (numeral k) x = x # replicate (pred_numeral k) x"
  by (simp add: numeral_eq_Suc)

lemma drop_bit_eval:
  "drop_bit 1 (numeral (num.Bit0 k) :: int) = numeral k" "drop_bit 1 (numeral (num.Bit1 k) :: int) = numeral k"
  "drop_bit 1 (- numeral (num.Bit0 k) :: int) = - numeral k"
  "drop_bit 1 (- numeral (num.Bit1 k) :: int) = - numeral (Num.inc k)"
  "drop_bit (numeral m) (1 :: int) = 0" "drop_bit (numeral m) (- 1 :: int) = - 1"
  "drop_bit 1 (1 :: int) = 0" "drop_bit 1 (- 1 :: int) = - 1"
  by (simp_all add: numeral_eq_Suc drop_bit_Suc add_One)

lemma ivl_eval:
  "Let (a, b) f = f (a, b)"
  "ivl_add (a, b) (c, d) = (a + c, b + d)" "ivl_scale 1 I = I"
  "ivl_scale (numeral k) (a, b) = (numeral k * a, numeral k * b)"
  "ivl_scale (- numeral k) (a, b) = (- numeral k * b, - numeral k * a)"
  "ivl_shift w (a, b) = (drop_bit w a, drop_bit w b)"
  "fits64 (a, b) \<longleftrightarrow> - 9223372036854775808 \<le> a \<and> b < 9223372036854775808"
  by (simp_all add: ivl_add_def ivl_scale_def ivl_shift_def fits64_def drop_bit_eq_div)

lemma nat_eval: "nat 0 = 0" "nat 1 = 1" "nat (numeral k) = numeral k"
  by simp_all

lemmas numeral_eval = pred_numeral_simps Suc_numeral Num.BitM.simps Num.inc.simps numeral_One One_nat_def [symmetric]
  arith_simps rel_simps power_numeral Num.pow.simps Num.sqr.simps power_one_right arith_special
  mult_1_left mult_1_right mult_minus1 mult_minus1_right minus_minus diff_nat_numeral nat_eval

lemma replicate_1: "replicate 1 x = [x]"
  by simp

lemmas limb_eval = replicate_1 steps_ivl.simps step_ivl.simps mul_add_ivl.simps ivl_eval list_eval list.map append.simps
  replicate_numeral replicate_0 replicate_Suc list.size option.case if_True if_False simp_thms numeral_eval
  drop_bit_eval drop_bit_of_0 drop_bit_0 id_apply
  drop_bit_numeral_bit0 drop_bit_numeral_bit1 drop_bit_numeral_minus_bit0 drop_bit_numeral_minus_bit1

lemmas limb_cong = let_weak_cong if_weak_cong option.case_cong_weak

end
