(* ===== verification/Scalar25519.thy ===== *)
theory Scalar25519
  imports Limbs
begin

unbundle bit_operations_syntax

text \<open>
  The scalar arithmetic of \<open>crypto/crypto-ops.c\<close>: \<open>sc_reduce\<close>, \<open>sc_reduce32\<close>,
  \<open>sc_add\<close>, \<open>sc_sub\<close>, \<open>sc_mul\<close>, \<open>sc_muladd\<close>, \<open>sc_mulsub\<close> and the two tests
  \<open>sc_check\<close> and \<open>sc_isnonzero\<close>. A scalar is a string of 32 bytes. Each routine reads
  its arguments into limbs of 21 bits, combines them, reduces the result with a fixed sequence of
  carries and foldings, and writes 32 bytes. The sequences are lists of the steps of \<open>Limbs\<close>,
  one element for a line of the source (six lines for a folding), and every routine has its own.

  The theorems say that each routine returns the canonical representative modulo the group
  order \<open>l\<close>, for all inputs, reduced or not, and that no 64-bit operation overflows.
\<close>

section \<open>The code\<close>

definition load_3 :: "blob \<Rightarrow> u64" where
  "load_3 s =
     (let result = ucast (s ! 0);
          result = result OR push_bit 8 (ucast (s ! 1));
          result = result OR push_bit 16 (ucast (s ! 2)) in
      result)"

definition load_4 :: "blob \<Rightarrow> u64" where
  "load_4 s =
     (let result = ucast (s ! 0);
          result = result OR push_bit 8 (ucast (s ! 1));
          result = result OR push_bit 16 (ucast (s ! 2));
          result = result OR push_bit 24 (ucast (s ! 3)) in
      result)"

text \<open>The limbs of a scalar of 32 bytes, of one of 64 bytes, and the bytes of twelve limbs.\<close>

definition sc_load :: "blob \<Rightarrow> int list" where
  "sc_load s =
   [sint (2097151 AND load_3 s),
    sint (2097151 AND drop_bit 5 (load_4 (drop 2 s))),
    sint (2097151 AND drop_bit 2 (load_3 (drop 5 s))),
    sint (2097151 AND drop_bit 7 (load_4 (drop 7 s))),
    sint (2097151 AND drop_bit 4 (load_4 (drop 10 s))),
    sint (2097151 AND drop_bit 1 (load_3 (drop 13 s))),
    sint (2097151 AND drop_bit 6 (load_4 (drop 15 s))),
    sint (2097151 AND drop_bit 3 (load_3 (drop 18 s))),
    sint (2097151 AND load_3 (drop 21 s)),
    sint (2097151 AND drop_bit 5 (load_4 (drop 23 s))),
    sint (2097151 AND drop_bit 2 (load_3 (drop 26 s))),
    sint (drop_bit 7 (load_4 (drop 28 s)))]"

definition sc_load_wide :: "blob \<Rightarrow> int list" where
  "sc_load_wide s =
   [sint (2097151 AND load_3 s),
    sint (2097151 AND drop_bit 5 (load_4 (drop 2 s))),
    sint (2097151 AND drop_bit 2 (load_3 (drop 5 s))),
    sint (2097151 AND drop_bit 7 (load_4 (drop 7 s))),
    sint (2097151 AND drop_bit 4 (load_4 (drop 10 s))),
    sint (2097151 AND drop_bit 1 (load_3 (drop 13 s))),
    sint (2097151 AND drop_bit 6 (load_4 (drop 15 s))),
    sint (2097151 AND drop_bit 3 (load_3 (drop 18 s))),
    sint (2097151 AND load_3 (drop 21 s)),
    sint (2097151 AND drop_bit 5 (load_4 (drop 23 s))),
    sint (2097151 AND drop_bit 2 (load_3 (drop 26 s))),
    sint (2097151 AND drop_bit 7 (load_4 (drop 28 s))),
    sint (2097151 AND drop_bit 4 (load_4 (drop 31 s))),
    sint (2097151 AND drop_bit 1 (load_3 (drop 34 s))),
    sint (2097151 AND drop_bit 6 (load_4 (drop 36 s))),
    sint (2097151 AND drop_bit 3 (load_3 (drop 39 s))),
    sint (2097151 AND load_3 (drop 42 s)),
    sint (2097151 AND drop_bit 5 (load_4 (drop 44 s))),
    sint (2097151 AND drop_bit 2 (load_3 (drop 47 s))),
    sint (2097151 AND drop_bit 7 (load_4 (drop 49 s))),
    sint (2097151 AND drop_bit 4 (load_4 (drop 52 s))),
    sint (2097151 AND drop_bit 1 (load_3 (drop 55 s))),
    sint (2097151 AND drop_bit 6 (load_4 (drop 57 s))),
    sint (drop_bit 3 (load_4 (drop 60 s)))]"

definition sc_store :: "int list \<Rightarrow> blob" where
  "sc_store s =
   [word_of_int (drop_bit 0 (s ! 0)),
    word_of_int (drop_bit 8 (s ! 0)),
    word_of_int (drop_bit 16 (s ! 0) OR i64 (push_bit 5 (s ! 1))),
    word_of_int (drop_bit 3 (s ! 1)),
    word_of_int (drop_bit 11 (s ! 1)),
    word_of_int (drop_bit 19 (s ! 1) OR i64 (push_bit 2 (s ! 2))),
    word_of_int (drop_bit 6 (s ! 2)),
    word_of_int (drop_bit 14 (s ! 2) OR i64 (push_bit 7 (s ! 3))),
    word_of_int (drop_bit 1 (s ! 3)),
    word_of_int (drop_bit 9 (s ! 3)),
    word_of_int (drop_bit 17 (s ! 3) OR i64 (push_bit 4 (s ! 4))),
    word_of_int (drop_bit 4 (s ! 4)),
    word_of_int (drop_bit 12 (s ! 4)),
    word_of_int (drop_bit 20 (s ! 4) OR i64 (push_bit 1 (s ! 5))),
    word_of_int (drop_bit 7 (s ! 5)),
    word_of_int (drop_bit 15 (s ! 5) OR i64 (push_bit 6 (s ! 6))),
    word_of_int (drop_bit 2 (s ! 6)),
    word_of_int (drop_bit 10 (s ! 6)),
    word_of_int (drop_bit 18 (s ! 6) OR i64 (push_bit 3 (s ! 7))),
    word_of_int (drop_bit 5 (s ! 7)),
    word_of_int (drop_bit 13 (s ! 7)),
    word_of_int (drop_bit 0 (s ! 8)),
    word_of_int (drop_bit 8 (s ! 8)),
    word_of_int (drop_bit 16 (s ! 8) OR i64 (push_bit 5 (s ! 9))),
    word_of_int (drop_bit 3 (s ! 9)),
    word_of_int (drop_bit 11 (s ! 9)),
    word_of_int (drop_bit 19 (s ! 9) OR i64 (push_bit 2 (s ! 10))),
    word_of_int (drop_bit 6 (s ! 10)),
    word_of_int (drop_bit 14 (s ! 10) OR i64 (push_bit 7 (s ! 11))),
    word_of_int (drop_bit 1 (s ! 11)),
    word_of_int (drop_bit 9 (s ! 11)),
    word_of_int (drop_bit 17 (s ! 11))]"

text \<open>
  The lines of the reductions: \<open>carry = (s[i] + (1<<20)) >> 21; s[i+1] += carry; s[i] -= carry << 21;\<close>,
  the same without rounding, and the six lines \<open>s[i-12] += s[i] * 666643; ...\<close>.
\<close>

definition rounded :: "nat \<Rightarrow> limb_step" where
  "rounded i = Carry i 21 (2 ^ 20) (i + 1) 1"

definition floored :: "nat \<Rightarrow> limb_step" where
  "floored i = Carry i 21 0 (i + 1) 1"

definition folded :: "nat \<Rightarrow> limb_step" where
  "folded i = Fold i (i - 12) [666643, 470296, 654183, - 997805, 136657, - 683901]"

definition sc_0 :: "blob" where
  "sc_0 = map (\<lambda>_. 0) [0..<32]"

definition sc_reduce_fold :: "limb_step list" where
  "sc_reduce_fold =
   [folded 23, folded 22, folded 21, folded 20, folded 19, folded 18, rounded 6, rounded 8, rounded 10,
    rounded 12, rounded 14, rounded 16, rounded 7, rounded 9, rounded 11, rounded 13, rounded 15, folded 17,
    folded 16, folded 15, folded 14, folded 13, folded 12, Clear 12]"

definition sc_reduce_finish :: "limb_step list" where
  "sc_reduce_finish =
   [rounded 0, rounded 2, rounded 4, rounded 6, rounded 8, rounded 10, rounded 1, rounded 3, rounded 5,
    rounded 7, rounded 9, rounded 11, folded 12, Clear 12, floored 0, floored 1, floored 2, floored 3,
    floored 4, floored 5, floored 6, floored 7, floored 8, floored 9, floored 10, floored 11, folded 12,
    floored 0, floored 1, floored 2, floored 3, floored 4, floored 5, floored 6, floored 7, floored 8,
    floored 9, floored 10]"

definition sc_reduce :: "blob \<Rightarrow> blob" where
  "sc_reduce s = sc_store (exec_all sc_reduce_finish (exec_all sc_reduce_fold (sc_load_wide s)))"

definition sc_reduce32_finish :: "limb_step list" where
  "sc_reduce32_finish =
   [rounded 0, rounded 2, rounded 4, rounded 6, rounded 8, rounded 10, rounded 1, rounded 3, rounded 5,
    rounded 7, rounded 9, rounded 11, folded 12, Clear 12, floored 0, floored 1, floored 2, floored 3,
    floored 4, floored 5, floored 6, floored 7, floored 8, floored 9, floored 10, floored 11, folded 12,
    floored 0, floored 1, floored 2, floored 3, floored 4, floored 5, floored 6, floored 7, floored 8,
    floored 9, floored 10]"

definition sc_reduce32 :: "blob \<Rightarrow> blob" where
  "sc_reduce32 s = sc_store (exec_all sc_reduce32_finish (sc_load s @ [0]))"

definition sc_add_finish :: "limb_step list" where
  "sc_add_finish =
   [rounded 0, rounded 2, rounded 4, rounded 6, rounded 8, rounded 10, rounded 1, rounded 3, rounded 5,
    rounded 7, rounded 9, rounded 11, folded 12, Clear 12, floored 0, floored 1, floored 2, floored 3,
    floored 4, floored 5, floored 6, floored 7, floored 8, floored 9, floored 10, floored 11, folded 12,
    floored 0, floored 1, floored 2, floored 3, floored 4, floored 5, floored 6, floored 7, floored 8,
    floored 9, floored 10]"

definition sc_add :: "blob \<Rightarrow> blob \<Rightarrow> blob" where
  "sc_add a b = sc_store (exec_all sc_add_finish (map2 (\<lambda>x y. i64 (x + y)) (sc_load a) (sc_load b) @ [0]))"

definition sc_sub_finish :: "limb_step list" where
  "sc_sub_finish =
   [rounded 0, rounded 2, rounded 4, rounded 6, rounded 8, rounded 10, rounded 1, rounded 3, rounded 5,
    rounded 7, rounded 9, rounded 11, folded 12, Clear 12, floored 0, floored 1, floored 2, floored 3,
    floored 4, floored 5, floored 6, floored 7, floored 8, floored 9, floored 10, floored 11, folded 12,
    floored 0, floored 1, floored 2, floored 3, floored 4, floored 5, floored 6, floored 7, floored 8,
    floored 9, floored 10]"

definition sc_sub :: "blob \<Rightarrow> blob \<Rightarrow> blob" where
  "sc_sub a b = sc_store (exec_all sc_sub_finish (map2 (\<lambda>x y. i64 (x - y)) (sc_load a) (sc_load b) @ [0]))"

definition sc_mulsub_products :: "int list \<Rightarrow> int list \<Rightarrow> int list \<Rightarrow> int list" where
  "sc_mulsub_products a b c =
   [i64 (c ! 0 - a ! 0 * b ! 0),
    i64 (c ! 1 - (a ! 0 * b ! 1 + a ! 1 * b ! 0)),
    i64 (c ! 2 - (a ! 0 * b ! 2 + a ! 1 * b ! 1 + a ! 2 * b ! 0)),
    i64 (c ! 3 - (a ! 0 * b ! 3 + a ! 1 * b ! 2 + a ! 2 * b ! 1 + a ! 3 * b ! 0)),
    i64 (c ! 4 - (a ! 0 * b ! 4 + a ! 1 * b ! 3 + a ! 2 * b ! 2 + a ! 3 * b ! 1 + a ! 4 * b ! 0)),
    i64 (c ! 5 - (a ! 0 * b ! 5 + a ! 1 * b ! 4 + a ! 2 * b ! 3 + a ! 3 * b ! 2 + a ! 4 * b ! 1 + a ! 5 * b ! 0)),
    i64 (c ! 6 - (a ! 0 * b ! 6 + a ! 1 * b ! 5 + a ! 2 * b ! 4 + a ! 3 * b ! 3 + a ! 4 * b ! 2 + a ! 5 * b ! 1 + a ! 6 * b ! 0)),
    i64 (c ! 7 - (a ! 0 * b ! 7 + a ! 1 * b ! 6 + a ! 2 * b ! 5 + a ! 3 * b ! 4 + a ! 4 * b ! 3 + a ! 5 * b ! 2 + a ! 6 * b ! 1 + a ! 7 * b ! 0)),
    i64 (c ! 8 - (a ! 0 * b ! 8 + a ! 1 * b ! 7 + a ! 2 * b ! 6 + a ! 3 * b ! 5 + a ! 4 * b ! 4 + a ! 5 * b ! 3 + a ! 6 * b ! 2 + a ! 7 * b ! 1 + a ! 8 * b ! 0)),
    i64 (c ! 9 - (a ! 0 * b ! 9 + a ! 1 * b ! 8 + a ! 2 * b ! 7 + a ! 3 * b ! 6 + a ! 4 * b ! 5 + a ! 5 * b ! 4 + a ! 6 * b ! 3 + a ! 7 * b ! 2 + a ! 8 * b ! 1 + a ! 9 * b ! 0)),
    i64 (c ! 10 - (a ! 0 * b ! 10 + a ! 1 * b ! 9 + a ! 2 * b ! 8 + a ! 3 * b ! 7 + a ! 4 * b ! 6 + a ! 5 * b ! 5 + a ! 6 * b ! 4 + a ! 7 * b ! 3 + a ! 8 * b ! 2 + a ! 9 * b ! 1 + a ! 10 * b ! 0)),
    i64 (c ! 11 - (a ! 0 * b ! 11 + a ! 1 * b ! 10 + a ! 2 * b ! 9 + a ! 3 * b ! 8 + a ! 4 * b ! 7 + a ! 5 * b ! 6 + a ! 6 * b ! 5 + a ! 7 * b ! 4 + a ! 8 * b ! 3 + a ! 9 * b ! 2 + a ! 10 * b ! 1 + a ! 11 * b ! 0)),
    i64 (-(a ! 1 * b ! 11 + a ! 2 * b ! 10 + a ! 3 * b ! 9 + a ! 4 * b ! 8 + a ! 5 * b ! 7 + a ! 6 * b ! 6 + a ! 7 * b ! 5 + a ! 8 * b ! 4 + a ! 9 * b ! 3 + a ! 10 * b ! 2 + a ! 11 * b ! 1)),
    i64 (-(a ! 2 * b ! 11 + a ! 3 * b ! 10 + a ! 4 * b ! 9 + a ! 5 * b ! 8 + a ! 6 * b ! 7 + a ! 7 * b ! 6 + a ! 8 * b ! 5 + a ! 9 * b ! 4 + a ! 10 * b ! 3 + a ! 11 * b ! 2)),
    i64 (-(a ! 3 * b ! 11 + a ! 4 * b ! 10 + a ! 5 * b ! 9 + a ! 6 * b ! 8 + a ! 7 * b ! 7 + a ! 8 * b ! 6 + a ! 9 * b ! 5 + a ! 10 * b ! 4 + a ! 11 * b ! 3)),
    i64 (-(a ! 4 * b ! 11 + a ! 5 * b ! 10 + a ! 6 * b ! 9 + a ! 7 * b ! 8 + a ! 8 * b ! 7 + a ! 9 * b ! 6 + a ! 10 * b ! 5 + a ! 11 * b ! 4)),
    i64 (-(a ! 5 * b ! 11 + a ! 6 * b ! 10 + a ! 7 * b ! 9 + a ! 8 * b ! 8 + a ! 9 * b ! 7 + a ! 10 * b ! 6 + a ! 11 * b ! 5)),
    i64 (-(a ! 6 * b ! 11 + a ! 7 * b ! 10 + a ! 8 * b ! 9 + a ! 9 * b ! 8 + a ! 10 * b ! 7 + a ! 11 * b ! 6)),
    i64 (-(a ! 7 * b ! 11 + a ! 8 * b ! 10 + a ! 9 * b ! 9 + a ! 10 * b ! 8 + a ! 11 * b ! 7)),
    i64 (-(a ! 8 * b ! 11 + a ! 9 * b ! 10 + a ! 10 * b ! 9 + a ! 11 * b ! 8)),
    i64 (-(a ! 9 * b ! 11 + a ! 10 * b ! 10 + a ! 11 * b ! 9)),
    i64 (-(a ! 10 * b ! 11 + a ! 11 * b ! 10)),
    i64 (-a ! 11 * b ! 11),
    0]"

definition sc_mulsub_fold :: "limb_step list" where
  "sc_mulsub_fold =
   [rounded 0, rounded 2, rounded 4, rounded 6, rounded 8, rounded 10, rounded 12, rounded 14, rounded 16,
    rounded 18, rounded 20, rounded 22, rounded 1, rounded 3, rounded 5, rounded 7, rounded 9, rounded 11,
    rounded 13, rounded 15, rounded 17, rounded 19, rounded 21, folded 23, folded 22, folded 21, folded 20,
    folded 19, folded 18, rounded 6, rounded 8, rounded 10, rounded 12, rounded 14, rounded 16, rounded 7,
    rounded 9, rounded 11, rounded 13, rounded 15, folded 17, folded 16, folded 15, folded 14, folded 13,
    folded 12, Clear 12]"

definition sc_mulsub_finish :: "limb_step list" where
  "sc_mulsub_finish =
   [rounded 0, rounded 2, rounded 4, rounded 6, rounded 8, rounded 10, rounded 1, rounded 3, rounded 5,
    rounded 7, rounded 9, rounded 11, folded 12, Clear 12, floored 0, floored 1, floored 2, floored 3,
    floored 4, floored 5, floored 6, floored 7, floored 8, floored 9, floored 10, floored 11, folded 12,
    floored 0, floored 1, floored 2, floored 3, floored 4, floored 5, floored 6, floored 7, floored 8,
    floored 9, floored 10]"

definition sc_mulsub :: "blob \<Rightarrow> blob \<Rightarrow> blob \<Rightarrow> blob" where
  "sc_mulsub a b c =
     sc_store (exec_all sc_mulsub_finish (exec_all sc_mulsub_fold (sc_mulsub_products (sc_load a) (sc_load b) (sc_load c))))"

definition sc_mul_products :: "int list \<Rightarrow> int list \<Rightarrow> int list" where
  "sc_mul_products a b =
   [i64 (a ! 0 * b ! 0),
    i64 (a ! 0 * b ! 1 + a ! 1 * b ! 0),
    i64 (a ! 0 * b ! 2 + a ! 1 * b ! 1 + a ! 2 * b ! 0),
    i64 (a ! 0 * b ! 3 + a ! 1 * b ! 2 + a ! 2 * b ! 1 + a ! 3 * b ! 0),
    i64 (a ! 0 * b ! 4 + a ! 1 * b ! 3 + a ! 2 * b ! 2 + a ! 3 * b ! 1 + a ! 4 * b ! 0),
    i64 (a ! 0 * b ! 5 + a ! 1 * b ! 4 + a ! 2 * b ! 3 + a ! 3 * b ! 2 + a ! 4 * b ! 1 + a ! 5 * b ! 0),
    i64 (a ! 0 * b ! 6 + a ! 1 * b ! 5 + a ! 2 * b ! 4 + a ! 3 * b ! 3 + a ! 4 * b ! 2 + a ! 5 * b ! 1 + a ! 6 * b ! 0),
    i64 (a ! 0 * b ! 7 + a ! 1 * b ! 6 + a ! 2 * b ! 5 + a ! 3 * b ! 4 + a ! 4 * b ! 3 + a ! 5 * b ! 2 + a ! 6 * b ! 1 + a ! 7 * b ! 0),
    i64 (a ! 0 * b ! 8 + a ! 1 * b ! 7 + a ! 2 * b ! 6 + a ! 3 * b ! 5 + a ! 4 * b ! 4 + a ! 5 * b ! 3 + a ! 6 * b ! 2 + a ! 7 * b ! 1 + a ! 8 * b ! 0),
    i64 (a ! 0 * b ! 9 + a ! 1 * b ! 8 + a ! 2 * b ! 7 + a ! 3 * b ! 6 + a ! 4 * b ! 5 + a ! 5 * b ! 4 + a ! 6 * b ! 3 + a ! 7 * b ! 2 + a ! 8 * b ! 1 + a ! 9 * b ! 0),
    i64 (a ! 0 * b ! 10 + a ! 1 * b ! 9 + a ! 2 * b ! 8 + a ! 3 * b ! 7 + a ! 4 * b ! 6 + a ! 5 * b ! 5 + a ! 6 * b ! 4 + a ! 7 * b ! 3 + a ! 8 * b ! 2 + a ! 9 * b ! 1 + a ! 10 * b ! 0),
    i64 (a ! 0 * b ! 11 + a ! 1 * b ! 10 + a ! 2 * b ! 9 + a ! 3 * b ! 8 + a ! 4 * b ! 7 + a ! 5 * b ! 6 + a ! 6 * b ! 5 + a ! 7 * b ! 4 + a ! 8 * b ! 3 + a ! 9 * b ! 2 + a ! 10 * b ! 1 + a ! 11 * b ! 0),
    i64 (a ! 1 * b ! 11 + a ! 2 * b ! 10 + a ! 3 * b ! 9 + a ! 4 * b ! 8 + a ! 5 * b ! 7 + a ! 6 * b ! 6 + a ! 7 * b ! 5 + a ! 8 * b ! 4 + a ! 9 * b ! 3 + a ! 10 * b ! 2 + a ! 11 * b ! 1),
    i64 (a ! 2 * b ! 11 + a ! 3 * b ! 10 + a ! 4 * b ! 9 + a ! 5 * b ! 8 + a ! 6 * b ! 7 + a ! 7 * b ! 6 + a ! 8 * b ! 5 + a ! 9 * b ! 4 + a ! 10 * b ! 3 + a ! 11 * b ! 2),
    i64 (a ! 3 * b ! 11 + a ! 4 * b ! 10 + a ! 5 * b ! 9 + a ! 6 * b ! 8 + a ! 7 * b ! 7 + a ! 8 * b ! 6 + a ! 9 * b ! 5 + a ! 10 * b ! 4 + a ! 11 * b ! 3),
    i64 (a ! 4 * b ! 11 + a ! 5 * b ! 10 + a ! 6 * b ! 9 + a ! 7 * b ! 8 + a ! 8 * b ! 7 + a ! 9 * b ! 6 + a ! 10 * b ! 5 + a ! 11 * b ! 4),
    i64 (a ! 5 * b ! 11 + a ! 6 * b ! 10 + a ! 7 * b ! 9 + a ! 8 * b ! 8 + a ! 9 * b ! 7 + a ! 10 * b ! 6 + a ! 11 * b ! 5),
    i64 (a ! 6 * b ! 11 + a ! 7 * b ! 10 + a ! 8 * b ! 9 + a ! 9 * b ! 8 + a ! 10 * b ! 7 + a ! 11 * b ! 6),
    i64 (a ! 7 * b ! 11 + a ! 8 * b ! 10 + a ! 9 * b ! 9 + a ! 10 * b ! 8 + a ! 11 * b ! 7),
    i64 (a ! 8 * b ! 11 + a ! 9 * b ! 10 + a ! 10 * b ! 9 + a ! 11 * b ! 8),
    i64 (a ! 9 * b ! 11 + a ! 10 * b ! 10 + a ! 11 * b ! 9),
    i64 (a ! 10 * b ! 11 + a ! 11 * b ! 10),
    i64 (a ! 11 * b ! 11),
    0]"

definition sc_mul_fold :: "limb_step list" where
  "sc_mul_fold =
   [rounded 0, rounded 2, rounded 4, rounded 6, rounded 8, rounded 10, rounded 12, rounded 14, rounded 16,
    rounded 18, rounded 20, rounded 22, rounded 1, rounded 3, rounded 5, rounded 7, rounded 9, rounded 11,
    rounded 13, rounded 15, rounded 17, rounded 19, rounded 21, folded 23, folded 22, folded 21, folded 20,
    folded 19, folded 18, rounded 6, rounded 8, rounded 10, rounded 12, rounded 14, rounded 16, rounded 7,
    rounded 9, rounded 11, rounded 13, rounded 15, folded 17, folded 16, folded 15, folded 14, folded 13,
    folded 12, Clear 12]"

definition sc_mul_finish :: "limb_step list" where
  "sc_mul_finish =
   [rounded 0, rounded 2, rounded 4, rounded 6, rounded 8, rounded 10, rounded 1, rounded 3, rounded 5,
    rounded 7, rounded 9, rounded 11, folded 12, Clear 12, floored 0, floored 1, floored 2, floored 3,
    floored 4, floored 5, floored 6, floored 7, floored 8, floored 9, floored 10, floored 11, folded 12,
    floored 0, floored 1, floored 2, floored 3, floored 4, floored 5, floored 6, floored 7, floored 8,
    floored 9, floored 10]"

definition sc_mul :: "blob \<Rightarrow> blob \<Rightarrow> blob" where
  "sc_mul a b =
     sc_store (exec_all sc_mul_finish (exec_all sc_mul_fold (sc_mul_products (sc_load a) (sc_load b))))"

definition sc_muladd_products :: "int list \<Rightarrow> int list \<Rightarrow> int list \<Rightarrow> int list" where
  "sc_muladd_products a b c =
   [i64 (c ! 0 + a ! 0 * b ! 0),
    i64 (c ! 1 + (a ! 0 * b ! 1 + a ! 1 * b ! 0)),
    i64 (c ! 2 + (a ! 0 * b ! 2 + a ! 1 * b ! 1 + a ! 2 * b ! 0)),
    i64 (c ! 3 + (a ! 0 * b ! 3 + a ! 1 * b ! 2 + a ! 2 * b ! 1 + a ! 3 * b ! 0)),
    i64 (c ! 4 + (a ! 0 * b ! 4 + a ! 1 * b ! 3 + a ! 2 * b ! 2 + a ! 3 * b ! 1 + a ! 4 * b ! 0)),
    i64 (c ! 5 + (a ! 0 * b ! 5 + a ! 1 * b ! 4 + a ! 2 * b ! 3 + a ! 3 * b ! 2 + a ! 4 * b ! 1 + a ! 5 * b ! 0)),
    i64 (c ! 6 + (a ! 0 * b ! 6 + a ! 1 * b ! 5 + a ! 2 * b ! 4 + a ! 3 * b ! 3 + a ! 4 * b ! 2 + a ! 5 * b ! 1 + a ! 6 * b ! 0)),
    i64 (c ! 7 + (a ! 0 * b ! 7 + a ! 1 * b ! 6 + a ! 2 * b ! 5 + a ! 3 * b ! 4 + a ! 4 * b ! 3 + a ! 5 * b ! 2 + a ! 6 * b ! 1 + a ! 7 * b ! 0)),
    i64 (c ! 8 + (a ! 0 * b ! 8 + a ! 1 * b ! 7 + a ! 2 * b ! 6 + a ! 3 * b ! 5 + a ! 4 * b ! 4 + a ! 5 * b ! 3 + a ! 6 * b ! 2 + a ! 7 * b ! 1 + a ! 8 * b ! 0)),
    i64 (c ! 9 + (a ! 0 * b ! 9 + a ! 1 * b ! 8 + a ! 2 * b ! 7 + a ! 3 * b ! 6 + a ! 4 * b ! 5 + a ! 5 * b ! 4 + a ! 6 * b ! 3 + a ! 7 * b ! 2 + a ! 8 * b ! 1 + a ! 9 * b ! 0)),
    i64 (c ! 10 + (a ! 0 * b ! 10 + a ! 1 * b ! 9 + a ! 2 * b ! 8 + a ! 3 * b ! 7 + a ! 4 * b ! 6 + a ! 5 * b ! 5 + a ! 6 * b ! 4 + a ! 7 * b ! 3 + a ! 8 * b ! 2 + a ! 9 * b ! 1 + a ! 10 * b ! 0)),
    i64 (c ! 11 + (a ! 0 * b ! 11 + a ! 1 * b ! 10 + a ! 2 * b ! 9 + a ! 3 * b ! 8 + a ! 4 * b ! 7 + a ! 5 * b ! 6 + a ! 6 * b ! 5 + a ! 7 * b ! 4 + a ! 8 * b ! 3 + a ! 9 * b ! 2 + a ! 10 * b ! 1 + a ! 11 * b ! 0)),
    i64 (a ! 1 * b ! 11 + a ! 2 * b ! 10 + a ! 3 * b ! 9 + a ! 4 * b ! 8 + a ! 5 * b ! 7 + a ! 6 * b ! 6 + a ! 7 * b ! 5 + a ! 8 * b ! 4 + a ! 9 * b ! 3 + a ! 10 * b ! 2 + a ! 11 * b ! 1),
    i64 (a ! 2 * b ! 11 + a ! 3 * b ! 10 + a ! 4 * b ! 9 + a ! 5 * b ! 8 + a ! 6 * b ! 7 + a ! 7 * b ! 6 + a ! 8 * b ! 5 + a ! 9 * b ! 4 + a ! 10 * b ! 3 + a ! 11 * b ! 2),
    i64 (a ! 3 * b ! 11 + a ! 4 * b ! 10 + a ! 5 * b ! 9 + a ! 6 * b ! 8 + a ! 7 * b ! 7 + a ! 8 * b ! 6 + a ! 9 * b ! 5 + a ! 10 * b ! 4 + a ! 11 * b ! 3),
    i64 (a ! 4 * b ! 11 + a ! 5 * b ! 10 + a ! 6 * b ! 9 + a ! 7 * b ! 8 + a ! 8 * b ! 7 + a ! 9 * b ! 6 + a ! 10 * b ! 5 + a ! 11 * b ! 4),
    i64 (a ! 5 * b ! 11 + a ! 6 * b ! 10 + a ! 7 * b ! 9 + a ! 8 * b ! 8 + a ! 9 * b ! 7 + a ! 10 * b ! 6 + a ! 11 * b ! 5),
    i64 (a ! 6 * b ! 11 + a ! 7 * b ! 10 + a ! 8 * b ! 9 + a ! 9 * b ! 8 + a ! 10 * b ! 7 + a ! 11 * b ! 6),
    i64 (a ! 7 * b ! 11 + a ! 8 * b ! 10 + a ! 9 * b ! 9 + a ! 10 * b ! 8 + a ! 11 * b ! 7),
    i64 (a ! 8 * b ! 11 + a ! 9 * b ! 10 + a ! 10 * b ! 9 + a ! 11 * b ! 8),
    i64 (a ! 9 * b ! 11 + a ! 10 * b ! 10 + a ! 11 * b ! 9),
    i64 (a ! 10 * b ! 11 + a ! 11 * b ! 10),
    i64 (a ! 11 * b ! 11),
    0]"

definition sc_muladd_fold :: "limb_step list" where
  "sc_muladd_fold =
   [rounded 0, rounded 2, rounded 4, rounded 6, rounded 8, rounded 10, rounded 12, rounded 14, rounded 16,
    rounded 18, rounded 20, rounded 22, rounded 1, rounded 3, rounded 5, rounded 7, rounded 9, rounded 11,
    rounded 13, rounded 15, rounded 17, rounded 19, rounded 21, folded 23, folded 22, folded 21, folded 20,
    folded 19, folded 18, rounded 6, rounded 8, rounded 10, rounded 12, rounded 14, rounded 16, rounded 7,
    rounded 9, rounded 11, rounded 13, rounded 15, folded 17, folded 16, folded 15, folded 14, folded 13,
    folded 12, Clear 12]"

definition sc_muladd_finish :: "limb_step list" where
  "sc_muladd_finish =
   [rounded 0, rounded 2, rounded 4, rounded 6, rounded 8, rounded 10, rounded 1, rounded 3, rounded 5,
    rounded 7, rounded 9, rounded 11, folded 12, Clear 12, floored 0, floored 1, floored 2, floored 3,
    floored 4, floored 5, floored 6, floored 7, floored 8, floored 9, floored 10, floored 11, folded 12,
    floored 0, floored 1, floored 2, floored 3, floored 4, floored 5, floored 6, floored 7, floored 8,
    floored 9, floored 10]"

definition sc_muladd :: "blob \<Rightarrow> blob \<Rightarrow> blob \<Rightarrow> blob" where
  "sc_muladd a b c =
     sc_store (exec_all sc_muladd_finish (exec_all sc_muladd_fold (sc_muladd_products (sc_load a) (sc_load b) (sc_load c))))"

definition signum :: "int \<Rightarrow> int" where
  "signum a = (if 0 < a then 1 else if a < 0 then - 1 else 0)"

definition sc_check :: "blob \<Rightarrow> int" where
  "sc_check s =
     (let s0 = sint (load_4 s); s1 = sint (load_4 (drop 4 s)); s2 = sint (load_4 (drop 8 s));
          s3 = sint (load_4 (drop 12 s)); s4 = sint (load_4 (drop 16 s)); s5 = sint (load_4 (drop 20 s));
          s6 = sint (load_4 (drop 24 s)); s7 = sint (load_4 (drop 28 s)) in
      drop_bit 8
       (signum (1559614444 - s0) + push_bit 1 (signum (1477600026 - s1)) + push_bit 2 (signum (2734136534 - s2)) +
        push_bit 3 (signum (350157278 - s3)) + push_bit 4 (signum (- s4)) + push_bit 5 (signum (- s5)) +
        push_bit 6 (signum (- s6)) + push_bit 7 (signum (268435456 - s7))))"

definition sc_isnonzero :: "blob \<Rightarrow> int" where
  "sc_isnonzero s = drop_bit 8 (uint (fold (OR) (map ((!) s) [0..<32]) 0) - 1) + 1"

section \<open>The specification\<close>

text \<open>The order of the base point, \<open>l\<close> in the comments of the source.\<close>

definition sc_order :: int where
  "sc_order = 2 ^ 252 + 27742317777372353535851937790883648493"

section \<open>Reading limbs\<close>

lemma uint_ucast_byte: "uint (ucast (c :: byte) :: u64) = uint c"
  by (simp add: unsigned_ucast_eq take_bit_int_eq_self uint_byte_bounds less_trans [OF uint_byte_bounds(2)])

lemma uint_or_push_bit:
  fixes w x :: "'a::len word"
  assumes "uint w < 2 ^ s" and "uint x * 2 ^ s < 2 ^ LENGTH('a)"
  shows "uint (w OR push_bit s x) = uint w + 2 ^ s * uint x"
proof -
  have "int (unat w) < int (2 ^ s)" "int (unat x * 2 ^ s) < int (2 ^ LENGTH('a))"
    using assms by simp_all
  then have "unat w < 2 ^ s" "unat x * 2 ^ s < 2 ^ LENGTH('a)"
    by (simp_all only: of_nat_less_iff)
  then have "int (unat (w OR push_bit s x)) = int (unat w + unat x * 2 ^ s)"
    by (simp only: unat_or_push_bit)
  then show ?thesis
    by (simp add: mult.commute)
qed

lemma uint_load_3: "uint (load_3 (c0 # c1 # c2 # cs)) = le_int [c0, c1, c2]"
  using uint_byte_bounds [of c0] uint_byte_bounds [of c1] uint_byte_bounds [of c2]
  by (simp add: load_3_def uint_or_push_bit uint_ucast_byte)

lemma uint_load_4: "uint (load_4 (c0 # c1 # c2 # c3 # cs)) = le_int [c0, c1, c2, c3]"
  using uint_byte_bounds [of c0] uint_byte_bounds [of c1] uint_byte_bounds [of c2] uint_byte_bounds [of c3]
  by (simp add: load_4_def uint_or_push_bit uint_ucast_byte)

lemma at_least_3: "3 \<le> length xs \<Longrightarrow> \<exists>x0 x1 x2 ys. xs = x0 # x1 # x2 # ys"
  by (auto simp: Suc_le_length_iff numeral_eq_Suc)

lemma at_least_4: "4 \<le> length xs \<Longrightarrow> \<exists>x0 x1 x2 x3 ys. xs = x0 # x1 # x2 # x3 # ys"
  by (auto simp: Suc_le_length_iff numeral_eq_Suc)

lemma load_3_bits:
  assumes "k + 3 \<le> length s"
  shows "uint (load_3 (drop k s)) = take_bit 24 (drop_bit (8 * k) (le_int s))"
proof -
  obtain c0 c1 c2 cs where s: "drop k s = c0 # c1 # c2 # cs"
    using at_least_3 [of "drop k s"] assms by (auto simp: le_diff_conv2)
  have "le_int (take 3 (drop k s)) = take_bit 24 (drop_bit (8 * k) (le_int s))"
    by (simp add: le_int_take le_int_drop)
  then show ?thesis
    unfolding s uint_load_3 by simp
qed

lemma load_4_bits:
  assumes "k + 4 \<le> length s"
  shows "uint (load_4 (drop k s)) = take_bit 32 (drop_bit (8 * k) (le_int s))"
proof -
  obtain c0 c1 c2 c3 cs where s: "drop k s = c0 # c1 # c2 # c3 # cs"
    using at_least_4 [of "drop k s"] assms by (auto simp: le_diff_conv2)
  have "le_int (take 4 (drop k s)) = take_bit 32 (drop_bit (8 * k) (le_int s))"
    by (simp add: le_int_take le_int_drop)
  then show ?thesis
    unfolding s uint_load_4 by simp
qed

lemma sint_small: "uint (x :: u64) < 2 ^ 63 \<Longrightarrow> sint x = uint x"
  using signed_take_bit_int_eq_self [of 63 "uint x"] uint_ge_0 [of x] by (simp add: sint_uint)

text \<open>What a masked, shifted load reads: the window of 21 bits at its position.\<close>

lemma sint_masked:
  assumes "uint (x :: u64) = take_bit n (drop_bit m v)" and "21 + k \<le> n" and "n \<le> 64"
  shows "sint (2097151 AND drop_bit k x) = take_bit 21 (drop_bit (m + k) v)"
proof -
  have "(2097151 :: u64) = mask 21"
    by (simp add: mask_eq_exp_minus_1)
  then have "2097151 AND drop_bit k x = take_bit 21 (drop_bit k x)"
    by (simp add: take_bit_eq_mask and.commute)
  then have "uint (2097151 AND drop_bit k x) = take_bit 21 (drop_bit k (uint x))"
    using assms by (simp add: unsigned_take_bit_eq unsigned_drop_bit_eq min.absorb1)
  also have "\<dots> = take_bit 21 (drop_bit (m + k) v)"
    using assms by (simp add: drop_bit_take_bit min.absorb1 add.commute)
  finally have eq: "uint (2097151 AND drop_bit k x) = take_bit 21 (drop_bit (m + k) v)" .
  have "take_bit 21 (drop_bit (m + k) v) < 2 ^ 63"
    using take_bit_int_less_exp [of 21 "drop_bit (m + k) v"] by simp
  then show ?thesis
    using eq sint_small by simp
qed

lemma sint_shifted:
  assumes "uint (x :: u64) = take_bit 32 (drop_bit m v)" and "k \<le> 32"
  shows "sint (drop_bit k x) = take_bit (32 - k) (drop_bit (m + k) v)"
proof -
  have "uint (drop_bit k x) = take_bit (32 - k) (drop_bit (m + k) v)"
    using assms by (simp only: unsigned_drop_bit_eq drop_bit_take_bit drop_bit_drop_bit take_bit_take_bit) (simp add: min_def add.commute)
  moreover have "uint (drop_bit k x) < 2 ^ 63"
    unfolding calculation using take_bit_int_less_exp [of "32 - k" "drop_bit (m + k) v"]
      power_increasing [of "32 - k" 63 "2 :: int"] by linarith
  ultimately show ?thesis
    using sint_small by simp
qed

lemmas sint_load_3 = sint_masked [OF load_3_bits] sint_masked [OF load_3_bits, where k = 0, unfolded drop_bit_0 id_apply]
  sint_masked [OF load_3_bits [where k = 0], where k = 0, unfolded drop_bit_0 id_apply drop_0]

lemmas sint_load_4 = sint_masked [OF load_4_bits] sint_shifted [OF load_4_bits]

lemma sc_load_digits:
  assumes "length s = 32"
  shows "sc_load s = digits 21 11 (le_int s) @ [drop_bit 231 (le_int s)]"
proof -
  have "take_bit 25 (drop_bit 231 (le_int s)) = drop_bit 231 (take_bit 256 (le_int s))"
    by (simp add: drop_bit_take_bit)
  also have "take_bit 256 (le_int s) = le_int s"
    using le_int_bounds [of s] assms by (simp add: take_bit_int_eq_self)
  finally show ?thesis
    using assms by (simp add: sc_load_def sint_load_3 sint_load_4 digits_def digit_def upt_rec le_int_drop)
qed

lemma sc_load_wide_digits:
  assumes "length s = 64"
  shows "sc_load_wide s = digits 21 23 (le_int s) @ [drop_bit 483 (le_int s)]"
proof -
  have "take_bit 29 (drop_bit 483 (le_int s)) = drop_bit 483 (take_bit 512 (le_int s))"
    by (simp add: drop_bit_take_bit)
  also have "take_bit 512 (le_int s) = le_int s"
    using le_int_bounds [of s] assms by (simp add: take_bit_int_eq_self)
  finally show ?thesis
    using assms by (simp add: sc_load_wide_def sint_load_3 sint_load_4 digits_def digit_def upt_rec le_int_drop)
qed

section \<open>Writing limbs\<close>

lemma uint_word_of_int_byte: "uint (word_of_int x :: byte) = take_bit 8 x"
  by (simp add: unsigned_of_int)

text \<open>A byte within one limb, and a byte that takes its low bits from one limb and the others from the next.\<close>

lemma store_inner:
  "k + 8 \<le> b \<Longrightarrow> uint (word_of_int (drop_bit k (take_bit b (drop_bit m v))) :: byte) = take_bit 8 (drop_bit (m + k) v)"
  by (simp add: uint_word_of_int_byte drop_bit_take_bit min.absorb1 add.commute)

lemma store_across:
  assumes "k + j = 21" and "j \<le> 8" and "8 \<le> j + c" and m': "m' = m + 21"
  shows "uint (word_of_int (drop_bit k (take_bit 21 (drop_bit m v)) OR
       i64 (push_bit j (take_bit c (drop_bit m' v)))) :: byte) = take_bit 8 (drop_bit (m + k) v)"
proof (rule bit_eqI)
  fix n
  show "bit (uint (word_of_int (drop_bit k (take_bit 21 (drop_bit m v)) OR
       i64 (push_bit j (take_bit c (drop_bit m' v)))) :: byte)) n = bit (take_bit 8 (drop_bit (m + k) v)) n"
  proof (cases "n < j")
    case True
    then show ?thesis
      using assms by (auto simp: uint_word_of_int_byte i64_def bit_simps ac_simps)
  next
    case False
    then have "m' + (n - j) = m + k + n"
      using assms(1) m' by simp
    then show ?thesis
      using False assms(1-3) by (auto simp: uint_word_of_int_byte i64_def bit_simps ac_simps)
  qed
qed

lemmas store_byte = store_inner store_inner [where k = 0, simplified] store_inner [where m = 0, simplified]
  store_inner [where m = 0 and k = 0, simplified] store_across store_across [where m = 0, simplified]
  store_across [where j = 1 and k = 20, simplified]

lemma sc_store_bytes:
  assumes "list_all (\<lambda>x. 0 \<le> x \<and> x < 2 ^ 21) (take 11 s)" and "12 \<le> length s"
    and "0 \<le> s ! 11" and "s ! 11 < 2 ^ 25"
  shows "length (sc_store s) = 32" and "le_int (sc_store s) = hsum 21 (take 12 s)"
proof -
  define v where "v = hsum 21 (take 12 s)"
  have v: "v = hsum 21 (take 11 s @ [s ! 11])"
    using assms(2) take_Suc_conv_app_nth [of 11 s] by (simp add: v_def)
  have digit: "s ! i = digit 21 v i" if "i < 11" for i
    using hsum_digit [OF assms(1), of i "[s ! 11]"] that assms(2) by (simp add: v)
  have top: "s ! 11 = drop_bit 231 v"
    using hsum_drop_bit [OF assms(1), of "[s ! 11]"] assms(2) by (simp add: v min.absorb2)
  then have last: "s ! 11 = take_bit 25 (drop_bit 231 v)"
    using assms(3,4) by (simp add: take_bit_int_eq_self)
  have "map uint (sc_store s) = digits 8 32 v"
    by (simp add: sc_store_def digit digit_def last store_byte digits_def upt_rec)
  moreover show len: "length (sc_store s) = 32"
    by (simp add: sc_store_def)
  ultimately have "le_int (sc_store s) = take_bit 256 v"
    using le_int_of_digits [of "sc_store s" v] by simp
  also have "take_bit 256 v = v"
  proof (rule take_bit_int_eq_self)
    show "0 \<le> v"
      using top assms(3) by (simp add: drop_bit_nonnegative_int_iff)
    have "drop_bit 256 v = drop_bit 25 (s ! 11)"
      by (simp add: top)
    also have "\<dots> = 0"
      using assms(3,4) by (simp add: drop_bit_eq_div)
    finally show "v < 2 ^ 256"
      by (simp add: drop_bit_eq_div div_eq_0_iff)
  qed
  finally show "le_int (sc_store s) = hsum 21 (take 12 s)"
    by (simp add: v_def)
qed

section \<open>Reduction\<close>

text \<open>
  Which limbs are in use: a limb in use at position \<open>i\<close> has weight \<open>2 ^ (21 * i)\<close>, one that has been
  folded away has weight 0. \<open>live_step\<close> follows this through the code; it accepts only the three
  lines of the reductions and the clearing of an unused limb.
\<close>

definition sc_weights :: "bool list \<Rightarrow> int list" where
  "sc_weights bs = map (\<lambda>i. if bs ! i then 2 ^ (21 * i) else 0) [0..<length bs]"

definition sc_coefficients :: "int list" where
  "sc_coefficients = [666643, 470296, 654183, - 997805, 136657, - 683901]"

fun live_step :: "limb_step \<Rightarrow> bool list \<Rightarrow> bool list option" where
  "live_step (Carry i w h j m) bs =
     (if w = 21 \<and> j = i + 1 \<and> m = 1 \<and> inside j bs \<and> bs ! i \<and> bs ! j then Some bs else None)"
| "live_step (Fold i j ks) bs =
     (if i = j + 12 \<and> ks = sc_coefficients \<and> inside i bs \<and> bs ! i \<and> bs ! j \<and> bs ! (j + 1) \<and> bs ! (j + 2) \<and>
         bs ! (j + 3) \<and> bs ! (j + 4) \<and> bs ! (j + 5)
      then Some (bs[i := False]) else None)"
| "live_step (Clear i) bs = (if inside i bs \<and> \<not> bs ! i then Some (bs[i := True]) else None)"

fun live_steps :: "limb_step list \<Rightarrow> bool list \<Rightarrow> bool list option" where
  "live_steps [] bs = Some bs"
| "live_steps (st # sts) bs = (case live_step st bs of None \<Rightarrow> None | Some bs' \<Rightarrow> live_steps sts bs')"

lemma sc_weights_length [simp]: "length (sc_weights bs) = length bs"
  by (simp add: sc_weights_def)

lemma sc_weights_nth [simp]: "i < length bs \<Longrightarrow> sc_weights bs ! i = (if bs ! i then 2 ^ (21 * i) else 0)"
  by (simp add: sc_weights_def)

lemma sc_weights_update: "sc_weights (bs[i := b]) = (sc_weights bs)[i := if b then 2 ^ (21 * i) else 0]"
proof (rule nth_equalityI)
  fix k
  assume "k < length (sc_weights (bs[i := b]))"
  then show "sc_weights (bs[i := b]) ! k = (sc_weights bs)[i := if b then 2 ^ (21 * i) else 0] ! k"
    by (cases "k = i") simp_all
qed simp

lemma drop_6: "j + 6 \<le> length xs \<Longrightarrow>
    drop j xs = xs ! j # xs ! (j + 1) # xs ! (j + 2) # xs ! (j + 3) # xs ! (j + 4) # xs ! (j + 5) # drop (j + 6) xs"
  by (simp add: Cons_nth_drop_Suc numeral_eq_Suc)

lemma fold_weight:
  assumes "drop j ws = 2 ^ (21 * j) # 2 ^ (21 * (j + 1)) # 2 ^ (21 * (j + 2)) # 2 ^ (21 * (j + 3)) # 2 ^ (21 * (j + 4)) #
      2 ^ (21 * (j + 5)) # rest"
  shows "sum_list (map2 (*) (drop j ws) sc_coefficients) - 2 ^ (21 * (j + 12)) = sc_order * - (2 ^ (21 * j))"
  unfolding assms by (simp add: sc_coefficients_def sc_order_def power_add algebra_simps)

lemma live_step_sound:
  assumes "live_step st bs = Some bs'"
  shows "step_weights sc_order (sc_weights (replicate (length bs) True)) st (sc_weights bs) = Some (sc_weights bs')"
    and "length bs' = length bs"
proof -
  show "length bs' = length bs"
    using assms by (cases st) (auto split: if_splits)
  show "step_weights sc_order (sc_weights (replicate (length bs) True)) st (sc_weights bs) = Some (sc_weights bs')"
  proof (cases st)
    case (Carry i w h j m)
    then show ?thesis
      using assms by (auto simp: power_add split: if_splits)
  next
    case (Fold i j ks)
    then have ok: "i = j + 12" "ks = sc_coefficients" "i < length bs" "bs' = bs[i := False]" "bs ! i" "bs ! j" "bs ! (j + 1)"
        "bs ! (j + 2)" "bs ! (j + 3)" "bs ! (j + 4)" "bs ! (j + 5)"
      using assms by (auto split: if_splits)
    let ?ws = "sc_weights bs"
    have "drop j ?ws = ?ws ! j # ?ws ! (j + 1) # ?ws ! (j + 2) # ?ws ! (j + 3) # ?ws ! (j + 4) # ?ws ! (j + 5) # drop (j + 6) ?ws"
      by (rule drop_6) (use ok(1,3) in simp)
    have "drop j ?ws = 2 ^ (21 * j) # 2 ^ (21 * (j + 1)) # 2 ^ (21 * (j + 2)) # 2 ^ (21 * (j + 3)) #
        2 ^ (21 * (j + 4)) # 2 ^ (21 * (j + 5)) # drop (j + 6) ?ws"
      unfolding \<open>drop j ?ws = _\<close> using ok by simp
    note fold_weight [OF this]
    moreover have "?ws ! i = 2 ^ (21 * (j + 12))"
      using ok by simp
    ultimately have "(sum_list (map2 (*) (drop j ?ws) ks) - ?ws ! i) mod sc_order = 0"
      using ok(2) by (simp only: mod_mult_self1_is_0)
    then show ?thesis
      using ok by (simp add: Fold sc_weights_update sc_coefficients_def)
  next
    case (Clear i)
    then show ?thesis
      using assms by (auto simp: sc_weights_update split: if_splits)
  qed
qed

lemma live_steps_sound:
  assumes "live_steps sts bs = Some bs'"
  shows "steps_weights sc_order (sc_weights (replicate (length bs) True)) sts (sc_weights bs) = Some (sc_weights bs')"
  using assms
proof (induction sts arbitrary: bs)
  case (Cons st sts)
  then obtain bs1 where "live_step st bs = Some bs1" "live_steps sts bs1 = Some bs'"
    by (auto split: option.splits)
  then show ?case
    using Cons.IH [of bs1] live_step_sound [of st bs bs1] by simp
qed simp

lemma limbs_value_sc_weights:
  assumes "n \<le> length s"
  shows "limbs_value (sc_weights (replicate n True @ replicate k False)) s = hsum 21 (take n s)"
proof -
  have "sc_weights (replicate n True @ replicate k False) = map (\<lambda>i. 1 * 2 ^ (21 * i)) [0..<n] @ replicate k 0"
    by (rule nth_equalityI) (auto simp: nth_append)
  then show ?thesis
    using limbs_value_powers [OF assms, of 1 21 k] by simp
qed

lemmas live_eval = live_steps.simps live_step.simps sc_coefficients_def list.inject

definition sc_rounding :: "limb_step list" where
  "sc_rounding = map rounded [0, 2, 4, 6, 8, 10, 1, 3, 5, 7, 9, 11] @ [folded 12, Clear 12] @ map floored [0, 1, 2, 3, 4, 5, 6, 7, 8, 9, 10, 11]"

lemma sc_finish_eq:
  "sc_reduce_finish = sc_rounding @ [folded 12] @ map floored [0, 1, 2, 3, 4, 5, 6, 7, 8, 9, 10]"
  "sc_reduce32_finish = sc_reduce_finish" "sc_add_finish = sc_reduce_finish" "sc_sub_finish = sc_reduce_finish"
  "sc_mul_finish = sc_reduce_finish" "sc_muladd_finish = sc_reduce_finish" "sc_mulsub_finish = sc_reduce_finish"
  by (simp_all add: sc_reduce_finish_def sc_rounding_def sc_reduce32_finish_def sc_add_finish_def sc_sub_finish_def
      sc_mul_finish_def sc_muladd_finish_def sc_mulsub_finish_def)

lemmas sc_steps = rounded_def floored_def folded_def

lemma sc_rounding_ivl:
  "steps_ivl sc_rounding (replicate 12 (- (2 ^ 60), 2 ^ 60) @ (0, 0) # pad) = Some (replicate 12 (0, 2 ^ 21 - 1) @ (- 1, 0) # pad)"
  by (simp only: sc_rounding_def sc_steps limb_eval cong: limb_cong)

lemma sc_rounding_live: "live_steps sc_rounding (replicate 13 True @ pad) = Some (replicate 13 True @ pad)"
  by (simp only: sc_rounding_def sc_steps live_eval limb_eval cong: limb_cong)

definition sc_last_fold_ivl :: "interval list \<Rightarrow> interval list" where
  "sc_last_fold_ivl pad =
     [(- 666643, 2097151), (- 470296, 2097151), (- 654183, 2097151), (0, 3094956), (- 136657, 2097151), (0, 2781052)] @
     replicate 6 (0, 2097151) @ (- 1, 0) # pad"

lemma sc_last_mul_add_ivl:
  "mul_add_ivl (- 1, 0) 0 [666643, 470296, 654183, - 997805, 136657, - 683901] (replicate 12 (0, 2 ^ 21 - 1) @ (- 1, 0) # pad) =
     Some (sc_last_fold_ivl pad)"
  by (simp only: sc_last_fold_ivl_def limb_eval cong: limb_cong)

lemma sc_last_fold_ivl:
  "steps_ivl [folded 12] (replicate 12 (0, 2 ^ 21 - 1) @ (- 1, 0) # pad) = Some (sc_last_fold_ivl pad)"
proof -
  have "(replicate 12 (0, 2 ^ 21 - 1) @ (- 1, 0) # pad) ! 12 = (- 1, 0 :: int)"
    by simp
  then show ?thesis
    unfolding folded_def steps_ivl.simps step_ivl.simps using sc_last_mul_add_ivl [of pad] by (simp del: replicate_numeral)
qed

lemma sc_last_carries_ivl:
  "steps_ivl (map floored [0, 1, 2, 3, 4, 5, 6, 7, 8, 9, 10]) (sc_last_fold_ivl pad) =
     Some (replicate 11 (0, 2 ^ 21 - 1) @ (- 1, 2 ^ 21) # (- 1, 0) # pad)"
  by (simp only: sc_last_fold_ivl_def sc_steps limb_eval cong: limb_cong)

lemma floored_weights:
  "list_all (\<lambda>i. i + 1 < length bs \<and> bs ! i \<and> bs ! (i + 1)) is \<Longrightarrow>
   steps_weights M w0 (map floored is) (sc_weights bs) = Some (sc_weights bs)"
  by (induction "is") (simp_all add: floored_def power_add)

lemma sc_last_carries_weights:
  "steps_weights 0 w0 (map floored [0, 1, 2, 3, 4, 5, 6, 7, 8, 9, 10]) (sc_weights (replicate 12 True @ pad)) =
     Some (sc_weights (replicate 12 True @ pad))"
  by (rule floored_weights) simp

lemma limbs_within_list_all:
  assumes "limbs_within s (replicate n (0, m - 1) @ Is)"
  shows "list_all (\<lambda>x. 0 \<le> x \<and> x < m) (take n s)" and "n \<le> length s"
proof -
  have len: "length s = n + length Is"
    using limbs_within_length [OF assms] by simp
  have "within (s ! i) (0, m - 1)" if "i < n" for i
    using limbs_within_nth [OF assms, of i] that by (simp add: nth_append)
  then show "list_all (\<lambda>x. 0 \<le> x \<and> x < m) (take n s)"
    using len by (auto simp: list_all_length within_def)
  show "n \<le> length s"
    using len by simp
qed

lemma hsum_take_Suc: "n < length s \<Longrightarrow> hsum b (take (Suc n) s) = hsum b (take n s) + 2 ^ (b * n) * s ! n"
  by (simp add: take_Suc_conv_app_nth hsum_append min.absorb2)

text \<open>After the rounding the number is \<open>a + 2 ^ 252 * c\<close> with \<open>0 \<le> a < 2 ^ 252\<close> and \<open>c\<close> either -1 or 0.\<close>

lemma sc_rounding_result:
  assumes "limbs_within s (replicate 12 (- (2 ^ 60), 2 ^ 60) @ (0, 0) # pad)"
  defines "t \<equiv> exec_all sc_rounding s"
  shows "limbs_within t (replicate 12 (0, 2 ^ 21 - 1) @ (- 1, 0) # pad)"
    and "(hsum 21 (take 12 t) + 2 ^ 252 * t ! 12) mod sc_order = hsum 21 (take 12 s) mod sc_order"
proof -
  define k where "k = length pad"
  have len: "length s = 13 + k" "length t = 13 + k"
    using limbs_within_length [OF assms(1)] by (simp_all add: k_def t_def)
  show "limbs_within t (replicate 12 (0, 2 ^ 21 - 1) @ (- 1, 0) # pad)"
    unfolding t_def using assms(1) sc_rounding_ivl by (rule steps_ivl_sound)
  have s12: "s ! 12 = 0"
    using limbs_within_nth [OF assms(1), of 12] by (simp add: within_def)
  let ?ws = "sc_weights (replicate 13 True @ replicate k False)"
  have "limbs_value ?ws t mod sc_order = limbs_value ?ws s mod sc_order"
    unfolding t_def using assms(1) sc_rounding_ivl live_steps_sound [OF sc_rounding_live]
    by (rule steps_sound(2)) (simp add: len)
  then show "(hsum 21 (take 12 t) + 2 ^ 252 * t ! 12) mod sc_order = hsum 21 (take 12 s) mod sc_order"
    using hsum_take_Suc [of 12 t 21] hsum_take_Suc [of 12 s 21] len s12
    by (simp add: limbs_value_sc_weights del: replicate_numeral)
qed

text \<open>The last folding and the last carries replace \<open>2 ^ 252 * c\<close> by its residue, exactly.\<close>

lemma sc_last_carries:
  assumes "limbs_within t (replicate 12 (0, 2 ^ 21 - 1) @ (- 1, 0) # pad)"
  defines "r \<equiv> exec_all ([folded 12] @ map floored [0, 1, 2, 3, 4, 5, 6, 7, 8, 9, 10]) t"
  shows "limbs_within r (replicate 11 (0, 2 ^ 21 - 1) @ (- 1, 2 ^ 21) # (- 1, 0) # pad)"
    and "hsum 21 (take 12 r) = hsum 21 (take 12 t) - 27742317777372353535851937790883648493 * t ! 12"
proof -
  define k u where "k = length pad" and "u = exec_all [folded 12] t"
  have r: "r = exec_all (map floored [0, 1, 2, 3, 4, 5, 6, 7, 8, 9, 10]) u"
    unfolding r_def u_def exec_all_append ..
  have len: "length t = 13 + k" "length u = 13 + k" "length r = 13 + k"
    using limbs_within_length [OF assms(1)] by (simp_all add: k_def u_def r)
  have u_in: "limbs_within u (sc_last_fold_ivl pad)"
    unfolding u_def using assms(1) sc_last_fold_ivl by (rule steps_ivl_sound)
  show "limbs_within r (replicate 11 (0, 2 ^ 21 - 1) @ (- 1, 2 ^ 21) # (- 1, 0) # pad)"
    unfolding r using u_in sc_last_carries_ivl by (rule steps_ivl_sound)
  have t12: "within (t ! 12) (- 1, 0)"
    using limbs_within_nth [OF assms(1), of 12] by simp
  let ?ws = "sc_weights (replicate 12 True @ replicate (Suc k) False)"
  have "sum_list (map2 (*) (drop 0 ?ws) [666643, 470296, 654183, - 997805, 136657, - 683901]) =
      - 27742317777372353535851937790883648493"
    by (simp add: sc_weights_def upt_rec)
  moreover have "u = mul_add (t ! 12) 0 [666643, 470296, 654183, - 997805, 136657, - 683901] t"
    by (simp add: u_def exec_all_def folded_def)
  ultimately have "limbs_value ?ws u = limbs_value ?ws t - 27742317777372353535851937790883648493 * t ! 12"
    using mul_add_value [OF assms(1) t12 sc_last_mul_add_ivl, of ?ws] len by simp
  moreover have "limbs_value ?ws r mod 0 = limbs_value ?ws u mod 0"
    unfolding r using u_in sc_last_carries_ivl sc_last_carries_weights by (rule steps_sound(2)) (simp add: len)
  ultimately show "hsum 21 (take 12 r) = hsum 21 (take 12 t) - 27742317777372353535851937790883648493 * t ! 12"
    using len by (simp add: limbs_value_sc_weights del: replicate_numeral replicate_Suc)
qed

lemma sc_finish:
  assumes "limbs_within s (replicate 12 (- (2 ^ 60), 2 ^ 60) @ (0, 0) # pad)"
  defines "r \<equiv> exec_all sc_reduce_finish s"
  shows "list_all (\<lambda>x. 0 \<le> x \<and> x < 2 ^ 21) (take 11 r)" and "12 \<le> length r" and "0 \<le> r ! 11" and "r ! 11 < 2 ^ 25"
    and "hsum 21 (take 12 r) = hsum 21 (take 12 s) mod sc_order"
proof -
  define t a c where "t = exec_all sc_rounding s" and "a = hsum 21 (take 12 t)" and "c = t ! 12"
  note t = sc_rounding_result [OF assms(1), folded t_def]
  have r: "r = exec_all ([folded 12] @ map floored [0, 1, 2, 3, 4, 5, 6, 7, 8, 9, 10]) t"
    unfolding r_def t_def sc_finish_eq(1) exec_all_append ..
  note r_in = sc_last_carries(1) [OF t(1), folded r]
  have v: "hsum 21 (take 12 r) = a - 27742317777372353535851937790883648493 * c"
    unfolding a_def c_def r by (rule sc_last_carries(2) [OF t(1)])
  have a: "0 \<le> a" "a < 2 ^ 252"
    using hsum_bounds [OF limbs_within_list_all(1) [OF t(1)]] limbs_within_list_all(2) [OF t(1)]
    by (simp_all add: a_def min.absorb2)
  have c: "c = - 1 \<or> c = 0"
    using limbs_within_nth [OF t(1), of 12] by (auto simp: within_def c_def)
  have pos: "0 \<le> hsum 21 (take 12 r)" and "hsum 21 (take 12 r) < sc_order"
    using a c unfolding v sc_order_def by auto
  moreover have "hsum 21 (take 12 r) = a + 2 ^ 252 * c + sc_order * (- c)"
    unfolding v by (simp add: sc_order_def algebra_simps)
  then have "hsum 21 (take 12 r) mod sc_order = hsum 21 (take 12 s) mod sc_order"
    using t(2) by (simp only: a_def c_def mod_mult_self2)
  ultimately show "hsum 21 (take 12 r) = hsum 21 (take 12 s) mod sc_order"
    by simp
  show "list_all (\<lambda>x. 0 \<le> x \<and> x < 2 ^ 21) (take 11 r)"
    by (rule limbs_within_list_all(1) [OF r_in])
  show len: "12 \<le> length r"
    using limbs_within_length [OF r_in] by simp
  show "r ! 11 < 2 ^ 25"
    using limbs_within_nth [OF r_in, of 11] by (simp add: within_def)
  have "r ! 11 = drop_bit 231 (hsum 21 (take 12 r))"
    using hsum_drop_bit [OF limbs_within_list_all(1) [OF r_in], of "[r ! 11]"] len take_Suc_conv_app_nth [of 11 r]
    by (simp add: min.absorb2)
  then show "0 \<le> r ! 11"
    using pos by (simp only: drop_bit_nonnegative_int_iff)
qed

text \<open>The first part of the long reductions: 24 limbs become 12, with limb 12 cleared.\<close>

definition sc_folded_ivl :: "interval list" where
  "sc_folded_ivl = replicate 12 (- (2 ^ 60), 2 ^ 60) @ (0, 0) # replicate 11 (- (2 ^ 62), 2 ^ 62)"

definition ivls_le :: "interval list \<Rightarrow> interval list \<Rightarrow> bool" where
  "ivls_le Is Js = list_all2 (\<lambda>I J. fst J \<le> fst I \<and> snd I \<le> snd J) Is Js"

lemma ivls_le_within: "limbs_within s Is \<Longrightarrow> ivls_le Is Js \<Longrightarrow> limbs_within s Js"
  by (fastforce simp: limbs_within_def ivls_le_def within_def list_all2_conv_all_nth)

definition sc_wide_ivl :: "interval list" where
  "sc_wide_ivl = replicate 23 (0, 2 ^ 21 - 1) @ [(0, 2 ^ 29 - 1)]"

definition sc_product_ivl :: "interval list" where
  "sc_product_ivl = replicate 23 (- (2 ^ 51), 2 ^ 51) @ [(0, 0)]"

lemma sc_fold_eq: "sc_mul_fold = sc_muladd_fold" "sc_mulsub_fold = sc_muladd_fold"
  by (simp_all add: sc_mul_fold_def sc_mulsub_fold_def sc_muladd_fold_def)

lemma sc_reduce_fold_ivl: "\<exists>Is. steps_ivl sc_reduce_fold sc_wide_ivl = Some Is \<and> ivls_le Is sc_folded_ivl"
  by (simp only: sc_reduce_fold_def sc_wide_ivl_def sc_steps limb_eval cong: limb_cong)
     (simp add: ivls_le_def sc_folded_ivl_def)

lemma sc_muladd_fold_ivl: "\<exists>Is. steps_ivl sc_muladd_fold sc_product_ivl = Some Is \<and> ivls_le Is sc_folded_ivl"
  by (simp only: sc_muladd_fold_def sc_product_ivl_def sc_steps limb_eval cong: limb_cong)
     (simp add: ivls_le_def sc_folded_ivl_def)

lemma sc_reduce_fold_live: "live_steps sc_reduce_fold (replicate 24 True) = Some (replicate 13 True @ replicate 11 False)"
  by (simp only: sc_reduce_fold_def sc_steps live_eval limb_eval cong: limb_cong)

lemma sc_muladd_fold_live: "live_steps sc_muladd_fold (replicate 24 True) = Some (replicate 13 True @ replicate 11 False)"
  by (simp only: sc_muladd_fold_def sc_steps live_eval limb_eval cong: limb_cong)

lemma sc_fold:
  assumes "limbs_within s Is" and "\<exists>Js. steps_ivl sts Is = Some Js \<and> ivls_le Js sc_folded_ivl"
    and "live_steps sts (replicate 24 True) = Some (replicate 13 True @ replicate 11 False)" and "length s = 24"
  shows "limbs_within (exec_all sts s) sc_folded_ivl"
    and "hsum 21 (take 12 (exec_all sts s)) mod sc_order = hsum 21 s mod sc_order"
proof -
  obtain Js where Js: "steps_ivl sts Is = Some Js" "ivls_le Js sc_folded_ivl"
    using assms(2) by blast
  show fits: "limbs_within (exec_all sts s) sc_folded_ivl"
    using steps_ivl_sound [OF assms(1) Js(1)] Js(2) by (rule ivls_le_within)
  have t12: "exec_all sts s ! 12 = 0"
    using limbs_within_nth [OF fits, of 12] by (simp add: sc_folded_ivl_def within_def)
  have "limbs_value (sc_weights (replicate 13 True @ replicate 11 False)) (exec_all sts s) mod sc_order =
      limbs_value (sc_weights (replicate 24 True @ replicate 0 False)) s mod sc_order"
    using assms(1) Js(1) live_steps_sound [OF assms(3)] unfolding replicate_0 append_Nil2
    by (rule steps_sound(2)) (simp add: assms(4))
  then show "hsum 21 (take 12 (exec_all sts s)) mod sc_order = hsum 21 s mod sc_order"
    using hsum_take_Suc [of 12 "exec_all sts s" 21] t12 assms(4)
    by (simp add: limbs_value_sc_weights del: replicate_numeral replicate_0)
qed

section \<open>The routines\<close>

lemma sc_load_facts:
  assumes "length a = 32"
  shows "length (sc_load a) = 12" and "hsum 21 (sc_load a) = le_int a"
    and "list_all2 (\<lambda>x X. 0 \<le> x \<and> x \<le> X) (sc_load a) (replicate 11 (2 ^ 21) @ [2 ^ 25])"
proof -
  note eq = sc_load_digits [OF assms]
  show "length (sc_load a) = 12"
    by (simp add: eq)
  have "hsum 21 (sc_load a) = take_bit 231 (le_int a) + 2 ^ 231 * drop_bit 231 (le_int a)"
    by (simp add: eq hsum_append hsum_digits)
  then show "hsum 21 (sc_load a) = le_int a"
    using bits_ident [of 231 "le_int a"] by (simp add: push_bit_eq_mult mult.commute)
  have "drop_bit 231 (le_int a) \<le> 2 ^ 25" "0 \<le> drop_bit 231 (le_int a)"
    using le_int_bounds [of a] assms by (simp_all add: drop_bit_eq_div)
  moreover have "list_all2 (\<lambda>x X. 0 \<le> x \<and> x \<le> X) (digits 21 11 (le_int a)) (replicate 11 (2 ^ 21))"
    using take_bit_int_less_exp [of 21] by (auto simp: list_all2_conv_all_nth digits_def digit_def simp del: replicate_numeral intro: less_imp_le)
  ultimately show "list_all2 (\<lambda>x X. 0 \<le> x \<and> x \<le> X) (sc_load a) (replicate 11 (2 ^ 21) @ [2 ^ 25])"
    unfolding eq by (intro list_all2_appendI) simp_all
qed

lemma sc_store_finish:
  assumes "limbs_within s (replicate 12 (- (2 ^ 60), 2 ^ 60) @ (0, 0) # pad)"
  shows "length (sc_store (exec_all sc_reduce_finish s)) = 32"
    and "le_int (sc_store (exec_all sc_reduce_finish s)) = hsum 21 (take 12 s) mod sc_order"
  using sc_store_bytes [OF sc_finish(1-4) [OF assms]] sc_finish(5) [OF assms] by simp_all

lemma list_12:
  assumes "length xs = 12"
  obtains x0 x1 x2 x3 x4 x5 x6 x7 x8 x9 x10 x11 where "xs = [x0, x1, x2, x3, x4, x5, x6, x7, x8, x9, x10, x11]"
  using assms by (auto simp: length_Suc_conv numeral_eq_Suc)

lemma sc_mul_products_eq:
  assumes "length a = 12" and "length b = 12"
  shows "sc_mul_products a b = map i64 (conv a b) @ [0]"
  by (rule list_12 [OF assms(1)], rule list_12 [OF assms(2)]) (simp add: sc_mul_products_def ac_simps)

lemma sc_muladd_products_eq:
  assumes "length a = 12" and "length b = 12" and "length c = 12"
  shows "sc_muladd_products a b c = map i64 (map2 (+) (c @ replicate 11 0) (conv a b)) @ [0]"
  by (rule list_12 [OF assms(1)], rule list_12 [OF assms(2)], rule list_12 [OF assms(3)])
    (simp add: sc_muladd_products_def ac_simps)

lemma sc_mulsub_products_eq:
  assumes "length a = 12" and "length b = 12" and "length c = 12"
  shows "sc_mulsub_products a b c = map i64 (map2 (-) (c @ replicate 11 0) (conv a b)) @ [0]"
  by (rule list_12 [OF assms(1)], rule list_12 [OF assms(2)], rule list_12 [OF assms(3)])
    (simp add: sc_mulsub_products_def ac_simps)

lemma bounds_weaken:
  "list_all2 (\<lambda>x X. 0 \<le> x \<and> x \<le> X) xs Xs \<Longrightarrow> list_all (\<lambda>X. X \<le> B) Xs \<Longrightarrow> list_all (\<lambda>x. 0 \<le> x \<and> x \<le> B) xs"
  for xs :: "int list"
  by (induction xs Xs rule: list_all2_induct) auto

lemma conv_limbs_bounds:
  assumes "length a = 32" and "length b = 32"
  shows "list_all (\<lambda>x. 0 \<le> x \<and> x \<le> 2 ^ 50) (conv (sc_load a) (sc_load b))"
proof -
  let ?A = "replicate 11 (2 ^ 21) @ [2 ^ 25] :: int list"
  have "list_all (\<lambda>X. X \<le> 2 ^ 50) (conv ?A ?A)"
    by simp
  with conv_bounds [OF sc_load_facts(3) [OF assms(1)] sc_load_facts(3) [OF assms(2)]] show ?thesis
    by (rule bounds_weaken)
qed

text \<open>Twenty-three limbs of moderate size: the 64-bit wrap-around does nothing and the long reduction applies.\<close>

lemma sc_reduce_products:
  assumes "list_all (\<lambda>x. \<bar>x\<bar> \<le> 2 ^ 51) xs" and "length xs = 23"
  shows "length (sc_store (exec_all sc_reduce_finish (exec_all sc_muladd_fold (map i64 xs @ [0])))) = 32"
    and "le_int (sc_store (exec_all sc_reduce_finish (exec_all sc_muladd_fold (map i64 xs @ [0])))) = hsum 21 xs mod sc_order"
proof -
  have x: "- (2 ^ 51) \<le> x \<and> x \<le> 2 ^ 51" if "x \<in> set xs" for x
    using assms(1) that by (auto simp: list_all_iff abs_le_iff)
  then have id: "map i64 xs = xs"
    by (intro map_idI i64_id) (force dest: x)+
  have "list_all2 within xs (replicate 23 (- (2 ^ 51), 2 ^ 51))"
    using x assms(2) by (auto simp: list_all2_conv_all_nth within_def simp del: replicate_numeral)
  then have "limbs_within (xs @ [0]) sc_product_ivl"
    unfolding limbs_within_def sc_product_ivl_def by (intro list_all2_appendI) (simp_all add: within_def)
  note fold = sc_fold [OF this sc_muladd_fold_ivl sc_muladd_fold_live]
  have fits: "limbs_within (exec_all sc_muladd_fold (xs @ [0])) sc_folded_ivl"
    using fold(1) assms(2) by simp
  note stored = sc_store_finish [OF fits [unfolded sc_folded_ivl_def]]
  show "length (sc_store (exec_all sc_reduce_finish (exec_all sc_muladd_fold (map i64 xs @ [0])))) = 32"
    unfolding id by (rule stored(1))
  show "le_int (sc_store (exec_all sc_reduce_finish (exec_all sc_muladd_fold (map i64 xs @ [0])))) = hsum 21 xs mod sc_order"
    unfolding id stored(2) using fold(2) assms(2) by (simp add: hsum_append)
qed

lemma sc_load_bounds:
  assumes "length c = 32"
  shows "list_all (\<lambda>x. 0 \<le> x \<and> x \<le> 2 ^ 25) (sc_load c @ replicate n 0)"
  using bounds_weaken [OF sc_load_facts(3) [OF assms], of "2 ^ 25"] by (auto simp: list_all_iff)

lemma combined_bounds:
  fixes xs ys :: "int list"
  assumes "list_all (\<lambda>x. 0 \<le> x \<and> x \<le> 2 ^ 25) xs" and "list_all (\<lambda>x. 0 \<le> x \<and> x \<le> 2 ^ 50) ys"
  shows "list_all (\<lambda>x. \<bar>x\<bar> \<le> 2 ^ 51) (map2 (+) xs ys)" "list_all (\<lambda>x. \<bar>x\<bar> \<le> 2 ^ 51) (map2 (-) xs ys)"
proof -
  have "\<bar>x + y\<bar> \<le> 2 ^ 51 \<and> \<bar>x - y\<bar> \<le> 2 ^ 51" if "(x, y) \<in> set (zip xs ys)" for x y
  proof -
    have "0 \<le> x" "x \<le> 2 ^ 25" "0 \<le> y" "y \<le> 2 ^ 50"
      using assms set_zip_leftD [OF that] set_zip_rightD [OF that] by (auto simp: list_all_iff)
    then show ?thesis
      by (simp add: abs_le_iff)
  qed
  then show "list_all (\<lambda>x. \<bar>x\<bar> \<le> 2 ^ 51) (map2 (+) xs ys)" "list_all (\<lambda>x. \<bar>x\<bar> \<le> 2 ^ 51) (map2 (-) xs ys)"
    by (auto simp: list_all_iff)
qed

text \<open>Sums and differences of two scalars, for the short reductions.\<close>

lemma sc_reduce_short:
  assumes "list_all (\<lambda>x. \<bar>x\<bar> \<le> 2 ^ 60) xs" and "length xs = 12"
  shows "length (sc_store (exec_all sc_reduce_finish (xs @ [0]))) = 32"
    and "le_int (sc_store (exec_all sc_reduce_finish (xs @ [0]))) = hsum 21 xs mod sc_order"
proof -
  have x: "- (2 ^ 60) \<le> x \<and> x \<le> 2 ^ 60" if "x \<in> set xs" for x
    using assms(1) that by (auto simp: list_all_iff abs_le_iff)
  have "list_all2 within xs (replicate 12 (- (2 ^ 60), 2 ^ 60))"
    using x assms(2) by (auto simp: list_all2_conv_all_nth within_def simp del: replicate_numeral)
  then have "limbs_within (xs @ [0]) (replicate 12 (- (2 ^ 60), 2 ^ 60) @ (0, 0) # [])"
    unfolding limbs_within_def by (intro list_all2_appendI) (simp_all add: within_def)
  note stored = sc_store_finish [OF this]
  show "length (sc_store (exec_all sc_reduce_finish (xs @ [0]))) = 32"
    by (rule stored(1))
  show "le_int (sc_store (exec_all sc_reduce_finish (xs @ [0]))) = hsum 21 xs mod sc_order"
    using stored(2) assms(2) by simp
qed

lemma map2_i64:
  assumes "length a = 32" and "length b = 32"
  shows "map2 (\<lambda>x y. i64 (x + y)) (sc_load a) (sc_load b) = map2 (+) (sc_load a) (sc_load b)"
    and "map2 (\<lambda>x y. i64 (x - y)) (sc_load a) (sc_load b) = map2 (-) (sc_load a) (sc_load b)"
    and "list_all (\<lambda>x. \<bar>x\<bar> \<le> 2 ^ 60) (map2 (+) (sc_load a) (sc_load b))"
    and "list_all (\<lambda>x. \<bar>x\<bar> \<le> 2 ^ 60) (map2 (-) (sc_load a) (sc_load b))"
proof -
  have xy: "0 \<le> x \<and> x \<le> 2 ^ 25 \<and> 0 \<le> y \<and> y \<le> 2 ^ 25" if "(x, y) \<in> set (zip (sc_load a) (sc_load b))" for x y
    using sc_load_bounds [OF assms(1), of 0] sc_load_bounds [OF assms(2), of 0] set_zip_leftD [OF that] set_zip_rightD [OF that]
    by (auto simp: list_all_iff)
  then have "i64 (x + y) = x + y \<and> i64 (x - y) = x - y \<and> \<bar>x + y\<bar> \<le> 2 ^ 60 \<and> \<bar>x - y\<bar> \<le> 2 ^ 60"
    if "(x, y) \<in> set (zip (sc_load a) (sc_load b))" for x y
    using xy [OF that] by (intro conjI i64_id) auto
  then show "map2 (\<lambda>x y. i64 (x + y)) (sc_load a) (sc_load b) = map2 (+) (sc_load a) (sc_load b)"
    "map2 (\<lambda>x y. i64 (x - y)) (sc_load a) (sc_load b) = map2 (-) (sc_load a) (sc_load b)"
    "list_all (\<lambda>x. \<bar>x\<bar> \<le> 2 ^ 60) (map2 (+) (sc_load a) (sc_load b))"
    "list_all (\<lambda>x. \<bar>x\<bar> \<le> 2 ^ 60) (map2 (-) (sc_load a) (sc_load b))"
    by (auto simp: list_all_iff)
qed

lemma digit_within: "within (take_bit n v) (0, 2 ^ n - 1)" for v :: int
  using take_bit_int_less_exp [of n v] by (simp add: within_def)

lemma sc_reduce_value:
  assumes "length s = 64"
  shows "length (sc_reduce s) = 32" and "le_int (sc_reduce s) = le_int s mod sc_order"
proof -
  note eq = sc_load_wide_digits [OF assms]
  have len: "length (sc_load_wide s) = 24"
    by (simp add: eq)
  have "hsum 21 (sc_load_wide s) = take_bit 483 (le_int s) + 2 ^ 483 * drop_bit 483 (le_int s)"
    by (simp add: eq hsum_append hsum_digits)
  then have sum: "hsum 21 (sc_load_wide s) = le_int s"
    using bits_ident [of 483 "le_int s"] by (simp add: push_bit_eq_mult mult.commute)
  have "take_bit 29 (drop_bit 483 (le_int s)) = drop_bit 483 (le_int s)"
    using le_int_bounds [of s] assms take_bit_int_eq_self [of "le_int s" 512] drop_bit_take_bit [of 483 512 "le_int s"] by simp
  then have "within (drop_bit 483 (le_int s)) (0, 2 ^ 29 - 1)"
    using digit_within [of 29 "drop_bit 483 (le_int s)"] by (simp only:)
  moreover have "list_all2 within (digits 21 23 (le_int s)) (replicate 23 (0, 2 ^ 21 - 1))"
    by (simp add: list_all2_conv_all_nth digits_def digit_def digit_within [of 21, simplified] del: replicate_numeral)
  ultimately have "limbs_within (sc_load_wide s) sc_wide_ivl"
    unfolding eq limbs_within_def sc_wide_ivl_def by (intro list_all2_appendI) simp_all
  note fold = sc_fold [OF this sc_reduce_fold_ivl sc_reduce_fold_live len]
  show "length (sc_reduce s) = 32" "le_int (sc_reduce s) = le_int s mod sc_order"
    using sc_store_finish [OF fold(1) [unfolded sc_folded_ivl_def]] fold(2) sum by (simp_all add: sc_reduce_def)
qed

lemma sc_reduce32_value:
  assumes "length s = 32"
  shows "length (sc_reduce32 s) = 32" and "le_int (sc_reduce32 s) = le_int s mod sc_order"
proof -
  have "list_all (\<lambda>x. \<bar>x\<bar> \<le> 2 ^ 60) (sc_load s)"
    using sc_load_bounds [OF assms, of 0] by (auto simp: list_all_iff)
  from sc_reduce_short [OF this] sc_load_facts(1,2) [OF assms]
  show "length (sc_reduce32 s) = 32" "le_int (sc_reduce32 s) = le_int s mod sc_order"
    by (simp_all add: sc_reduce32_def sc_finish_eq(2))
qed

lemma sc_add_sub_value:
  assumes "length a = 32" and "length b = 32"
  shows "length (sc_add a b) = 32" "le_int (sc_add a b) = (le_int a + le_int b) mod sc_order"
    "length (sc_sub a b) = 32" "le_int (sc_sub a b) = (le_int a - le_int b) mod sc_order"
  using sc_reduce_short [OF map2_i64(3) [OF assms]] sc_reduce_short [OF map2_i64(4) [OF assms]] sc_load_facts(1,2) [OF assms(1)]
    sc_load_facts(1,2) [OF assms(2)]
  by (simp_all add: sc_add_def sc_sub_def sc_finish_eq(3,4) map2_i64(1,2) [OF assms] hsum_map2_add hsum_map2_diff)

lemma length_conv_load: "length a = 32 \<Longrightarrow> length b = 32 \<Longrightarrow> length (conv (sc_load a) (sc_load b)) = 23"
  using sc_load_facts(1) [of a] sc_load_facts(1) [of b] by auto

lemma sc_mul_value:
  assumes "length a = 32" and "length b = 32"
  shows "length (sc_mul a b) = 32" and "le_int (sc_mul a b) = (le_int a * le_int b) mod sc_order"
proof -
  have "list_all (\<lambda>x. \<bar>x\<bar> \<le> 2 ^ 51) (conv (sc_load a) (sc_load b))"
    using conv_limbs_bounds [OF assms] by (auto simp: list_all_iff)
  moreover have "length (conv (sc_load a) (sc_load b)) = 23"
    by (rule length_conv_load [OF assms])
  ultimately show "length (sc_mul a b) = 32" "le_int (sc_mul a b) = (le_int a * le_int b) mod sc_order"
    using sc_reduce_products [of "conv (sc_load a) (sc_load b)"] sc_load_facts(1,2) [OF assms(1)] sc_load_facts(1,2) [OF assms(2)]
    by (simp_all add: sc_mul_def sc_finish_eq(5) sc_fold_eq sc_mul_products_eq hsum_conv)
qed

lemma sc_muladd_sub_value:
  assumes "length a = 32" and "length b = 32" and "length c = 32"
  shows "length (sc_muladd a b c) = 32" "le_int (sc_muladd a b c) = (le_int a * le_int b + le_int c) mod sc_order"
    "length (sc_mulsub a b c) = 32" "le_int (sc_mulsub a b c) = (le_int c - le_int a * le_int b) mod sc_order"
proof -
  have len: "length (conv (sc_load a) (sc_load b)) = 23" "length (sc_load c @ replicate 11 0) = 23"
    using sc_load_facts(1) [OF assms(3)] length_conv_load [OF assms(1,2)] by (simp_all del: replicate_numeral length_conv)
  note sums = sc_reduce_products [OF combined_bounds(1) [OF sc_load_bounds [OF assms(3), of 11] conv_limbs_bounds [OF assms(1,2)]]]
  note diffs = sc_reduce_products [OF combined_bounds(2) [OF sc_load_bounds [OF assms(3), of 11] conv_limbs_bounds [OF assms(1,2)]]]
  show "length (sc_muladd a b c) = 32" "le_int (sc_muladd a b c) = (le_int a * le_int b + le_int c) mod sc_order"
    "length (sc_mulsub a b c) = 32" "le_int (sc_mulsub a b c) = (le_int c - le_int a * le_int b) mod sc_order"
    using sums diffs len sc_load_facts(1,2) assms
    by (simp_all add: sc_muladd_def sc_mulsub_def sc_finish_eq(6,7) sc_fold_eq sc_muladd_products_eq sc_mulsub_products_eq
        hsum_map2_add hsum_map2_diff hsum_append hsum_conv add.commute del: replicate_numeral length_append length_conv)
qed

section \<open>The tests\<close>

lemma sgn_hsum:
  assumes "list_all (\<lambda>d. \<bar>d\<bar> < 2 ^ b) ds" and "0 < b"
  shows "sgn (hsum 1 (map sgn ds)) = sgn (hsum b ds)"
  using assms(1)
proof (induction ds)
  case (Cons d ds)
  have high: "sgn (x + 2 ^ c * y) = sgn y" if "\<bar>x\<bar> < 2 ^ c" "y \<noteq> 0" for x y :: int and c
  proof (cases "0 < y")
    case True
    then have "(2 :: int) ^ c * 1 \<le> 2 ^ c * y"
      by (intro mult_left_mono) simp_all
    then have "0 < x + 2 ^ c * y"
      using that(1) by linarith
    then show ?thesis
      using True by simp
  next
    case False
    then have "(2 :: int) ^ c * y \<le> 2 ^ c * - 1"
      using that by (intro mult_left_mono) simp_all
    then have "x + 2 ^ c * y < 0"
      using that(1) by linarith
    then show ?thesis
      using that False by simp
  qed
  have "\<bar>sgn d\<bar> < 2 ^ 1"
    by (simp add: sgn_if)
  moreover have "hsum 1 (map sgn ds) = 0 \<longleftrightarrow> hsum b ds = 0"
    using Cons by (metis list.pred_inject(2) sgn_0_0)
  ultimately show ?case
    using Cons high [of d b "hsum b ds"] high [of "sgn d" 1 "hsum 1 (map sgn ds)"]
    by (cases "hsum b ds = 0") (auto simp: sgn_0_0)
qed simp

lemma drop_bit_8_sign: "\<bar>x\<bar> < 256 \<Longrightarrow> drop_bit 8 x = (if 0 \<le> x then 0 else - 1)" for x :: int
proof -
  assume "\<bar>x\<bar> < 256"
  then have "x div 256 = (if 0 \<le> x then 0 else - 1)"
    by (auto intro!: div_pos_pos_trivial simp: div_eq_minus1 int_div_neg_eq [of x 256 "- 1" "x + 256"])
  then show ?thesis
    by (simp add: drop_bit_eq_div)
qed

lemma signum_sgn: "signum = sgn"
  by (auto simp: signum_def fun_eq_iff)

lemma sint_load_4_word: "k + 4 \<le> length s \<Longrightarrow> sint (load_4 (drop k s)) = take_bit 32 (drop_bit (8 * k) (le_int s))"
  using sint_shifted [OF load_4_bits, of k s 0] by simp

lemma abs_hsum_sgn: "\<bar>hsum 1 (map sgn ds)\<bar> < 2 ^ length ds" for ds :: "int list"
proof (induction ds)
  case (Cons d ds)
  have "\<bar>sgn d\<bar> \<le> 1"
    by (simp add: sgn_if)
  moreover have "\<bar>hsum 1 (map sgn ds)\<bar> + 1 \<le> 2 ^ length ds"
    using Cons by linarith
  ultimately have "\<bar>sgn d + 2 * hsum 1 (map sgn ds)\<bar> < 2 * 2 ^ length ds"
    by linarith
  then show ?case
    by simp
qed simp

lemma sc_check_value:
  assumes "length s = 32"
  shows "sc_check s = (if le_int s < sc_order then 0 else - 1)"
proof -
  let ?l = "[1559614444, 1477600026, 2734136534, 350157278, 0, 0, 0, 268435456] :: int list"
  define ds where "ds = map2 (-) ?l (digits 32 8 (le_int s))"
  have small: "\<bar>l - take_bit 32 v\<bar> < 4294967296" if "0 \<le> l" "l < 4294967296" for l v :: int
    using take_bit_int_less_exp [of 32 v, simplified] take_bit_nonnegative [of 32 v] that by linarith
  have ds: "ds = [1559614444 - take_bit 32 (le_int s), 1477600026 - take_bit 32 (drop_bit 32 (le_int s)),
      2734136534 - take_bit 32 (drop_bit 64 (le_int s)), 350157278 - take_bit 32 (drop_bit 96 (le_int s)),
      0 - take_bit 32 (drop_bit 128 (le_int s)), 0 - take_bit 32 (drop_bit 160 (le_int s)),
      0 - take_bit 32 (drop_bit 192 (le_int s)), 268435456 - take_bit 32 (drop_bit 224 (le_int s))]"
    by (simp add: ds_def digits_def digit_def upt_rec)
  have "list_all (\<lambda>d. \<bar>d\<bar> < 2 ^ 32) ds"
    unfolding ds using small [of 0] by (simp add: small)
  then have sign: "sgn (hsum 1 (map sgn ds)) = sgn (hsum 32 ds)"
    by (rule sgn_hsum) simp
  have "hsum 32 ds = hsum 32 ?l - le_int s"
    using le_int_bounds [of s] assms by (simp add: ds_def hsum_map2_diff hsum_digits take_bit_int_eq_self)
  moreover have "hsum 32 ?l = sc_order - 1"
    by (simp add: sc_order_def)
  ultimately have total: "hsum 32 ds = sc_order - 1 - le_int s"
    by simp
  have "sc_check s = drop_bit 8 (hsum 1 (map sgn ds))"
    using assms sint_load_4_word [of 0 s] by (simp add: sc_check_def ds signum_sgn sint_load_4_word push_bit_eq_mult algebra_simps)
  also have "\<dots> = (if 0 \<le> hsum 1 (map sgn ds) then 0 else - 1)"
    using abs_hsum_sgn [of ds] by (intro drop_bit_8_sign) (simp add: ds_def)
  also have "0 \<le> hsum 1 (map sgn ds) \<longleftrightarrow> 0 \<le> hsum 32 ds"
    using sign by (metis sgn_less not_less)
  finally show ?thesis
    using total by simp
qed

lemma fold_or_eq_0: "fold (OR) ws c = 0 \<longleftrightarrow> c = 0 \<and> list_all (\<lambda>w. w = 0) ws" for c :: "'a::len word"
proof (induction ws arbitrary: c)
  case (Cons w ws)
  then show ?case
    by (auto simp: or_eq_0_iff)
qed simp

lemma le_int_eq_0: "le_int cs = 0 \<longleftrightarrow> list_all (\<lambda>c. c = 0) cs"
proof (induction cs)
  case (Cons c cs)
  have "le_int (c # cs) = 0 \<longleftrightarrow> uint c = 0 \<and> le_int cs = 0"
    using uint_byte_bounds(1) [of c] le_int_bounds(1) [of cs] unfolding le_int.simps by linarith
  then show ?case
    using Cons by (simp add: uint_0_iff)
qed simp

lemma sc_isnonzero_value:
  assumes "length s = 32"
  shows "sc_isnonzero s = (if le_int s = 0 then 0 else 1)"
proof -
  define x where "x = fold (OR) s 0"
  have s: "map ((!) s) [0..<32] = s"
    using assms map_nth [of s] by simp
  have "sc_isnonzero s = drop_bit 8 (uint x - 1) + 1"
    unfolding sc_isnonzero_def s x_def ..
  moreover have "x = 0 \<longleftrightarrow> le_int s = 0"
    by (simp add: x_def fold_or_eq_0 le_int_eq_0)
  moreover have "x = 0 \<longleftrightarrow> uint x = 0"
    by (simp add: uint_0_iff)
  moreover have "drop_bit 8 (uint x - 1) = (if 0 \<le> uint x - 1 then 0 else - 1)"
    using uint_byte_bounds [of x] by (intro drop_bit_8_sign) linarith
  moreover have "0 \<le> uint x - 1 \<longleftrightarrow> uint x \<noteq> 0"
    using uint_byte_bounds(1) [of x] by linarith
  ultimately show ?thesis
    by simp
qed

section \<open>Scalars as an implementation of the integers modulo \<open>l\<close>\<close>

text \<open>
  The contract of a representation of the integers modulo \<open>m\<close>: every operation returns a
  valid string whose number is the canonical residue. What its clients use, the ring
  laws as equations between strings, follows because canonical strings are unique.
\<close>

locale residue_arithmetic =
  fixes modulus :: int
    and valid :: "'s \<Rightarrow> bool"
    and val :: "'s \<Rightarrow> int"
    and add :: "'s \<Rightarrow> 's \<Rightarrow> 's"
    and sub :: "'s \<Rightarrow> 's \<Rightarrow> 's"
    and mul :: "'s \<Rightarrow> 's \<Rightarrow> 's"
  assumes val_inject: "valid a \<Longrightarrow> valid b \<Longrightarrow> val a = val b \<Longrightarrow> a = b"
    and add: "valid a \<Longrightarrow> valid b \<Longrightarrow> valid (add a b) \<and> val (add a b) = (val a + val b) mod modulus"
    and sub: "valid a \<Longrightarrow> valid b \<Longrightarrow> valid (sub a b) \<and> val (sub a b) = (val a - val b) mod modulus"
    and mul: "valid a \<Longrightarrow> valid b \<Longrightarrow> valid (mul a b) \<and> val (mul a b) = (val a * val b) mod modulus"
begin

lemma add_commute: "valid a \<Longrightarrow> valid b \<Longrightarrow> add a b = add b a"
  by (rule val_inject) (simp_all add: add add.commute)

lemma add_assoc: "valid a \<Longrightarrow> valid b \<Longrightarrow> valid c \<Longrightarrow> add (add a b) c = add a (add b c)"
  by (rule val_inject) (simp_all add: add mod_simps add.assoc)

lemma mul_commute: "valid a \<Longrightarrow> valid b \<Longrightarrow> mul a b = mul b a"
  by (rule val_inject) (simp_all add: mul mult.commute)

lemma mul_assoc: "valid a \<Longrightarrow> valid b \<Longrightarrow> valid c \<Longrightarrow> mul (mul a b) c = mul a (mul b c)"
  by (rule val_inject) (simp_all add: mul mod_simps mult.assoc)

lemma distrib: "valid a \<Longrightarrow> valid b \<Longrightarrow> valid c \<Longrightarrow> mul a (add b c) = add (mul a b) (mul a c)"
  by (rule val_inject) (simp_all add: mul add mod_simps distrib_left)

lemma sub_add: "valid a \<Longrightarrow> valid b \<Longrightarrow> val a = val a mod modulus \<Longrightarrow> add (sub a b) b = a"
  by (rule val_inject) (simp_all add: add sub mod_simps)

end

interpretation sc: residue_arithmetic sc_order "\<lambda>s. length s = 32" le_int sc_add sc_sub sc_mul
  by unfold_locales (simp_all add: le_int_inject sc_add_sub_value sc_mul_value)

section \<open>Properties\<close>

text \<open>
  C36. \<open>sc_reduce\<close> and \<open>sc_reduce32\<close> return the 32 bytes of the residue of their argument modulo
  the group order \<open>l\<close>, for every string of 64 (32) bytes.
\<close>

theorem sc_reduce_canonical:
  "(length s = 64 \<longrightarrow> length (sc_reduce s) = 32 \<and> le_int (sc_reduce s) = le_int s mod sc_order) \<and>
   (length s = 32 \<longrightarrow> length (sc_reduce32 s) = 32 \<and> le_int (sc_reduce32 s) = le_int s mod sc_order)"
  by (simp add: sc_reduce_value sc_reduce32_value)

theorem sc_reduce_canonical_witness:
  "le_int (sc_reduce (replicate 64 255)) = le_int (replicate 64 255) mod sc_order"
  using sc_reduce_canonical [of "replicate 64 255"] by (simp del: replicate_numeral)

text \<open>
  C1. The scalar operations refine the ring of integers modulo \<open>l\<close>: through \<open>le_int\<close>, each of
  \<open>sc_add\<close>, \<open>sc_sub\<close>, \<open>sc_mul\<close>, \<open>sc_muladd\<close> and \<open>sc_mulsub\<close> computes the canonical residue of the
  corresponding integer expression, whether or not its arguments are reduced, and no
  64-bit intermediate result overflows on the way.
\<close>

theorem sc_operations_refine:
  assumes "length a = 32" and "length b = 32" and "length c = 32"
  shows "le_int (sc_add a b) = (le_int a + le_int b) mod sc_order \<and>
    le_int (sc_sub a b) = (le_int a - le_int b) mod sc_order \<and>
    le_int (sc_mul a b) = (le_int a * le_int b) mod sc_order \<and>
    le_int (sc_muladd a b c) = (le_int a * le_int b + le_int c) mod sc_order \<and>
    le_int (sc_mulsub a b c) = (le_int c - le_int a * le_int b) mod sc_order"
  using assms by (simp add: sc_add_sub_value sc_mul_value sc_muladd_sub_value)

theorem sc_operations_refine_witness:
  "le_int (sc_sub sc_0 (replicate 32 1)) = (0 - le_int (replicate 32 1)) mod sc_order"
proof -
  have "length sc_0 = 32" "length (replicate 32 (1 :: byte)) = 32" "le_int sc_0 = 0"
    by (simp_all add: sc_0_def le_int_eq_0 list_all_iff)
  then show ?thesis
    using sc_operations_refine [of sc_0 "replicate 32 1" sc_0] by (simp del: replicate_numeral)
qed

text \<open>
  The fused routines agree with the composed ones, byte for byte: \<open>sc_muladd\<close> is \<open>sc_mul\<close>
  followed by \<open>sc_add\<close>, \<open>sc_mulsub\<close> is \<open>sc_mul\<close> followed by \<open>sc_sub\<close>, and \<open>sc_mul\<close> distributes over
  \<open>sc_add\<close>.
\<close>

theorem sc_fused_equivalent:
  assumes "length a = 32" and "length b = 32" and "length c = 32"
  shows "sc_muladd a b c = sc_add (sc_mul a b) c \<and> sc_mulsub a b c = sc_sub c (sc_mul a b) \<and>
    sc_mul a (sc_add b c) = sc_add (sc_mul a b) (sc_mul a c)"
proof (intro conjI)
  show "sc_muladd a b c = sc_add (sc_mul a b) c"
    by (rule le_int_inject) (simp_all add: assms sc_add_sub_value sc_mul_value sc_muladd_sub_value mod_simps)
  show "sc_mulsub a b c = sc_sub c (sc_mul a b)"
    by (rule le_int_inject) (simp_all add: assms sc_add_sub_value sc_mul_value sc_muladd_sub_value mod_simps)
  show "sc_mul a (sc_add b c) = sc_add (sc_mul a b) (sc_mul a c)"
    by (rule sc.distrib [OF assms])
qed

theorem sc_fused_equivalent_witness:
  "sc_muladd (replicate 32 7) (replicate 32 255) sc_0 = sc_add (sc_mul (replicate 32 7) (replicate 32 255)) sc_0"
  using sc_fused_equivalent [of "replicate 32 7" "replicate 32 255" sc_0] by (simp add: sc_0_def del: replicate_numeral)

text \<open>
  C37. \<open>sc_check\<close> accepts exactly the canonical scalars: it returns 0 when the 32 bytes are below
  \<open>l\<close> and -1 otherwise; and \<open>sc_isnonzero\<close> returns 1 exactly for scalars with a nonzero byte.
\<close>

theorem sc_check_canonical:
  assumes "length s = 32"
  shows "sc_check s = (if le_int s < sc_order then 0 else - 1) \<and> sc_isnonzero s = (if le_int s = 0 then 0 else 1)"
  using assms by (simp add: sc_check_value sc_isnonzero_value)

theorem sc_check_canonical_witness:
  "sc_check (replicate 32 255) = - 1 \<and> sc_isnonzero (replicate 32 255) = 1"
proof -
  have "le_int (replicate 32 255) = 2 ^ 256 - 1"
    by simp
  then show ?thesis
    using sc_check_canonical [of "replicate 32 255"] by (simp add: sc_order_def del: replicate_numeral)
qed

end
