(* ===== verification/Include_Dirs.thy ===== *)
theory Include_Dirs
  imports Gyro_Prelude
begin

text \<open>
  \<open>external/rapidjson/include_dirs.js\<close>, the script a build calls to learn where the JSON headers
  are. It prints \<open>path.join(path.relative('.', __dirname), 'include')\<close>. The functions of Node's
  \<open>path\<close> module that it calls are written out here for POSIX paths, with the current directory
  of the process as an argument. The property says that the printed path, read back from
  the same directory, leads to the \<open>include\<close> directory beside the script.
\<close>

section \<open>POSIX paths\<close>

abbreviation slash :: char where
  "slash \<equiv> CHR ''/''"

fun split_path :: "string \<Rightarrow> string list" where
  "split_path [] = [[]]"
| "split_path (c # cs) = (if c = slash then [] # split_path cs
     else case split_path cs of [] \<Rightarrow> [[c]] | s # ss \<Rightarrow> (c # s) # ss)"

fun join_path :: "string list \<Rightarrow> string" where
  "join_path [] = []"
| "join_path [s] = s"
| "join_path (s # ss) = s @ slash # join_path ss"

text \<open>The loop of \<open>normalizeString\<close>; the segments kept so far are in reverse order.\<close>

definition norm_step :: "bool \<Rightarrow> string \<Rightarrow> string list \<Rightarrow> string list" where
  "norm_step allowAboveRoot seg res =
     (if seg = [] \<or> seg = ''.'' then res
      else if seg = ''..'' then
        (case res of
           [] \<Rightarrow> if allowAboveRoot then [''..''] else []
         | s # ss \<Rightarrow> if s \<noteq> ''..'' then ss else if allowAboveRoot then ''..'' # res else res)
      else seg # res)"

definition norm_segments :: "bool \<Rightarrow> string list \<Rightarrow> string list" where
  "norm_segments allowAboveRoot segs = rev (fold (norm_step allowAboveRoot) segs [])"

definition is_absolute :: "string \<Rightarrow> bool" where
  "is_absolute p \<longleftrightarrow> p \<noteq> [] \<and> hd p = slash"

definition path_normalize :: "string \<Rightarrow> string" where
  "path_normalize p =
     (if p = [] then ''.''
      else let res = join_path (norm_segments (\<not> is_absolute p) (split_path p)) in
        if res = [] then (if is_absolute p then ''/'' else if last p = slash then ''./'' else ''.'')
        else (if is_absolute p then [slash] else []) @ res @ (if last p = slash then [slash] else []))"

definition path_join :: "string list \<Rightarrow> string" where
  "path_join args = (let joined = filter (\<lambda>a. a \<noteq> []) args in if joined = [] then ''.'' else path_normalize (join_path joined))"

text \<open>\<open>resolve\<close> with one argument, as its segments below the root; the current directory is absolute.\<close>

definition path_resolve :: "string \<Rightarrow> string \<Rightarrow> string list" where
  "path_resolve cwd p = norm_segments False (split_path (if is_absolute p then p else if p = [] then cwd else cwd @ slash # p))"

fun strip_common :: "string list \<Rightarrow> string list \<Rightarrow> string list \<times> string list" where
  "strip_common (a # as) (b # bs) = (if a = b then strip_common as bs else (a # as, b # bs))"
| "strip_common as bs = (as, bs)"

definition path_relative :: "string \<Rightarrow> string \<Rightarrow> string \<Rightarrow> string" where
  "path_relative cwd from to =
     (if from = to then []
      else let (up, down) = strip_common (path_resolve cwd from) (path_resolve cwd to) in
        join_path (replicate (length up) ''..'' @ down))"

section \<open>The script\<close>

text \<open>What the script writes: the path and the newline of \<open>console.log\<close>.\<close>

definition include_dirs :: "string \<Rightarrow> string \<Rightarrow> string" where
  "include_dirs cwd dirname = path_join [path_relative cwd ''.'' dirname, ''include''] @ ''\<newline>''"

section \<open>Segments\<close>

definition plain_segment :: "string \<Rightarrow> bool" where
  "plain_segment s \<longleftrightarrow> s \<noteq> [] \<and> s \<noteq> ''.'' \<and> s \<noteq> ''..'' \<and> slash \<notin> set s"

lemma split_path_not_Nil [simp]: "split_path p \<noteq> []"
  by (cases p) (auto split: list.splits)

lemma split_path_no_slash: "list_all (\<lambda>s. slash \<notin> set s) (split_path p)"
proof (induction p)
  case (Cons c cs)
  then show ?case
    by (cases "split_path cs") auto
qed simp

lemma split_path_append: "slash \<notin> set s \<Longrightarrow> split_path (s @ slash # p) = s # split_path p"
  by (induction s) auto

lemma split_path_segment: "slash \<notin> set s \<Longrightarrow> split_path s = [s]"
  by (induction s) auto

lemma split_path_append2: "split_path (p @ slash # q) = split_path p @ split_path q"
  by (induction p) (auto split: list.splits)

lemma split_join: "segs \<noteq> [] \<Longrightarrow> list_all (\<lambda>s. slash \<notin> set s) segs \<Longrightarrow> split_path (join_path segs) = segs"
  by (induction segs rule: join_path.induct) (auto simp: split_path_append split_path_segment)

lemma join_path_append: "xs \<noteq> [] \<Longrightarrow> ys \<noteq> [] \<Longrightarrow> join_path (xs @ ys) = join_path xs @ slash # join_path ys"
proof (induction xs rule: join_path.induct)
  case (2 s)
  then show ?case
    by (cases ys) auto
qed auto

text \<open>Normalisation: plain segments are kept, \<open>..\<close> takes one away.\<close>

lemma norm_plain: "plain_segment s \<Longrightarrow> norm_step b s res = s # res"
  by (simp add: norm_step_def plain_segment_def)

lemma fold_norm_plain: "list_all plain_segment segs \<Longrightarrow> fold (norm_step b) segs res = rev segs @ res"
  by (induction segs arbitrary: res) (auto simp: norm_plain)

lemma fold_norm_up:
  "list_all plain_segment res \<Longrightarrow> k \<le> length res \<Longrightarrow> fold (norm_step b) (replicate k ''..'') res = drop k res"
proof (induction k arbitrary: res)
  case (Suc k)
  then obtain s ss where "res = s # ss"
    by (cases res) auto
  then show ?case
    using Suc by (simp add: norm_step_def plain_segment_def)
qed simp

lemma fold_norm_above: "fold (norm_step True) (replicate k ''..'') (replicate n ''..'') = replicate (n + k) ''..''"
proof (induction k arbitrary: n)
  case (Suc k)
  have "norm_step True ''..'' (replicate n ''..'') = replicate (Suc n) ''..''"
    by (cases n) (simp_all add: norm_step_def)
  then show ?case
    using Suc.IH [of "Suc n"] by simp
qed simp

lemma norm_step_plain:
  "list_all plain_segment res \<Longrightarrow> slash \<notin> set s \<Longrightarrow> list_all plain_segment (norm_step False s res)"
  by (cases res) (auto simp: norm_step_def plain_segment_def)

lemma fold_norm_plain_segments:
  "list_all (\<lambda>s. slash \<notin> set s) segs \<Longrightarrow> list_all plain_segment res \<Longrightarrow> list_all plain_segment (fold (norm_step False) segs res)"
  by (induction segs arbitrary: res) (auto simp: norm_step_plain)

lemma norm_segments_plain: "list_all (\<lambda>s. slash \<notin> set s) segs \<Longrightarrow> list_all plain_segment (norm_segments False segs)"
  using fold_norm_plain_segments [of segs "[]"] by (simp add: norm_segments_def list_all_rev)

lemma path_resolve_plain: "list_all plain_segment (path_resolve cwd p)"
  unfolding path_resolve_def by (rule norm_segments_plain [OF split_path_no_slash])

lemma strip_common: "strip_common as bs = (up, down) \<Longrightarrow> \<exists>pre. as = pre @ up \<and> bs = pre @ down"
proof (induction as bs rule: strip_common.induct)
  case (1 a as b bs)
  then show ?case
    by (cases "a = b") (fastforce intro: exI [of _ "a # _"], auto)
qed auto

section \<open>The printed path\<close>

definition updown :: "nat \<Rightarrow> string list \<Rightarrow> string list" where
  "updown k down = replicate k ''..'' @ down @ [''include'']"

lemma include_plain: "plain_segment ''include''"
  by (simp add: plain_segment_def)

lemma updown_segments: "list_all plain_segment down \<Longrightarrow> list_all (\<lambda>s. s \<noteq> [] \<and> slash \<notin> set s) (updown k down)"
proof -
  assume "list_all plain_segment down"
  then have "list_all (\<lambda>s. s \<noteq> [] \<and> slash \<notin> set s) down"
    by (rule list.pred_mono_strong) (simp add: plain_segment_def)
  moreover have "list_all (\<lambda>s. s \<noteq> [] \<and> slash \<notin> set s) (replicate k ''..'')"
    by (induction k) simp_all
  ultimately show ?thesis
    by (simp add: updown_def)
qed

lemma join_path_ends:
  "segs \<noteq> [] \<Longrightarrow> list_all (\<lambda>s. s \<noteq> [] \<and> slash \<notin> set s) segs \<Longrightarrow>
   join_path segs \<noteq> [] \<and> hd (join_path segs) \<noteq> slash \<and> last (join_path segs) \<noteq> slash"
proof (induction segs rule: join_path.induct)
  case (2 s)
  then show ?case
    by (auto dest: hd_in_set last_in_set)
next
  case (3 s t ss)
  then show ?case
    by (auto dest: hd_in_set)
qed simp

lemma path_normalize_updown:
  assumes "list_all plain_segment down"
  shows "path_normalize (join_path (updown k down)) = join_path (updown k down)"
proof -
  let ?segs = "updown k down"
  have ne: "?segs \<noteq> []"
    by (simp add: updown_def)
  note ends = join_path_ends [OF ne updown_segments [OF assms]]
  have split: "split_path (join_path ?segs) = ?segs"
    using updown_segments [OF assms] by (intro split_join ne) (auto simp: list_all_iff)
  have "norm_segments True ?segs = ?segs"
    using assms include_plain fold_norm_above [of k 0]
    by (simp add: norm_segments_def updown_def fold_norm_plain norm_plain)
  then show ?thesis
    using ends split by (auto simp: path_normalize_def is_absolute_def Let_def)
qed

lemma path_join_updown:
  assumes "list_all plain_segment down"
  shows "path_join [join_path (replicate k ''..'' @ down), ''include''] = join_path (updown k down)"
proof (cases "replicate k ''..'' @ down = []")
  case True
  then show ?thesis
    using path_normalize_updown [OF assms, of k] by (simp add: path_join_def updown_def)
next
  case False
  have "list_all (\<lambda>s. s \<noteq> [] \<and> slash \<notin> set s) (replicate k ''..'' @ down)"
    using updown_segments [OF assms, of k] by (simp add: updown_def)
  then have "join_path (replicate k ''..'' @ down) \<noteq> []"
    using join_path_ends [OF False] by blast
  moreover have "join_path (updown k down) = join_path (replicate k ''..'' @ down) @ slash # ''include''"
    using join_path_append [OF False, of "[''include'']"] by (simp add: updown_def)
  ultimately show ?thesis
    using path_normalize_updown [OF assms, of k] by (simp add: path_join_def)
qed

lemma path_resolve_dot: "path_resolve cwd ''.'' = norm_segments False (split_path cwd)"
  by (simp add: path_resolve_def is_absolute_def split_path_append2 norm_segments_def norm_step_def)

lemma path_resolve_updown:
  assumes "path_resolve cwd ''.'' = pre @ up" and "list_all plain_segment down"
  shows "path_resolve cwd (join_path (updown (length up) down)) = pre @ down @ [''include'']"
proof -
  let ?segs = "updown (length up) down"
  have ne: "?segs \<noteq> []"
    by (simp add: updown_def)
  note ends = join_path_ends [OF ne updown_segments [OF assms(2)]]
  have split: "split_path (join_path ?segs) = ?segs"
    using updown_segments [OF assms(2)] by (intro split_join ne) (auto simp: list_all_iff)
  have cwd: "fold (norm_step False) (split_path cwd) [] = rev up @ rev pre"
    using assms(1) by (simp add: path_resolve_dot norm_segments_def rev_swap)
  moreover have "list_all plain_segment (rev up @ rev pre)"
    using path_resolve_plain [of cwd "''.''"] assms(1) by (simp add: list_all_rev)
  ultimately show ?thesis
    using ends split assms(2) include_plain fold_norm_up [of "rev up @ rev pre" "length up" False]
    by (simp add: path_resolve_def is_absolute_def split_path_append2 norm_segments_def updown_def fold_norm_plain norm_plain)
qed

text \<open>
  C40. \<open>include_dirs.js\<close> prints one line, a relative path that, resolved from the directory the
  script was started in, is the \<open>include\<close> directory next to the script, wherever the two
  directories lie relative to each other.
\<close>

theorem include_dirs_resolves:
  assumes "is_absolute dirname"
  shows "\<exists>p. include_dirs cwd dirname = p @ ''\<newline>'' \<and> \<not> is_absolute p \<and>
    path_resolve cwd p = path_resolve cwd dirname @ [''include'']"
proof -
  obtain up down where ud: "strip_common (path_resolve cwd ''.'') (path_resolve cwd dirname) = (up, down)"
    by fastforce
  then obtain pre where pre: "path_resolve cwd ''.'' = pre @ up" "path_resolve cwd dirname = pre @ down"
    using strip_common by blast
  have down: "list_all plain_segment down"
    using path_resolve_plain [of cwd dirname] pre(2) by simp
  have "dirname \<noteq> ''.''"
    using assms by (auto simp: is_absolute_def)
  then have "include_dirs cwd dirname = join_path (updown (length up) down) @ ''\<newline>''"
    using path_join_updown [OF down, of "length up"] ud by (auto simp: include_dirs_def path_relative_def)
  moreover have "\<not> is_absolute (join_path (updown (length up) down))"
    using join_path_ends [OF _ updown_segments [OF down]] by (simp add: is_absolute_def updown_def)
  moreover have "path_resolve cwd (join_path (updown (length up) down)) = path_resolve cwd dirname @ [''include'']"
    using path_resolve_updown [OF pre(1) down] pre(2) by simp
  ultimately show ?thesis
    by blast
qed

theorem include_dirs_resolves_witness:
  "include_dirs ''/home/me/build'' ''/home/me/src/rapidjson'' = ''../src/rapidjson/include\<newline>'' \<and>
   path_resolve ''/home/me/build'' ''../src/rapidjson/include'' = path_resolve ''/home/me/build'' ''/home/me/src/rapidjson'' @ [''include'']"
proof -
  have out: "include_dirs ''/home/me/build'' ''/home/me/src/rapidjson'' = ''../src/rapidjson/include\<newline>''"
    by (simp add: include_dirs_def path_join_def path_relative_def path_resolve_def norm_segments_def norm_step_def
        path_normalize_def is_absolute_def)
  have "is_absolute ''/home/me/src/rapidjson''"
    by (simp add: is_absolute_def)
  from include_dirs_resolves [OF this, of "''/home/me/build''"] show ?thesis
    unfolding out by auto
qed

end
