(* ===== verification/Money.thy ===== *)
theory Money
  imports Int_Util
begin

unbundle bit_operations_syntax

text \<open>
  Amounts of money: the block reward of \<open>cryptonote_basic_impl.cpp\<close>, and from
  \<open>cryptonote_format_utils\<close> the reading and printing of amounts, their decomposition into
  round amounts, and the overflow and fee checks on the sums of a transaction. The global
  variables of \<open>cryptonote_config.cpp\<close> are a record. Of boost, the 256-bit arithmetic,
  \<open>divide_qr\<close>, \<open>trim\<close> and \<open>lexical_cast\<close> are parameters; the hypotheses say what is documented about them.
\<close>

section \<open>The block reward\<close>

record cn_config =
  DURATION_TARGET :: u64
  EMISSION_SUBSIDY_PER_MINUTE :: u64
  FINAL_SUBSIDY_PER_MINUTE :: u64
  COIN :: u64
  START_AMOUNT_BLOCKS :: u64
  START_AMOUNT :: u64

definition COIN_DEFAULT :: u64 where
  "COIN_DEFAULT = 1000000000000"

definition default_config :: cn_config where
  "default_config = \<lparr>DURATION_TARGET = 120, EMISSION_SUBSIDY_PER_MINUTE = 20, FINAL_SUBSIDY_PER_MINUTE = 3000000000,
     COIN = COIN_DEFAULT, START_AMOUNT_BLOCKS = 100, START_AMOUNT = 1000 * COIN_DEFAULT\<rparr>"

definition MONEY_SUPPLY :: u64 where
  "MONEY_SUPPLY = - 1"

definition get_min_block_weight :: "byte \<Rightarrow> u64" where
  "get_min_block_weight version = (if version < 2 then 20000 else if version < 5 then 60000 else 300000)"

text \<open>The operations of \<open>boost::multiprecision::uint256_t\<close> that the reward uses.\<close>

type_synonym u256 = "256 word"

record u256_ops =
  times256 :: "u256 \<Rightarrow> u256 \<Rightarrow> u256"
  divide256 :: "u256 \<Rightarrow> u256 \<Rightarrow> u256"
  convert256 :: "u256 \<Rightarrow> u64"

definition base_reward :: "u256_ops \<Rightarrow> cn_config \<Rightarrow> u64 \<Rightarrow> u64" where
  "base_reward ops cfg already_generated_coins =
     (let a = times256 ops (ucast (MONEY_SUPPLY - already_generated_coins)) (ucast (EMISSION_SUBSIDY_PER_MINUTE cfg));
          a = times256 ops a (ucast (DURATION_TARGET cfg));
          a = times256 ops a (ucast (COIN cfg));
          base_reward = convert256 ops (divide256 ops (divide256 ops a (ucast MONEY_SUPPLY)) 60);
          final_base_reward = FINAL_SUBSIDY_PER_MINUTE cfg * DURATION_TARGET cfg div 60 in
      if base_reward < final_base_reward then final_base_reward else base_reward)"

text \<open>A returned \<open>false\<close> is \<open>None\<close>; the reward is then not set.\<close>

definition get_block_reward ::
  "u256_ops \<Rightarrow> (u128 \<Rightarrow> u128 \<Rightarrow> u128 \<times> u128) \<Rightarrow> cn_config \<Rightarrow> u64 \<Rightarrow> u64 \<Rightarrow> u64 \<Rightarrow> u64 \<Rightarrow> byte \<Rightarrow> u64 option result" where
  "get_block_reward ops divide_qr cfg height median_weight current_block_weight already_generated_coins version =
     (if height > 0 \<and> height \<le> START_AMOUNT_BLOCKS cfg then
        Inr (Some (if height = START_AMOUNT_BLOCKS cfg
          then START_AMOUNT cfg - (START_AMOUNT_BLOCKS cfg - 1) * START_AMOUNT cfg div START_AMOUNT_BLOCKS cfg
          else START_AMOUNT cfg div START_AMOUNT_BLOCKS cfg))
      else
        let base_reward = base_reward ops cfg already_generated_coins;
            full_reward_zone = get_min_block_weight version;
            median_weight = (if median_weight < full_reward_zone then full_reward_zone else median_weight) in
        if current_block_weight \<le> median_weight then Inr (Some base_reward)
        else if current_block_weight > 2 * median_weight then Inr None
        else
          let multiplicand = 2 * median_weight - current_block_weight;
              multiplicand = multiplicand * current_block_weight;
              (product_hi, product_lo) = mul128 base_reward multiplicand;
              ((reward_hi, reward_lo), _) = div128_64 divide_qr product_hi product_lo median_weight;
              ((reward_hi, reward_lo), _) = div128_64 divide_qr reward_hi reward_lo median_weight in
          if 0 \<noteq> reward_hi then Inl Assertion_failed
          else if \<not> reward_lo < base_reward then Inl Assertion_failed
          else Inr (Some reward_lo))"

section \<open>Printing and reading amounts\<close>

text \<open>The character classes of \<open>parserse_base_utils.h\<close>.\<close>

definition lut :: "byte list" where
  "lut =
    [0, 0, 0, 0, 0, 0, 0, 0, 0, 8, 8, 8, 8, 8, 0, 0,
     0, 0, 0, 0, 0, 0, 0, 0, 0, 0, 0, 0, 0, 0, 0, 0,
     8, 0, 32, 0, 0, 0, 0, 0, 0, 0, 0, 16, 0, 16, 18, 0,
     17, 17, 17, 17, 17, 17, 17, 17, 17, 17, 0, 0, 0, 0, 0, 0,
     0, 4, 4, 4, 4, 22, 4, 4, 4, 4, 4, 4, 4, 4, 4, 4,
     4, 4, 4, 4, 4, 4, 4, 4, 4, 4, 4, 0, 32, 0, 0, 0,
     0, 4, 4, 4, 4, 22, 4, 4, 4, 4, 4, 4, 4, 4, 4, 4,
     4, 4, 4, 4, 4, 4, 4, 4, 4, 4, 4, 0, 0, 0, 0, 0,
     0, 0, 0, 0, 0, 0, 0, 0, 0, 0, 0, 0, 0, 0, 0, 0,
     0, 0, 0, 0, 0, 0, 0, 0, 0, 0, 0, 0, 0, 0, 0, 0,
     0, 0, 0, 0, 0, 0, 0, 0, 0, 0, 0, 0, 0, 0, 0, 0,
     0, 0, 0, 0, 0, 0, 0, 0, 0, 0, 0, 0, 0, 0, 0, 0,
     0, 0, 0, 0, 0, 0, 0, 0, 0, 0, 0, 0, 0, 0, 0, 0,
     0, 0, 0, 0, 0, 0, 0, 0, 0, 0, 0, 0, 0, 0, 0, 0,
     0, 0, 0, 0, 0, 0, 0, 0, 0, 0, 0, 0, 0, 0, 0, 0,
     0, 0, 0, 0, 0, 0, 0, 0, 0, 0, 0, 0, 0, 0, 0, 0]"

definition isdigit :: "char \<Rightarrow> bool" where
  "isdigit c \<longleftrightarrow> lut ! of_char c AND 1 \<noteq> 0"

definition get_xtype_from_string :: "(string \<Rightarrow> u64 option) \<Rightarrow> string \<Rightarrow> u64 option" where
  "get_xtype_from_string lexical_cast str_id = (if \<not> list_all isdigit str_id then None else lexical_cast str_id)"

text \<open>\<open>find_first_of\<close>: the number of characters before the first \<open>c\<close>.\<close>

definition find_first_of :: "string \<Rightarrow> char \<Rightarrow> nat option" where
  "find_first_of s c = (if c \<in> set s then Some (length (takeWhile (\<lambda>x. x \<noteq> c) s)) else None)"

fun drop_zeros :: "nat \<Rightarrow> string \<Rightarrow> nat \<Rightarrow> string \<times> nat" where
  "drop_zeros decimals str_amount 0 = (str_amount, 0)"
| "drop_zeros decimals str_amount (Suc fraction_size) =
     (if decimals < Suc fraction_size \<and> str_amount \<noteq> [] \<and> CHR ''0'' = last str_amount
      then drop_zeros decimals (butlast str_amount) fraction_size else (str_amount, Suc fraction_size))"

definition parse_amount :: "(string \<Rightarrow> string) \<Rightarrow> (string \<Rightarrow> u64 option) \<Rightarrow> u32 \<Rightarrow> string \<Rightarrow> u64 option" where
  "parse_amount trim lexical_cast default_decimal_point str_arg =
     (let str_amount = trim str_arg; decimals = unat default_decimal_point in
      case (case find_first_of str_amount CHR ''.'' of
          Some point_index \<Rightarrow>
            (let (str_amount, fraction_size) = drop_zeros decimals str_amount (length str_amount - point_index - 1) in
             if decimals < fraction_size then None
             else Some (take point_index str_amount @ drop (point_index + 1) str_amount, fraction_size))
        | None \<Rightarrow> Some (str_amount, 0)) of
        None \<Rightarrow> None
      | Some (str_amount, fraction_size) \<Rightarrow>
          if str_amount = [] then None
          else get_xtype_from_string lexical_cast
            (if fraction_size < decimals then str_amount @ replicate (decimals - fraction_size) CHR ''0'' else str_amount))"

definition set_default_decimal_point :: "u32 \<Rightarrow> u32 result" where
  "set_default_decimal_point decimal_point =
     (if decimal_point = 12 \<or> decimal_point = 9 \<or> decimal_point = 6 \<or> decimal_point = 3 \<or> decimal_point = 0
      then Inr decimal_point else Inl Runtime_error)"

text \<open>\<open>std::to_string\<close> of an unsigned number.\<close>

fun to_string :: "nat \<Rightarrow> string" where
  "to_string n = (if n < 10 then [char_of (48 + n)] else to_string (n div 10) @ [char_of (48 + n mod 10)])"

declare to_string.simps [simp del]

definition insert_money_decimal_point :: "u32 \<Rightarrow> string \<Rightarrow> u32 \<Rightarrow> string" where
  "insert_money_decimal_point default_decimal_point s decimal_point =
     (let decimal_point = (if decimal_point = - 1 then default_decimal_point else decimal_point);
          s = (if length s < unat (decimal_point + 1) then replicate (unat (decimal_point + 1) - length s) CHR ''0'' @ s else s) in
      if decimal_point > 0
      then take (length s - unat decimal_point) s @ ''.'' @ drop (length s - unat decimal_point) s else s)"

definition print_money :: "u32 \<Rightarrow> u64 \<Rightarrow> u32 \<Rightarrow> string" where
  "print_money default_decimal_point amount decimal_point =
     insert_money_decimal_point default_decimal_point (to_string (unat amount)) decimal_point"

section \<open>Round amounts\<close>

text \<open>The calls of the two handlers, in order.\<close>

datatype piece = Chunk u64 | Dust u64

function decompose_loop :: "u64 \<Rightarrow> u64 \<Rightarrow> u64 \<Rightarrow> u64 \<Rightarrow> bool \<Rightarrow> piece list" where
  "decompose_loop dust_threshold amount order dust is_dust_handled =
     (if 0 \<noteq> amount then
        let chunk = (amount mod 10) * order; amount = amount div 10; order = order * 10 in
        if dust + chunk \<le> dust_threshold then decompose_loop dust_threshold amount order (dust + chunk) is_dust_handled
        else
          let handle = \<not> is_dust_handled \<and> 0 \<noteq> dust in
          (if handle then [Dust dust] else []) @ (if 0 \<noteq> chunk then [Chunk chunk] else []) @
          decompose_loop dust_threshold amount order dust (is_dust_handled \<or> handle)
      else if \<not> is_dust_handled \<and> 0 \<noteq> dust then [Dust dust] else [])"
  by pat_completeness auto
termination
  by (relation "measure (\<lambda>(t, amount, order, dust, h). unat amount)") (auto simp: unat_div unat_gt_0)

declare decompose_loop.simps [simp del]

definition decompose_amount_into_digits :: "u64 \<Rightarrow> u64 \<Rightarrow> piece list" where
  "decompose_amount_into_digits amount dust_threshold = (if 0 = amount then [] else decompose_loop dust_threshold amount 1 0 False)"

definition valid_decomposed_outputs :: "u64 list" where
  "valid_decomposed_outputs =
    [1, 2, 3, 4, 5, 6, 7, 8, 9,
     10, 20, 30, 40, 50, 60, 70, 80, 90,
     100, 200, 300, 400, 500, 600, 700, 800, 900,
     1000, 2000, 3000, 4000, 5000, 6000, 7000, 8000, 9000,
     10000, 20000, 30000, 40000, 50000, 60000, 70000, 80000, 90000,
     100000, 200000, 300000, 400000, 500000, 600000, 700000, 800000, 900000,
     1000000, 2000000, 3000000, 4000000, 5000000, 6000000, 7000000, 8000000, 9000000,
     10000000, 20000000, 30000000, 40000000, 50000000, 60000000, 70000000, 80000000, 90000000,
     100000000, 200000000, 300000000, 400000000, 500000000, 600000000, 700000000, 800000000, 900000000,
     1000000000, 2000000000, 3000000000, 4000000000, 5000000000, 6000000000, 7000000000, 8000000000, 9000000000,
     10000000000, 20000000000, 30000000000, 40000000000, 50000000000, 60000000000, 70000000000, 80000000000, 90000000000,
     100000000000, 200000000000, 300000000000, 400000000000, 500000000000, 600000000000, 700000000000, 800000000000, 900000000000,
     1000000000000, 2000000000000, 3000000000000, 4000000000000, 5000000000000, 6000000000000, 7000000000000, 8000000000000, 9000000000000,
     10000000000000, 20000000000000, 30000000000000, 40000000000000, 50000000000000, 60000000000000, 70000000000000, 80000000000000, 90000000000000,
     100000000000000, 200000000000000, 300000000000000, 400000000000000, 500000000000000, 600000000000000, 700000000000000, 800000000000000, 900000000000000,
     1000000000000000, 2000000000000000, 3000000000000000, 4000000000000000, 5000000000000000, 6000000000000000, 7000000000000000, 8000000000000000, 9000000000000000,
     10000000000000000, 20000000000000000, 30000000000000000, 40000000000000000, 50000000000000000, 60000000000000000, 70000000000000000, 80000000000000000, 90000000000000000,
     100000000000000000, 200000000000000000, 300000000000000000, 400000000000000000, 500000000000000000, 600000000000000000, 700000000000000000, 800000000000000000, 900000000000000000,
     1000000000000000000, 2000000000000000000, 3000000000000000000, 4000000000000000000, 5000000000000000000, 6000000000000000000, 7000000000000000000, 8000000000000000000, 9000000000000000000,
     10000000000000000000]"

text \<open>\<open>std::binary_search\<close> in a sorted table is membership.\<close>

definition is_valid_decomposed_amount :: "u64 \<Rightarrow> bool" where
  "is_valid_decomposed_amount amount \<longleftrightarrow> List.member valid_decomposed_outputs amount"

section \<open>Sums of a transaction\<close>

text \<open>
  The fields in the order of the structs: \<open>txin_to_script\<close> has \<open>prev\<close>, \<open>prevout\<close> and \<open>sigset\<close>,
  \<open>txin_to_scripthash\<close> also the \<open>script\<close> (keys and code), \<open>txin_to_key\<close> has \<open>amount\<close>, \<open>key_offsets\<close> and \<open>k_image\<close>.
\<close>

datatype txin_v =
    txin_gen u64
  | txin_to_script blob u64 blob
  | txin_to_scripthash blob u64 "blob list \<times> blob" blob
  | txin_to_key u64 "u64 list" blob

datatype txout_target_v =
    txout_to_script "blob list" blob
  | txout_to_scripthash blob
  | txout_to_key blob

record tx_out =
  out_amount :: u64
  out_target :: txout_target_v

text \<open>The part of a transaction that the sums read.\<close>

record tx_sums =
  tx_version :: u64
  vin :: "txin_v list"
  vout :: "tx_out list"
  txnFee :: u64

fun inputs_overflow_loop :: "txin_v list \<Rightarrow> u64 \<Rightarrow> bool" where
  "inputs_overflow_loop [] money = True"
| "inputs_overflow_loop (i # ins) money =
     (case i of
        txin_to_key a _ _ \<Rightarrow> if money > a + money then False else inputs_overflow_loop ins (money + a)
      | _ \<Rightarrow> False)"

definition check_inputs_overflow :: "tx_sums \<Rightarrow> bool" where
  "check_inputs_overflow tx = inputs_overflow_loop (vin tx) 0"

fun outs_overflow_loop :: "tx_out list \<Rightarrow> u64 \<Rightarrow> bool" where
  "outs_overflow_loop [] money = True"
| "outs_overflow_loop (o1 # outs) money =
     (if money > out_amount o1 + money then False else outs_overflow_loop outs (money + out_amount o1))"

definition check_outs_overflow :: "tx_sums \<Rightarrow> bool" where
  "check_outs_overflow tx = outs_overflow_loop (vout tx) 0"

definition check_money_overflow :: "tx_sums \<Rightarrow> bool" where
  "check_money_overflow tx \<longleftrightarrow> check_inputs_overflow tx \<and> check_outs_overflow tx"

definition get_outs_money_amount :: "tx_sums \<Rightarrow> u64" where
  "get_outs_money_amount tx = foldl (\<lambda>s o1. s + out_amount o1) 0 (vout tx)"

fun amount_in_loop :: "txin_v list \<Rightarrow> u64 \<Rightarrow> u64 option" where
  "amount_in_loop [] s = Some s"
| "amount_in_loop (i # ins) s = (case i of txin_to_key a _ _ \<Rightarrow> amount_in_loop ins (s + a) | _ \<Rightarrow> None)"

definition get_tx_fee :: "tx_sums \<Rightarrow> u64 option" where
  "get_tx_fee tx =
     (if tx_version tx > 1 then Some (txnFee tx)
      else case amount_in_loop (vin tx) 0 of
        None \<Rightarrow> None
      | Some amount_in \<Rightarrow>
          let amount_out = get_outs_money_amount tx in
          if \<not> amount_in \<ge> amount_out then None else Some (amount_in - amount_out))"

definition get_tx_fee_or_0 :: "tx_sums \<Rightarrow> u64" where
  "get_tx_fee_or_0 tx = (case get_tx_fee tx of None \<Rightarrow> 0 | Some r \<Rightarrow> r)"

section \<open>Sums without wrap-around\<close>

lemma no_wrap_sum: "\<not> money > (a :: u64) + money \<longleftrightarrow> unat money + unat a < 2 ^ 64"
  unfolding not_less add.commute [of a money] using no_olen_add_nat [of money a] by simp

lemma sum_no_wrap: "\<not> money > (a :: u64) + money \<Longrightarrow> unat (money + a) = unat money + unat a"
  using no_wrap_sum [of a money] by (intro unat_add_lem [THEN iffD1]) simp

fun key_amount :: "txin_v \<Rightarrow> u64 option" where
  "key_amount (txin_to_key a _ _) = Some a"
| "key_amount _ = None"

lemma inputs_overflow_loop_sum:
  "inputs_overflow_loop ins money \<longleftrightarrow>
     None \<notin> key_amount ` set ins \<and> unat money + sum_list (map (unat \<circ> the \<circ> key_amount) ins) < 2 ^ 64"
proof (induction ins arbitrary: money)
  case Nil
  show ?case
    using unsigned_less [of money, where 'a = nat] by simp
next
  case (Cons i ins)
  show ?case
  proof (cases "key_amount i")
    case None
    then show ?thesis
      by (cases i) auto
  next
    case (Some a)
    then obtain k m where i: "i = txin_to_key a k m"
      by (cases i) auto
    show ?thesis
    proof (cases "money > a + money")
      case True
      then have "\<not> unat money + unat a < 2 ^ 64"
        using no_wrap_sum by blast
      with True show ?thesis
        by (simp add: i)
    next
      case False
      then have "unat (money + a) = unat money + unat a"
        by (rule sum_no_wrap)
      with False Cons.IH [of "money + a"] show ?thesis
        by (simp add: i add.assoc)
    qed
  qed
qed

lemma outs_overflow_loop_sum:
  "outs_overflow_loop outs money \<longleftrightarrow> unat money + sum_list (map (unat \<circ> out_amount) outs) < 2 ^ 64"
proof (induction outs arbitrary: money)
  case Nil
  show ?case
    using unsigned_less [of money, where 'a = nat] by simp
next
  case (Cons o1 outs)
  show ?case
  proof (cases "money > out_amount o1 + money")
    case True
    then have "\<not> unat money + unat (out_amount o1) < 2 ^ 64"
      using no_wrap_sum by blast
    with True show ?thesis
      by simp
  next
    case False
    then have "unat (money + out_amount o1) = unat money + unat (out_amount o1)"
      by (rule sum_no_wrap)
    with False Cons.IH [of "money + out_amount o1"] show ?thesis
      by (simp add: add.assoc)
  qed
qed

lemma amount_in_loop_sum:
  assumes "None \<notin> key_amount ` set ins"
  shows "amount_in_loop ins s = Some (s + of_nat (sum_list (map (unat \<circ> the \<circ> key_amount) ins)))"
  using assms
proof (induction ins arbitrary: s)
  case (Cons i ins)
  then obtain a k m where "i = txin_to_key a k m"
    by (cases i) auto
  with Cons show ?case
    by (simp add: add.assoc)
qed simp

lemma outs_sum: "foldl (\<lambda>s o1. s + out_amount o1) s outs = s + of_nat (sum_list (map (unat \<circ> out_amount) outs))"
  by (induction outs arbitrary: s) (simp_all add: add.assoc)

section \<open>Decomposition\<close>

fun piece_amount :: "piece \<Rightarrow> u64" where
  "piece_amount (Chunk a) = a"
| "piece_amount (Dust a) = a"

lemma decompose_digit:
  fixes amount order dust :: u64
  assumes "amount \<noteq> 0" and "unat order = 10 ^ k" and "unat amount * 10 ^ k + unat dust < 2 ^ 64"
  shows "unat amount * 10 ^ k = unat (amount div 10) * 10 ^ Suc k + unat ((amount mod 10) * order)"
    and "unat ((amount mod 10) * order) = unat (amount mod 10) * 10 ^ k"
    and "unat ((amount mod 10) * order) < 10 ^ Suc k"
    and "unat (dust + (amount mod 10) * order) = unat dust + unat ((amount mod 10) * order)"
    and "amount div 10 \<noteq> 0 \<Longrightarrow> unat (order * 10) = 10 ^ Suc k"
proof -
  have total: "unat amount * 10 ^ k = unat (amount div 10) * 10 ^ Suc k + unat (amount mod 10) * 10 ^ k"
  proof -
    have "unat (amount div 10) = unat amount div 10" "unat (amount mod 10) = unat amount mod 10"
      by (simp_all add: unat_div unat_mod)
    then have "unat amount = 10 * unat (amount div 10) + unat (amount mod 10)"
      by simp
    then have "unat amount * 10 ^ k = (10 * unat (amount div 10) + unat (amount mod 10)) * 10 ^ k"
      by (rule arg_cong)
    then show ?thesis
      by (simp only: add_mult_distrib add_mult_distrib2 power_Suc mult_ac)
  qed
  then have "unat (amount mod 10) * unat order < 2 ^ 64"
    using assms(3) unfolding assms(2) by linarith
  then show chunk: "unat ((amount mod 10) * order) = unat (amount mod 10) * 10 ^ k"
    using assms(2) unat_mult_lem [of "amount mod 10" order] by simp
  with total show sum: "unat amount * 10 ^ k = unat (amount div 10) * 10 ^ Suc k + unat ((amount mod 10) * order)"
    by simp
  have "unat (amount mod 10) < 10"
    by (simp add: unat_mod)
  then show "unat ((amount mod 10) * order) < 10 ^ Suc k"
    by (simp add: chunk)
  have "unat dust + unat ((amount mod 10) * order) < 2 ^ 64"
    using sum assms(3) by linarith
  then show "unat (dust + (amount mod 10) * order) = unat dust + unat ((amount mod 10) * order)"
    using unat_add_lem [of dust "(amount mod 10) * order"] by simp
  assume "amount div 10 \<noteq> 0"
  then have "1 * 10 ^ Suc k \<le> unat (amount div 10) * 10 ^ Suc k"
    by (intro mult_le_mono1) (simp add: Suc_le_eq unat_gt_0)
  then have "10 ^ Suc k < (2 :: nat) ^ 64"
    using sum assms(3) by linarith
  then show "unat (order * 10) = 10 ^ Suc k"
    using assms(2) by (simp add: unat_word_ariths)
qed

lemma decompose_sum:
  assumes "amount \<noteq> 0 \<Longrightarrow> unat order = 10 ^ k" and "unat amount * 10 ^ k + unat dust < 2 ^ 64"
    and "handled \<Longrightarrow> unat t < unat dust + 10 ^ k"
  shows "sum_list (map (unat \<circ> piece_amount) (decompose_loop t amount order dust handled)) =
    unat amount * 10 ^ k + (if handled then 0 else unat dust)"
  using assms
proof (induction "unat amount" arbitrary: amount order dust handled k rule: less_induct)
  case less
  show ?case
  proof (cases "amount = 0")
    case True
    then show ?thesis
      by (simp add: decompose_loop.simps)
  next
    case False
    define chunk rest where "chunk = (amount mod 10) * order" and "rest = amount div 10"
    note digit = decompose_digit [OF False less.prems(1) [OF False] less.prems(2), folded chunk_def rest_def]
    have rest: "unat rest < unat amount"
      using False by (simp add: rest_def unat_div unat_gt_0)
    note IH = less.hyps [OF rest, of "order * 10" "Suc k", OF digit(5)]
    show ?thesis
    proof (cases "dust + chunk \<le> t")
      case True
      have zero: "unat chunk = 0" if handled
      proof -
        have "unat (amount mod 10) * 10 ^ k < 1 * 10 ^ k"
          using True digit(2,4) less.prems(3) [OF that] unfolding word_le_nat_alt by linarith
        then have "unat (amount mod 10) = 0"
          by (simp only: mult_less_cancel2) simp
        then show ?thesis
          by (simp add: digit(2))
      qed
      have "decompose_loop t amount order dust handled = decompose_loop t rest (order * 10) (dust + chunk) handled"
        using False True by (subst decompose_loop.simps) (simp add: Let_def chunk_def rest_def)
      moreover have "unat rest * 10 ^ Suc k + unat (dust + chunk) < 2 ^ 64"
        using less.prems(2) digit(1,4) by linarith
      moreover have "unat t < unat (dust + chunk) + 10 ^ Suc k" if handled
        using less.prems(3) [OF that] zero [OF that] digit(4) by simp
      ultimately show ?thesis
        using IH [of "dust + chunk" handled] zero digit(1,4) by auto
    next
      case big: False
      define handle where "handle = (\<not> handled \<and> dust \<noteq> 0)"
      have "decompose_loop t amount order dust handled =
          (if handle then [Dust dust] else []) @ (if chunk \<noteq> 0 then [Chunk chunk] else []) @
          decompose_loop t rest (order * 10) dust (handled \<or> handle)"
        using False big by (subst decompose_loop.simps) (auto simp: Let_def chunk_def rest_def handle_def)
      moreover have "unat rest * 10 ^ Suc k + unat dust < 2 ^ 64"
        using less.prems(2) digit(1) by linarith
      moreover have "unat t < unat dust + 10 ^ Suc k"
        using big digit(3,4) by (simp add: word_le_nat_alt)
      ultimately show ?thesis
        using IH [of dust "handled \<or> handle"] digit(1) by (auto simp: handle_def)
    qed
  qed
qed

fun chunks :: "piece list \<Rightarrow> u64 list" where
  "chunks [] = []"
| "chunks (Chunk c # ps) = c # chunks ps"
| "chunks (Dust c # ps) = chunks ps"

fun dusts :: "piece list \<Rightarrow> u64 list" where
  "dusts [] = []"
| "dusts (Chunk c # ps) = dusts ps"
| "dusts (Dust c # ps) = c # dusts ps"

lemma chunks_dusts_append [simp]: "chunks (ps @ qs) = chunks ps @ chunks qs" "dusts (ps @ qs) = dusts ps @ dusts qs"
  by (induction ps rule: chunks.induct) auto

lemma valid_decomposed_outputs_digits:
  "valid_decomposed_outputs = concat (map (\<lambda>k. map (\<lambda>d. of_nat (d * 10 ^ k)) [1..<10]) [0..<19]) @ [of_nat (10 ^ 19)]"
  by (simp add: valid_decomposed_outputs_def upt_rec)

lemma valid_round_amount:
  assumes "0 < d" and "d < 10" and "d * 10 ^ k < 2 ^ 64"
  shows "is_valid_decomposed_amount (of_nat (d * 10 ^ k))"
proof (cases "k < 19")
  case True
  have "of_nat (d * 10 ^ k) \<in> set (map (\<lambda>d. of_nat (d * 10 ^ k)) [1..<10])"
    using assms(1,2) unfolding set_map set_upt by (intro imageI) simp
  with True show ?thesis
    unfolding is_valid_decomposed_amount_def valid_decomposed_outputs_digits List.member_iff set_append set_concat set_map set_upt
    by auto
next
  case False
  have "k < 20"
  proof (rule ccontr)
    assume "\<not> k < 20"
    then have "(10 :: nat) ^ 20 \<le> 1 * 10 ^ k"
      by (simp add: power_increasing del: power_numeral)
    also have "\<dots> \<le> d * 10 ^ k"
      using assms(1) by (intro mult_le_mono1) simp
    finally show False
      using assms(3) by simp
  qed
  with False have "k = 19"
    by simp
  moreover from this assms have "d = 1"
    by simp
  ultimately show ?thesis
    by (simp add: is_valid_decomposed_amount_def valid_decomposed_outputs_digits List.member_iff)
qed

lemma decompose_pieces:
  assumes "amount \<noteq> 0 \<Longrightarrow> unat order = 10 ^ k" and "unat amount * 10 ^ k + unat dust < 2 ^ 64" and "dust \<le> t"
  shows "list_all is_valid_decomposed_amount (chunks (decompose_loop t amount order dust handled)) \<and>
    list_all (\<lambda>d. d \<le> t) (dusts (decompose_loop t amount order dust handled)) \<and>
    length (dusts (decompose_loop t amount order dust handled)) \<le> (if handled then 0 else 1)"
  using assms
proof (induction "unat amount" arbitrary: amount order dust handled k rule: less_induct)
  case less
  show ?case
  proof (cases "amount = 0")
    case True
    with less.prems(3) show ?thesis
      by (simp add: decompose_loop.simps)
  next
    case False
    define chunk rest where "chunk = (amount mod 10) * order" and "rest = amount div 10"
    note digit = decompose_digit [OF False less.prems(1) [OF False] less.prems(2), folded chunk_def rest_def]
    have rest: "unat rest < unat amount"
      using False by (simp add: rest_def unat_div unat_gt_0)
    note IH = less.hyps [OF rest, of "order * 10" "Suc k", OF digit(5)]
    show ?thesis
    proof (cases "dust + chunk \<le> t")
      case True
      have "decompose_loop t amount order dust handled = decompose_loop t rest (order * 10) (dust + chunk) handled"
        using False True by (subst decompose_loop.simps) (simp add: Let_def chunk_def rest_def)
      moreover have "unat rest * 10 ^ Suc k + unat (dust + chunk) < 2 ^ 64"
        using less.prems(2) digit(1,4) by linarith
      ultimately show ?thesis
        using IH [of "dust + chunk" handled] True by simp
    next
      case big: False
      define handle where "handle = (\<not> handled \<and> dust \<noteq> 0)"
      have "decompose_loop t amount order dust handled =
          (if handle then [Dust dust] else []) @ (if chunk \<noteq> 0 then [Chunk chunk] else []) @
          decompose_loop t rest (order * 10) dust (handled \<or> handle)"
        using False big by (subst decompose_loop.simps) (auto simp: Let_def chunk_def rest_def handle_def)
      moreover have "unat rest * 10 ^ Suc k + unat dust < 2 ^ 64" "unat chunk < 2 ^ 64"
        using less.prems(2) digit(1) by linarith+
      moreover have "is_valid_decomposed_amount chunk" if "chunk \<noteq> 0"
      proof -
        have "amount mod 10 \<noteq> 0"
          using that unfolding chunk_def by (metis mult_zero_left)
        then have "0 < unat (amount mod 10)"
          by (subst unat_gt_0)
        moreover have "unat (amount mod 10) < 10"
          by (simp add: unat_mod)
        ultimately show ?thesis
          using valid_round_amount [of "unat (amount mod 10)" k] \<open>unat chunk < 2 ^ 64\<close>
          unfolding digit(2) [symmetric] by simp
      qed
      ultimately show ?thesis
        using IH [of dust "handled \<or> handle"] less.prems(3) by (auto simp: handle_def split: if_splits)
    qed
  qed
qed

section \<open>The reward\<close>

text \<open>
  What the reward relies on of \<open>uint256_t\<close>: products that fit 256 bits, quotients, and
  the conversion of numbers that fit 64 bits are exact.
\<close>

definition exact256 :: "u256_ops \<Rightarrow> bool" where
  "exact256 ops \<longleftrightarrow>
     (\<forall>x y. unat x * unat y < 2 ^ 256 \<longrightarrow> unat (times256 ops x y) = unat x * unat y) \<and>
     (\<forall>x y. y \<noteq> 0 \<longrightarrow> unat (divide256 ops x y) = unat x div unat y) \<and>
     (\<forall>x. unat x < 2 ^ 64 \<longrightarrow> unat (convert256 ops x) = unat x)"

text \<open>Configurations whose rewards fit 64 bits and never vanish.\<close>

definition config_ok :: "cn_config \<Rightarrow> bool" where
  "config_ok cfg \<longleftrightarrow>
     unat (EMISSION_SUBSIDY_PER_MINUTE cfg) * unat (DURATION_TARGET cfg) * unat (COIN cfg) < 60 * 2 ^ 64 \<and>
     unat (FINAL_SUBSIDY_PER_MINUTE cfg) * unat (DURATION_TARGET cfg) < 2 ^ 64 \<and>
     60 \<le> unat (FINAL_SUBSIDY_PER_MINUTE cfg) * unat (DURATION_TARGET cfg)"

text \<open>The emission that remains, scaled, and at least the final subsidy.\<close>

definition emission :: "cn_config \<Rightarrow> nat \<Rightarrow> nat" where
  "emission cfg already_generated_coins =
     max ((2 ^ 64 - 1 - already_generated_coins) * (unat (EMISSION_SUBSIDY_PER_MINUTE cfg) * unat (DURATION_TARGET cfg) * unat (COIN cfg))
            div (2 ^ 64 - 1) div 60)
         (unat (FINAL_SUBSIDY_PER_MINUTE cfg) * unat (DURATION_TARGET cfg) div 60)"

lemma unat_ucast_u256: "unat (ucast (x :: u64) :: u256) = unat x"
  by (rule unat_ucast_wider) simp

lemma base_reward_value:
  assumes "exact256 ops" and "config_ok cfg"
  shows "unat (base_reward ops cfg c) = emission cfg (unat c)"
proof -
  define s e d o1 where "s = unat (MONEY_SUPPLY - c)" and "e = unat (EMISSION_SUBSIDY_PER_MINUTE cfg)"
    and "d = unat (DURATION_TARGET cfg)" and "o1 = unat (COIN cfg)"
  have less: "s < 2 ^ 64" "e < 2 ^ 64" "d < 2 ^ 64" "o1 < 2 ^ 64"
    unfolding s_def e_def d_def o1_def by (rule unat_u64_less)+
  have bounds: "s * e < 2 ^ 128" "s * e * d < 2 ^ 192" "s * e * d * o1 < 2 ^ 256"
    using mult_strict_mono [OF less(1,2)] mult_strict_mono [of "s * e" "2 ^ 128" d "2 ^ 64"]
      mult_strict_mono [of "s * e * d" "2 ^ 192" o1 "2 ^ 64"] less by simp_all
  have money: "unat MONEY_SUPPLY = 2 ^ 64 - 1"
    by (simp add: MONEY_SUPPLY_def unsigned_minus_1_eq_mask mask_eq_exp_minus_1)
  have "c \<le> MONEY_SUPPLY"
    by (simp add: MONEY_SUPPLY_def)
  then have s: "s = 2 ^ 64 - 1 - unat c"
    unfolding s_def by (simp add: unat_sub money)
  define x q where "x = s * e * d * o1 div (2 ^ 64 - 1)" and "q = x div 60"
  have "s * (e * d * o1) \<le> (2 ^ 64 - 1) * (e * d * o1)"
    using less(1) by (intro mult_le_mono1) simp
  then have "x \<le> e * d * o1"
    using div_le_mono [of "s * (e * d * o1)" "(2 ^ 64 - 1) * (e * d * o1)" "2 ^ 64 - 1"] by (simp add: x_def mult.assoc)
  then have "x < 2 ^ 64 * 60"
    using assms(2) by (simp add: config_ok_def flip: e_def d_def o1_def)
  then have q: "q < 2 ^ 64"
    unfolding q_def by (rule less_mult_imp_div_less)
  let ?a = "times256 ops (times256 ops (times256 ops (ucast (MONEY_SUPPLY - c)) (ucast (EMISSION_SUBSIDY_PER_MINUTE cfg)))
    (ucast (DURATION_TARGET cfg))) (ucast (COIN cfg))"
  have "unat ?a = s * e * d * o1"
    using assms(1) bounds less by (simp add: exact256_def unat_ucast_u256 flip: s_def e_def d_def o1_def)
  moreover have "(ucast MONEY_SUPPLY :: u256) \<noteq> 0"
  proof
    assume "(ucast MONEY_SUPPLY :: u256) = 0"
    then have "unat (ucast MONEY_SUPPLY :: u256) = 0"
      by simp
    then show False
      unfolding unat_ucast_u256 money by simp
  qed
  ultimately have "unat (divide256 ops ?a (ucast MONEY_SUPPLY)) = x"
    using assms(1) by (simp add: exact256_def unat_ucast_u256 money x_def)
  then have "unat (divide256 ops (divide256 ops ?a (ucast MONEY_SUPPLY)) 60) = q"
    using assms(1) by (simp add: exact256_def q_def)
  then have first: "unat (convert256 ops (divide256 ops (divide256 ops ?a (ucast MONEY_SUPPLY)) 60)) = q"
    using assms(1) q by (simp add: exact256_def)
  have last: "unat (FINAL_SUBSIDY_PER_MINUTE cfg * DURATION_TARGET cfg div 60) =
      unat (FINAL_SUBSIDY_PER_MINUTE cfg) * unat (DURATION_TARGET cfg) div 60"
    using assms(2) by (simp add: config_ok_def unat_div unat_word_ariths)
  show ?thesis
    using first last
    by (simp add: base_reward_def Let_def emission_def q_def x_def word_less_nat_alt max_def mult.assoc s flip: e_def d_def o1_def)
qed

lemma penalty_fits:
  fixes m w :: u64
  assumes "unat m < 2 ^ 32" and "m < w" and "unat w \<le> 2 * unat m"
  shows "unat (2 * m) = 2 * unat m" "unat ((2 * m - w) * w) = (2 * unat m - unat w) * unat w"
    "(2 * unat m - unat w) * unat w < unat m * unat m"
proof -
  show double: "unat (2 * m) = 2 * unat m"
    using assms(1) by (simp add: unat_word_ariths)
  then have diff: "unat (2 * m - w) = 2 * unat m - unat w"
    using assms(3) by (simp add: unat_sub word_le_nat_alt)
  obtain k where k: "unat w = unat m + k" "0 < k"
    using assms(2) by (metis less_imp_add_positive word_less_nat_alt)
  then have k': "k \<le> unat m"
    using assms(3) by simp
  have "(2 * unat m - unat w) * unat w = unat m * unat m - k * k"
    using k k' by (simp add: algebra_simps diff_mult_distrib)
  also have "\<dots> < unat m * unat m"
    using k(2) k' by (intro diff_less) simp_all
  finally show less: "(2 * unat m - unat w) * unat w < unat m * unat m" .
  have "unat m * unat m < 2 ^ 32 * 2 ^ 32"
    using assms(1) by (intro mult_strict_mono) simp_all
  then have "unat (2 * m - w) * unat w < 2 ^ 64"
    using less by (simp add: diff)
  then show "unat ((2 * m - w) * w) = (2 * unat m - unat w) * unat w"
    using unat_mult_lem [of "2 * m - w" w] by (simp add: diff)
qed

lemma scaled_twice:
  assumes "divides_with_remainder divide_qr" and "m \<noteq> 0" and "unat b * unat k < unat b * (unat m * unat m)"
    and "mul128 b k = (hi, lo)" and "div128_64 divide_qr hi lo m = ((hi1, lo1), r1)"
    and "div128_64 divide_qr hi1 lo1 m = ((hi2, lo2), r2)"
  shows "hi2 = 0" "unat lo2 = unat b * unat k div (unat m * unat m)" "lo2 < b"
proof -
  obtain r1h r1l r2h r2l where r: "r1 = (r1h, r1l)" "r2 = (r2h, r2l)"
    by fastforce
  have "unat hi2 * 2 ^ 64 + unat lo2 = unat b * unat k div unat m div unat m"
    using mul128_value [OF assms(4)] div128_64_value(1) [OF assms(5) [unfolded r] assms(1,2)]
      div128_64_value(1) [OF assms(6) [unfolded r] assms(1,2)] by simp
  then have eq: "unat hi2 * 2 ^ 64 + unat lo2 = unat b * unat k div (unat m * unat m)"
    by (simp add: div_mult2_eq)
  moreover have less: "unat b * unat k div (unat m * unat m) < unat b"
    using assms(3) by (intro less_mult_imp_div_less) (simp add: mult.commute)
  ultimately have small: "unat hi2 * 2 ^ 64 + unat lo2 < 2 ^ 64"
    using unat_u64_less [of b] by linarith
  have "unat hi2 = 0"
  proof (rule ccontr)
    assume "unat hi2 \<noteq> 0"
    then have "1 * 2 ^ 64 \<le> unat hi2 * 2 ^ 64"
      by (intro mult_le_mono1) simp
    with small show False
      by linarith
  qed
  then show "hi2 = 0" "unat lo2 = unat b * unat k div (unat m * unat m)" "lo2 < b"
    using eq less by (simp_all add: unat_eq_0 word_less_nat_alt)
qed

lemma get_block_reward_value:
  fixes median w c :: u64 and version :: byte
  assumes "exact256 ops" and "divides_with_remainder divide_qr" and "config_ok cfg"
    and "height = 0 \<or> height > START_AMOUNT_BLOCKS cfg" and "unat median < 2 ^ 32"
  defines "m \<equiv> max (unat median) (unat (get_min_block_weight version))" and "b \<equiv> emission cfg (unat c)"
  shows "\<exists>r. get_block_reward ops divide_qr cfg height median w c version = Inr r \<and>
    map_option unat r =
      (if unat w \<le> m then Some b else if unat w > 2 * m then None else Some (b * ((2 * m - unat w) * unat w) div (m * m)))"
proof -
  define med where "med = (if median < get_min_block_weight version then get_min_block_weight version else median)"
  have med: "unat med = m" "unat med < 2 ^ 32" "med \<noteq> 0"
    using assms(5) by (auto simp: med_def m_def word_less_nat_alt get_min_block_weight_def)
  define base where "base = base_reward ops cfg c"
  have base: "unat base = b"
    using base_reward_value [OF assms(1,3)] by (simp add: base_def b_def)
  have "0 < b"
    using assms(3) unfolding b_def emission_def config_ok_def
    by (intro less_le_trans [OF _ max.cobounded2]) (simp add: div_greater_zero_iff)
  have later: "\<not> (height > 0 \<and> height \<le> START_AMOUNT_BLOCKS cfg)"
    using assms(4) by auto
  have body: "get_block_reward ops divide_qr cfg height median w c version =
      (if w \<le> med then Inr (Some base) else if w > 2 * med then Inr None
       else case mul128 base ((2 * med - w) * w) of (hi, lo) \<Rightarrow>
         case div128_64 divide_qr hi lo med of ((hi, lo), _) \<Rightarrow> case div128_64 divide_qr hi lo med of ((hi, lo), _) \<Rightarrow>
           if 0 \<noteq> hi then Inl Assertion_failed else if \<not> lo < base then Inl Assertion_failed else Inr (Some lo))"
    using later unfolding get_block_reward_def Let_def med_def [symmetric] base_def [symmetric]
    by (simp only: if_False case_prod_beta)
  have double: "unat (2 * med) = 2 * unat med"
    using med(2) by (simp add: unat_word_ariths)
  consider "w \<le> med" | "w > 2 * med" "med < w" | "\<not> w > 2 * med" "med < w"
    by force
  then show ?thesis
  proof cases
    case 1
    then show ?thesis
      using base med(1) by (simp add: body word_le_nat_alt)
  next
    case 2
    then show ?thesis
      using double med(1) by (simp add: body word_le_nat_alt word_less_nat_alt)
  next
    case 3
    then have "unat w \<le> 2 * unat med"
      using double by (simp add: not_less word_le_nat_alt)
    note fits = penalty_fits [OF med(2) 3(2) this]
    obtain hi lo hi1 lo1 r1 hi2 lo2 r2 where d: "mul128 base ((2 * med - w) * w) = (hi, lo)"
        "div128_64 divide_qr hi lo med = ((hi1, lo1), r1)" "div128_64 divide_qr hi1 lo1 med = ((hi2, lo2), r2)"
      by (metis surj_pair)
    have "unat base * unat ((2 * med - w) * w) < unat base * (unat med * unat med)"
      using fits(2,3) \<open>0 < b\<close> base by simp
    note scaled = scaled_twice [OF assms(2) med(3) this d]
    have "get_block_reward ops divide_qr cfg height median w c version = Inr (Some lo2)"
      using 3(1) not_le [THEN iffD2, OF 3(2)] scaled d by (simp add: body)
    then show ?thesis
      using 3 scaled(2) fits(2) med(1) base double by (simp add: word_less_nat_alt)
  qed
qed

section \<open>Texts of amounts\<close>

definition digits_value :: "string \<Rightarrow> nat" where
  "digits_value s = foldl (\<lambda>v c. 10 * v + (of_char c - 48)) 0 s"

text \<open>
  What is documented of the two functions of boost: \<open>trim\<close> keeps a text without white space, and
  \<open>lexical_cast\<close> reads the decimal numbers that fit 64 bits.
\<close>

definition keeps_unspaced :: "(string \<Rightarrow> string) \<Rightarrow> bool" where
  "keeps_unspaced trim \<longleftrightarrow> (\<forall>s. list_all (\<lambda>c. of_char c \<notin> {9, 10, 11, 12, 13, 32 :: nat}) s \<longrightarrow> trim s = s)"

definition reads_decimals :: "(string \<Rightarrow> u64 option) \<Rightarrow> bool" where
  "reads_decimals lexical_cast \<longleftrightarrow>
     (\<forall>s. s \<noteq> [] \<longrightarrow> list_all isdigit s \<longrightarrow> digits_value s < 2 ^ 64 \<longrightarrow> lexical_cast s = Some (of_nat (digits_value s)))"

lemma digits_value_snoc: "digits_value (s @ [c]) = 10 * digits_value s + (of_char c - 48)"
  by (simp add: digits_value_def)

lemma digits_value_zeros: "digits_value (replicate k CHR ''0'' @ s) = digits_value s"
proof -
  have "foldl (\<lambda>v c. 10 * v + (of_char c - 48)) 0 (replicate k CHR ''0'') = (0 :: nat)"
    by (induction k) (simp_all add: of_char_Char)
  then show ?thesis
    by (simp add: digits_value_def)
qed

lemma digit_chars:
  fixes d :: nat
  assumes "d < 10"
  shows "isdigit (char_of (48 + d))" "char_of (48 + d) \<noteq> CHR ''.''" "of_char (char_of (48 + d) :: char) = 48 + d"
proof -
  have "list_all (\<lambda>d. isdigit (char_of (48 + d :: nat)) \<and> char_of (48 + d :: nat) \<noteq> CHR ''.'') [0..<10]"
    by code_simp
  with assms show "isdigit (char_of (48 + d))" "char_of (48 + d) \<noteq> CHR ''.''"
    by (simp_all add: list_all_iff)
  show "of_char (char_of (48 + d) :: char) = 48 + d"
    using assms by (simp add: of_char_of)
qed

definition digit_string :: "string \<Rightarrow> bool" where
  "digit_string s \<longleftrightarrow> list_all (\<lambda>c. \<exists>d < 10. c = char_of (48 + d :: nat)) s"

lemma to_string_digits: "digit_string (to_string n) \<and> digits_value (to_string n) = n \<and> to_string n \<noteq> []"
proof (induction n rule: to_string.induct)
  case (1 n)
  show ?case
  proof (cases "n < 10")
    case True
    then show ?thesis
      by (subst (1 2 3) to_string.simps) (auto simp: digit_string_def digits_value_def digit_chars(3))
  next
    case False
    then show ?thesis
      using 1 by (subst (1 2 3) to_string.simps)
        (auto simp: digit_string_def digits_value_snoc digit_chars(3) intro!: exI [of _ "n mod 10"])
  qed
qed

lemma digit_string_plain:
  assumes "digit_string s"
  shows "list_all isdigit s" "list_all (\<lambda>c. c \<noteq> CHR ''.'') s" "list_all (\<lambda>c. of_char c \<notin> {9, 10, 11, 12, 13, 32 :: nat}) s"
  using assms unfolding digit_string_def by (auto elim!: list.pred_mono_strong simp: digit_chars dest: digit_chars(2))

lemma find_point:
  assumes "digit_string s"
  shows "find_first_of s CHR ''.'' = None" "find_first_of (s @ CHR ''.'' # r) CHR ''.'' = Some (length s)"
  using digit_string_plain(2) [OF assms] by (auto simp: find_first_of_def list_all_iff takeWhile_append2)

lemma digit_string_append: "digit_string (s @ r) \<longleftrightarrow> digit_string s \<and> digit_string r"
  by (simp add: digit_string_def)

lemma digit_string_zeros: "digit_string (replicate k CHR ''0'')"
proof -
  have "CHR ''0'' = char_of (48 + 0 :: nat)"
    by code_simp
  then show ?thesis
    unfolding digit_string_def list_all_iff by (auto intro!: exI [of _ 0])
qed

lemma drop_zeros_short: "fraction_size \<le> decimals \<Longrightarrow> drop_zeros decimals s fraction_size = (s, fraction_size)"
  by (cases fraction_size) auto

text \<open>A digit string with a point before its last \<open>d\<close> digits is read as the number of its digits.\<close>

lemma parse_amount_digits:
  assumes "keeps_unspaced trim" and "reads_decimals lexical_cast" and "digit_string s" and "s \<noteq> []"
    and "digits_value s < 2 ^ 64" and "unat d < length s"
  shows "parse_amount trim lexical_cast d
    (if unat d > 0 then take (length s - unat d) s @ ''.'' @ drop (length s - unat d) s else s) = Some (of_nat (digits_value s))"
proof -
  define shown where "shown = (if unat d > 0 then take (length s - unat d) s @ ''.'' @ drop (length s - unat d) s else s)"
  have parts: "digit_string (take n s)" "digit_string (drop n s)" for n
    using assms(3) digit_string_append [of "take n s" "drop n s"] by simp_all
  have "list_all (\<lambda>c. of_char c \<notin> {9, 10, 11, 12, 13, 32 :: nat}) shown"
    using digit_string_plain(3) [OF assms(3)] digit_string_plain(3) [OF parts(1)] digit_string_plain(3) [OF parts(2)]
    by (auto simp: shown_def of_char_Char)
  then have trim: "trim shown = shown"
    using assms(1) by (simp add: keeps_unspaced_def)
  have read: "get_xtype_from_string lexical_cast s = Some (of_nat (digits_value s))"
    using assms(2,4,5) digit_string_plain(1) [OF assms(3)] by (simp add: reads_decimals_def get_xtype_from_string_def)
  have "parse_amount trim lexical_cast d shown = Some (of_nat (digits_value s))"
  proof (cases "unat d > 0")
    case True
    then have "find_first_of shown CHR ''.'' = Some (length s - unat d)"
      using find_point(2) [OF parts(1), of "length s - unat d" "drop (length s - unat d) s"] by (simp add: shown_def)
    moreover have "length shown - (length s - unat d) - 1 = unat d"
        "take (length s - unat d) shown @ drop (length s - unat d + 1) shown = s"
      using True assms(6) by (simp_all add: shown_def)
    ultimately show ?thesis
      using read assms(4) by (simp add: parse_amount_def Let_def trim drop_zeros_short)
  next
    case False
    then have "shown = s" "unat d = 0"
      by (simp_all add: shown_def)
    then show ?thesis
      using read assms(4) find_point(1) [OF assms(3)] trim by (simp add: parse_amount_def)
  qed
  then show ?thesis
    by (simp add: shown_def)
qed

section \<open>Properties\<close>

text \<open>
  C14. After the start blocks the reward is exact and wraps nowhere, for configurations whose rewards fit 64 bits
  and do not vanish (\<open>config_ok\<close>) and for medians below \<open>2 ^ 32\<close> bytes: the base reward
  up to the median weight, none beyond twice the median, and in between the base
  reward with the quadratic penalty \<open>b (2 m - w) w / m\<^sup>2\<close>. The two assertions never fail;
  this includes weights above \<open>2 ^ 32\<close> bytes, where \<open>tests/unit_tests/block_reward.cpp\<close> still expects an assertion on
  the sizes to fail.
\<close>

theorem block_reward_penalty:
  assumes "exact256 ops" and "divides_with_remainder divide_qr" and "config_ok cfg"
    and "height = 0 \<or> height > START_AMOUNT_BLOCKS cfg" and "unat median < 2 ^ 32"
    and "m = max (unat median) (unat (get_min_block_weight version))" and "b = emission cfg (unat c)"
  shows "\<exists>r. get_block_reward ops divide_qr cfg height median w c version = Inr r \<and>
    map_option unat r =
      (if unat w \<le> m then Some b else if unat w > 2 * m then None else Some (b * ((2 * m - unat w) * unat w) div (m * m)))"
  unfolding assms(6,7) by (rule get_block_reward_value [OF assms(1-5)])

definition word_ops :: u256_ops where
  "word_ops = \<lparr>times256 = (*), divide256 = (div), convert256 = ucast\<rparr>"

lemma word_ops_exact: "exact256 word_ops"
proof -
  have "unat (ucast (x :: u256) :: u64) = unat x" if "unat x < 2 ^ 64" for x
    using that by (simp add: unsigned_ucast_eq take_bit_nat_eq_self)
  then show ?thesis
    by (auto simp: exact256_def word_ops_def unat_word_ariths(2) unat_div)
qed

theorem block_reward_penalty_witness:
  "\<exists>r. get_block_reward word_ops (\<lambda>x y. (x div y, x mod y)) default_config 101 0 30000 0 1 = Inr r \<and>
     map_option unat r = Some (40000000000000 * ((2 * 20000 - 30000) * 30000) div (20000 * 20000))"
proof -
  have "divides_with_remainder (\<lambda>x y. (x div y, x mod y))" "config_ok default_config"
    by (simp_all add: divides_with_remainder_def config_ok_def default_config_def COIN_DEFAULT_def)
  from block_reward_penalty [OF word_ops_exact this, of 101 0 "20000" 1 40000000000000 0 30000] show ?thesis
    by (simp add: default_config_def get_min_block_weight_def emission_def COIN_DEFAULT_def)
qed

text \<open>
  C23. An amount printed by \<open>print_money\<close> is read back by \<open>parse_amount\<close>, whatever the number of
  decimals set as default.
\<close>

theorem print_parse_money:
  assumes "keeps_unspaced trim" and "reads_decimals lexical_cast" and "default_decimal_point \<noteq> - 1"
  shows "parse_amount trim lexical_cast default_decimal_point (print_money default_decimal_point amount (- 1)) = Some amount"
proof -
  define d where "d = unat default_decimal_point"
  define s where "s = replicate (d + 1 - length (to_string (unat amount))) CHR ''0'' @ to_string (unat amount)"
  note str = to_string_digits [of "unat amount"]
  have s: "digit_string s" "s \<noteq> []" "digits_value s = unat amount" "d < length s"
    using str by (auto simp: s_def digit_string_append digit_string_zeros digits_value_zeros)
  have "unat (default_decimal_point + 1) = d + 1"
    using assms(3) unatSuc [of default_decimal_point] by (simp add: d_def add.commute [of 1] eq_neg_iff_add_eq_0)
  moreover have "0 < d \<longleftrightarrow> default_decimal_point \<noteq> 0"
    by (simp add: d_def unat_gt_0)
  ultimately have "print_money default_decimal_point amount (- 1) =
      (if unat default_decimal_point > 0 then take (length s - unat default_decimal_point) s @ ''.'' @ drop (length s - unat default_decimal_point) s else s)"
    by (auto simp: print_money_def insert_money_decimal_point_def Let_def s_def word_gt_0 simp flip: d_def)
  with parse_amount_digits [OF assms(1,2) s(1,2), of default_decimal_point] s(3,4) unat_u64_less [of amount] show ?thesis
    by (simp only: d_def) simp
qed

theorem print_parse_money_witness:
  "parse_amount (\<lambda>s. s) (\<lambda>s. Some (of_nat (digits_value s))) 12 (print_money 12 1500000000000 (- 1)) = Some 1500000000000"
proof -
  have "keeps_unspaced (\<lambda>s. s)" "reads_decimals (\<lambda>s. Some (of_nat (digits_value s)))"
    by (simp_all add: keeps_unspaced_def reads_decimals_def)
  then show ?thesis
    by (rule print_parse_money) simp
qed

text \<open>
  C25. \<open>decompose_amount_into_digits\<close> loses and invents nothing: its pieces add up to the amount without
  wrap-around, every chunk is a valid decomposed amount, and there is at most one dust, within the threshold.
\<close>

theorem decompose_amount_exact:
  "sum_list (map (unat \<circ> piece_amount) (decompose_amount_into_digits amount threshold)) = unat amount \<and>
   list_all is_valid_decomposed_amount (chunks (decompose_amount_into_digits amount threshold)) \<and>
   list_all (\<lambda>d. d \<le> threshold) (dusts (decompose_amount_into_digits amount threshold)) \<and>
   length (dusts (decompose_amount_into_digits amount threshold)) \<le> 1"
proof (cases "amount = 0")
  case False
  have less: "unat amount * 10 ^ 0 + unat (0 :: u64) < 2 ^ 64"
    using unat_u64_less [of amount] by simp
  show ?thesis
    using False decompose_sum [OF _ less, of 1 False threshold] decompose_pieces [OF _ less, of 1 threshold False]
    by (simp add: decompose_amount_into_digits_def)
qed (simp add: decompose_amount_into_digits_def)

text \<open>
  C24. \<open>check_money_overflow\<close> holds exactly when all inputs spend keys and neither sum reaches \<open>2 ^ 64\<close>; then the fee of
  a version 1 transaction is the true difference of the sums, and refused when it would be negative.
\<close>

theorem money_overflow_exact:
  assumes "ins = map (unat \<circ> the \<circ> key_amount) (vin tx)" and "outs = map (unat \<circ> out_amount) (vout tx)"
  shows "(check_money_overflow tx \<longleftrightarrow> None \<notin> key_amount ` set (vin tx) \<and> sum_list ins < 2 ^ 64 \<and> sum_list outs < 2 ^ 64) \<and>
    (check_money_overflow tx \<and> tx_version tx \<le> 1 \<longrightarrow>
       map_option unat (get_tx_fee tx) = (if sum_list outs \<le> sum_list ins then Some (sum_list ins - sum_list outs) else None))"
proof (intro conjI impI)
  show iff: "check_money_overflow tx \<longleftrightarrow> None \<notin> key_amount ` set (vin tx) \<and> sum_list ins < 2 ^ 64 \<and> sum_list outs < 2 ^ 64"
    by (auto simp: check_money_overflow_def check_inputs_overflow_def check_outs_overflow_def inputs_overflow_loop_sum
        outs_overflow_loop_sum assms)
  assume ok: "check_money_overflow tx \<and> tx_version tx \<le> 1"
  then have less: "unat (of_nat (sum_list ins) :: u64) = sum_list ins" "unat (of_nat (sum_list outs) :: u64) = sum_list outs"
    using iff by (simp_all add: unat_of_nat)
  have "get_tx_fee tx =
      (if of_nat (sum_list outs) \<le> (of_nat (sum_list ins) :: u64) then Some (of_nat (sum_list ins) - of_nat (sum_list outs)) else None)"
    using ok iff by (simp add: get_tx_fee_def get_outs_money_amount_def outs_sum amount_in_loop_sum assms leD)
  then show "map_option unat (get_tx_fee tx) = (if sum_list outs \<le> sum_list ins then Some (sum_list ins - sum_list outs) else None)"
    by (simp add: word_le_nat_alt less unat_sub)
qed

definition sample_tx :: tx_sums where
  "sample_tx = \<lparr>tx_version = 1, vin = [txin_to_key 70 [1] [], txin_to_key 5 [2] []],
     vout = [\<lparr>out_amount = 60, out_target = txout_to_key []\<rparr>], txnFee = 0\<rparr>"

theorem money_overflow_exact_witness:
  "check_money_overflow sample_tx \<and> map_option unat (get_tx_fee sample_tx) = Some 15"
  using money_overflow_exact [OF refl refl, of sample_tx] by (simp add: sample_tx_def)

text \<open>
  The first blocks emit the start amount: when their number divides it and the products fit 64 bits, the rewards of the
  heights \<open>1\<close> to \<open>START_AMOUNT_BLOCKS\<close> add up to \<open>START_AMOUNT\<close>, whatever the weights.
\<close>

theorem start_emission:
  assumes "START_AMOUNT_BLOCKS cfg \<noteq> 0" and "unat (START_AMOUNT_BLOCKS cfg) dvd unat (START_AMOUNT cfg)"
    and "(unat (START_AMOUNT_BLOCKS cfg) - 1) * unat (START_AMOUNT cfg) < 2 ^ 64"
  shows "(\<Sum>h = 1..unat (START_AMOUNT_BLOCKS cfg).
      case get_block_reward ops divide_qr cfg (of_nat h) median w c version of Inr (Some r) \<Rightarrow> unat r | _ \<Rightarrow> 0) = unat (START_AMOUNT cfg)"
proof -
  define n a where "n = START_AMOUNT_BLOCKS cfg" and "a = START_AMOUNT cfg"
  obtain q where q: "unat a = unat n * q"
    using assms(2) by (auto simp: n_def a_def)
  have n: "0 < unat n"
    using assms(1) by (simp add: n_def unat_gt_0)
  have last: "unat (a - (n - 1) * a div n) = q"
  proof -
    have "unat (n - 1) = unat n - 1"
      using n by (simp add: unat_sub word_le_nat_alt)
    then have "unat ((n - 1) * a) = (unat n - 1) * unat a"
      using assms(3) unat_mult_lem [of "n - 1" a] by (simp add: n_def a_def)
    also have "\<dots> = unat n * ((unat n - 1) * q)"
      by (simp add: q)
    finally have "unat ((n - 1) * a div n) = (unat n - 1) * q"
      using n by (simp add: unat_div)
    moreover have "(unat n - 1) * q \<le> unat a" "unat a - (unat n - 1) * q = q"
      using n by (simp_all add: q diff_mult_distrib)
    ultimately show ?thesis
      by (simp add: unat_sub word_le_nat_alt)
  qed
  have "(case get_block_reward ops divide_qr cfg (of_nat h) median w c version of Inr (Some r) \<Rightarrow> unat r | _ \<Rightarrow> 0) = q"
    if "1 \<le> h" "h \<le> unat n" for h
  proof -
    have h: "unat (of_nat h :: u64) = h"
      using that unat_u64_less [of n] by (simp add: unat_of_nat)
    then have "(of_nat h :: u64) > 0 \<and> (of_nat h :: u64) \<le> n"
      using that by (simp add: word_less_nat_alt word_le_nat_alt)
    moreover have "unat (a div n) = q"
      using n by (simp add: unat_div q)
    ultimately show ?thesis
      using last by (simp add: get_block_reward_def flip: n_def a_def)
  qed
  then have "(\<Sum>h = 1..unat n.
      case get_block_reward ops divide_qr cfg (of_nat h) median w c version of Inr (Some r) \<Rightarrow> unat r | _ \<Rightarrow> 0) = (\<Sum>h = 1..unat n. q)"
    by (intro sum.cong) simp_all
  then show ?thesis
    by (simp add: q flip: n_def a_def)
qed

theorem start_emission_witness:
  "(\<Sum>h = 1..100. case get_block_reward word_ops (\<lambda>x y. (x div y, x mod y)) default_config (of_nat h) 0 0 0 1 of
      Inr (Some r) \<Rightarrow> unat r | _ \<Rightarrow> 0) = 1000000000000000"
  using start_emission [of default_config word_ops "\<lambda>x y. (x div y, x mod y)" 0 0 0 1]
  by (simp add: default_config_def COIN_DEFAULT_def)

end
