(* ===== verification/Pruning.thy ===== *)
theory Pruning
  imports Gyro_Prelude
begin

unbundle bit_operations_syntax

text \<open>
  \<open>common/pruning.h\<close> and \<open>common/pruning.cpp\<close>: which blocks a pruned node keeps. A chain is cut into stripes of 4096
  blocks that are dealt out in turn; a node with a pruning seed keeps the blocks of one
  stripe and the last 5500 blocks. Integers have the widths of the sources, and a failed
  \<open>CHECK_AND_ASSERT_THROW_MES\<close> is an error. The theorems say that the searches
  return the nearest block that is kept, respectively skip only blocks that are kept.
\<close>

section \<open>Definitions\<close>

definition CRYPTONOTE_MAX_BLOCK_NUMBER :: u64 where
  "CRYPTONOTE_MAX_BLOCK_NUMBER = 500000000"

definition CRYPTONOTE_PRUNING_STRIPE_SIZE :: nat where
  "CRYPTONOTE_PRUNING_STRIPE_SIZE = 4096"

definition CRYPTONOTE_PRUNING_LOG_STRIPES :: nat where
  "CRYPTONOTE_PRUNING_LOG_STRIPES = 3"

definition CRYPTONOTE_PRUNING_TIP_BLOCKS :: nat where
  "CRYPTONOTE_PRUNING_TIP_BLOCKS = 5500"

definition PRUNING_SEED_LOG_STRIPES_SHIFT :: nat where
  "PRUNING_SEED_LOG_STRIPES_SHIFT = 7"

definition PRUNING_SEED_LOG_STRIPES_MASK :: u32 where
  "PRUNING_SEED_LOG_STRIPES_MASK = 0x7"

definition PRUNING_SEED_STRIPE_SHIFT :: nat where
  "PRUNING_SEED_STRIPE_SHIFT = 0"

definition PRUNING_SEED_STRIPE_MASK :: u32 where
  "PRUNING_SEED_STRIPE_MASK = 0x7f"

definition get_pruning_log_stripes :: "u32 \<Rightarrow> u32" where
  "get_pruning_log_stripes pruning_seed =
     drop_bit PRUNING_SEED_LOG_STRIPES_SHIFT pruning_seed AND PRUNING_SEED_LOG_STRIPES_MASK"

definition get_seed_stripe :: "u32 \<Rightarrow> u32" where
  "get_seed_stripe pruning_seed =
     (if pruning_seed = 0 then 0 else 1 + (drop_bit PRUNING_SEED_STRIPE_SHIFT pruning_seed AND PRUNING_SEED_STRIPE_MASK))"

definition make_pruning_seed :: "u32 \<Rightarrow> u32 \<Rightarrow> u32 result" where
  "make_pruning_seed stripe log_stripes =
     (if \<not> log_stripes \<le> PRUNING_SEED_LOG_STRIPES_MASK then Inl Runtime_error
      else if \<not> (stripe > 0 \<and> ucast stripe \<le> (push_bit (unat log_stripes) 1 :: u64)) then Inl Runtime_error
      else Inr (push_bit PRUNING_SEED_LOG_STRIPES_SHIFT log_stripes OR push_bit PRUNING_SEED_STRIPE_SHIFT (stripe - 1)))"

definition get_pruning_stripe :: "u64 \<Rightarrow> u64 \<Rightarrow> u32 \<Rightarrow> u32" where
  "get_pruning_stripe block_height blockchain_height log_stripes =
     (if block_height + of_nat CRYPTONOTE_PRUNING_TIP_BLOCKS \<ge> blockchain_height then 0
      else ucast ((block_height div of_nat CRYPTONOTE_PRUNING_STRIPE_SIZE AND (push_bit (unat log_stripes) 1 - 1)) + 1))"

definition has_unpruned_block :: "u64 \<Rightarrow> u64 \<Rightarrow> u32 \<Rightarrow> bool" where
  "has_unpruned_block block_height blockchain_height pruning_seed =
     (let stripe = get_seed_stripe pruning_seed in
      if stripe = 0 then True
      else let log_stripes = get_pruning_log_stripes pruning_seed;
               block_stripe = get_pruning_stripe block_height blockchain_height log_stripes in
        block_stripe = 0 \<or> block_stripe = stripe)"

definition get_pruning_seed :: "u64 \<Rightarrow> u64 \<Rightarrow> u32 \<Rightarrow> u32 result" where
  "get_pruning_seed block_height blockchain_height log_stripes =
     (let stripe = get_pruning_stripe block_height blockchain_height log_stripes in
      if stripe = 0 then Inr 0 else make_pruning_seed stripe log_stripes)"

text \<open>The number of stripes that the two searches use.\<close>

definition seed_log_stripes :: "u32 \<Rightarrow> nat" where
  "seed_log_stripes pruning_seed =
     (let seed_log_stripes = get_pruning_log_stripes pruning_seed in
      if seed_log_stripes \<noteq> 0 then unat seed_log_stripes else CRYPTONOTE_PRUNING_LOG_STRIPES)"

definition block_pruning_stripe :: "u64 \<Rightarrow> nat \<Rightarrow> u32" where
  "block_pruning_stripe block_height log_stripes =
     (let mask = (push_bit log_stripes 1 :: u64) - 1 in
      ucast ((block_height div of_nat CRYPTONOTE_PRUNING_STRIPE_SIZE AND mask) + 1))"

definition get_next_unpruned_block_height :: "u64 \<Rightarrow> u64 \<Rightarrow> u32 \<Rightarrow> u64" where
  "get_next_unpruned_block_height block_height blockchain_height pruning_seed =
     (if \<not> block_height \<le> CRYPTONOTE_MAX_BLOCK_NUMBER + 1 then block_height
      else if \<not> blockchain_height \<le> CRYPTONOTE_MAX_BLOCK_NUMBER + 1 then block_height
      else
        let stripe = get_seed_stripe pruning_seed in
        if stripe = 0 then block_height
        else if block_height + of_nat CRYPTONOTE_PRUNING_TIP_BLOCKS \<ge> blockchain_height then block_height
        else
          let log_stripes = seed_log_stripes pruning_seed; block_stripe = block_pruning_stripe block_height log_stripes in
          if block_stripe = stripe then block_height
          else
            let cycles = drop_bit log_stripes (block_height div of_nat CRYPTONOTE_PRUNING_STRIPE_SIZE);
                cycle_start = cycles + (if stripe > block_stripe then 0 else 1);
                h = cycle_start * push_bit log_stripes (of_nat CRYPTONOTE_PRUNING_STRIPE_SIZE)
                    + ucast ((stripe - 1) * of_nat CRYPTONOTE_PRUNING_STRIPE_SIZE) in
            if h + of_nat CRYPTONOTE_PRUNING_TIP_BLOCKS > blockchain_height then
              (if blockchain_height < of_nat CRYPTONOTE_PRUNING_TIP_BLOCKS then 0
               else blockchain_height - of_nat CRYPTONOTE_PRUNING_TIP_BLOCKS)
            else if \<not> h \<ge> block_height then block_height
            else h)"

definition get_next_pruned_block_height :: "u64 \<Rightarrow> u64 \<Rightarrow> u32 \<Rightarrow> u64 result" where
  "get_next_pruned_block_height block_height blockchain_height pruning_seed =
     (let stripe = get_seed_stripe pruning_seed in
      if stripe = 0 then Inr blockchain_height
      else if block_height + of_nat CRYPTONOTE_PRUNING_TIP_BLOCKS \<ge> blockchain_height then Inr blockchain_height
      else
        let log_stripes = seed_log_stripes pruning_seed; mask = (push_bit log_stripes 1 :: u64) - 1;
            block_stripe = block_pruning_stripe block_height log_stripes in
        if block_stripe \<noteq> stripe then Inr block_height
        else let next_stripe = ucast (1 + (ucast block_stripe AND mask)) in
          and_then (make_pruning_seed next_stripe (of_nat log_stripes))
            (\<lambda>seed. Inr (get_next_unpruned_block_height block_height blockchain_height seed)))"

definition get_random_stripe :: "byte \<Rightarrow> u32" where
  "get_random_stripe r = 1 + ucast (ucast r mod (push_bit CRYPTONOTE_PRUNING_LOG_STRIPES 1 :: u64))"

section \<open>Seeds\<close>

lemmas pruning_consts = PRUNING_SEED_LOG_STRIPES_SHIFT_def PRUNING_SEED_LOG_STRIPES_MASK_def PRUNING_SEED_STRIPE_SHIFT_def
  PRUNING_SEED_STRIPE_MASK_def CRYPTONOTE_PRUNING_STRIPE_SIZE_def CRYPTONOTE_PRUNING_TIP_BLOCKS_def CRYPTONOTE_MAX_BLOCK_NUMBER_def

lemma unat_power_2: "n < LENGTH('a) \<Longrightarrow> unat (2 ^ n :: 'a::len word) = 2 ^ n"
  using unat_push_bit [of "1 :: 'a word" n] by (simp add: power_strict_increasing)

lemma push_bit_1_minus_1: "(push_bit n 1 :: 'a::len word) - 1 = mask n"
  by (simp add: mask_eq_exp_minus_1 push_bit_eq_mult)

lemma seed_parts:
  assumes "make_pruning_seed stripe log_stripes = Inr seed"
  shows "unat log_stripes \<le> 7" "0 < unat stripe" "unat stripe \<le> 2 ^ unat log_stripes"
    "unat seed = unat stripe - 1 + unat log_stripes * 128"
proof -
  have range: "unat log_stripes \<le> 7" "stripe > 0" "ucast stripe \<le> (push_bit (unat log_stripes) 1 :: u64)"
      and seed: "seed = push_bit 7 log_stripes OR (stripe - 1)"
    using assms by (auto simp: make_pruning_seed_def pruning_consts word_le_nat_alt split: if_splits)
  show log: "unat log_stripes \<le> 7"
    by (rule range(1))
  show pos: "0 < unat stripe"
    using range(2) by (simp add: word_less_nat_alt)
  have "unat (ucast stripe :: u64) = unat stripe"
    by (simp add: unsigned_ucast_eq take_bit_nat_eq_self unsigned_less [THEN less_le_trans])
  then show small: "unat stripe \<le> 2 ^ unat log_stripes"
    using range(3) log by (simp add: word_le_nat_alt unat_power_2)
  have "(2 :: nat) ^ unat log_stripes \<le> 2 ^ 7"
    using log by (intro power_increasing) simp_all
  then have "unat (stripe - 1) = unat stripe - 1" "unat stripe - 1 < 2 ^ 7"
    using pos small by (simp_all add: unat_sub word_le_nat_alt)
  moreover have "seed = (stripe - 1) OR push_bit 7 log_stripes"
    by (simp add: seed or.commute)
  ultimately show "unat seed = unat stripe - 1 + unat log_stripes * 128"
    using log by (simp add: unat_or_push_bit)
qed

lemma seed_fields:
  assumes "make_pruning_seed stripe log_stripes = Inr seed" and "log_stripes \<noteq> 0"
  shows "get_seed_stripe seed = stripe" "get_pruning_log_stripes seed = log_stripes" "seed_log_stripes seed = unat log_stripes"
proof -
  note parts = seed_parts [OF assms(1)]
  have "(2 :: nat) ^ unat log_stripes \<le> 2 ^ 7"
    using parts(1) by (intro power_increasing) simp_all
  then have low: "unat stripe - 1 < 128"
    using parts(2,3) by simp
  have "seed \<noteq> 0"
    using parts(4) assms(2) by (auto simp: unat_eq_0 [symmetric])
  moreover have "unat (seed AND 0x7f) = unat stripe - 1"
    using unat_and_mask [of seed 7] low parts(4) by (simp add: mask_eq_exp_minus_1)
  then have "unat (1 + (seed AND 0x7f)) = unat stripe"
    using low parts(2) by (simp add: unat_word_ariths)
  then have "1 + (seed AND 0x7f) = stripe"
    by (simp add: word_unat_eq_iff)
  ultimately show "get_seed_stripe seed = stripe"
    by (simp add: get_seed_stripe_def pruning_consts)
  have "unat (drop_bit 7 seed) = unat log_stripes"
    using low parts(4) by (simp add: unat_drop_bit)
  then have "unat (drop_bit 7 seed AND 0x7) = unat log_stripes"
    using unat_and_mask [of "drop_bit 7 seed" 3] parts(1) by (simp add: mask_eq_exp_minus_1)
  then show "get_pruning_log_stripes seed = log_stripes"
    by (simp add: get_pruning_log_stripes_def pruning_consts word_unat_eq_iff)
  then show "seed_log_stripes seed = unat log_stripes"
    using assms(2) by (simp add: seed_log_stripes_def)
qed

section \<open>Stripes as numbers\<close>

definition stripe_of :: "nat \<Rightarrow> nat \<Rightarrow> nat" where
  "stripe_of l h = (h div 4096) mod 2 ^ l + 1"

lemma stripe_of_le: "stripe_of l h \<le> 2 ^ l"
  by (simp add: stripe_of_def Suc_le_eq)

lemma unat_block_stripe:
  assumes "l \<le> 7"
  shows "unat (block_pruning_stripe h l) = stripe_of l (unat h)"
proof -
  have le: "(2 :: nat) ^ l \<le> 128"
    using power_increasing [OF assms, of "2 :: nat"] by simp
  define x where "x = h div 4096 AND (2 ^ l - 1)"
  have x: "unat x = (unat h div 4096) mod 2 ^ l"
    using unat_and_mask [of "h div 4096" l] by (simp add: x_def mask_eq_exp_minus_1 unat_div)
  have "(unat h div 4096) mod 2 ^ l < 2 ^ l"
    by simp
  then have "unat x < 128"
    using le unfolding x by linarith
  then have "unat (ucast (x + 1) :: u32) = unat x + 1"
    by (simp add: unsigned_ucast_eq unat_word_ariths take_bit_eq_mod)
  then show ?thesis
    by (simp add: block_pruning_stripe_def pruning_consts stripe_of_def x flip: x_def)
qed

lemma next_in_stripe:
  assumes "0 < s" and "s \<le> 2 ^ l" and "stripe_of l b \<noteq> s"
    and "c = (b div 4096) div 2 ^ l + (if s > stripe_of l b then 0 else 1)" and "h = c * (4096 * 2 ^ l) + (s - 1) * 4096"
  shows "b \<le> h" "stripe_of l h = s" "b \<le> h' \<Longrightarrow> h' < h \<Longrightarrow> stripe_of l h' \<noteq> s"
proof -
  define N i where "N = (2 :: nat) ^ l" and "i = b div 4096"
  have N: "0 < N" "s - 1 < N"
    using assms(1,2) by (simp_all add: N_def)
  have i: "i = (i div N) * N + (stripe_of l b - 1)"
    unfolding stripe_of_def N_def i_def by (simp only: add_diff_cancel_right' div_mult_mod_eq)
  have target: "h = (c * N + (s - 1)) * 4096"
    by (simp add: assms(5) N_def algebra_simps)
  then have block: "h div 4096 = c * N + (s - 1)"
    by simp
  have "(c * N + (s - 1)) mod N = s - 1"
    using N(2) by simp
  then show "stripe_of l h = s"
    using assms(1) unfolding stripe_of_def block N_def [symmetric] by simp
  have c: "c = i div N + (if s > stripe_of l b then 0 else 1)"
    using assms(4) by (simp add: i_def N_def)
  have later: "i < c * N + (s - 1)"
  proof (cases "s > stripe_of l b")
    case True
    then show ?thesis
      using c i by (simp add: stripe_of_def)
  next
    case False
    have "i mod N < N"
      using N(1) by simp
    then have "i < (i div N) * N + N"
      using div_mult_mod_eq [of i N] by linarith
    then show ?thesis
      using c False by simp
  qed
  have "b < (i + 1) * 4096"
    unfolding i_def by (simp add: dividend_less_div_times mult.commute)
  also have "\<dots> \<le> h"
    unfolding target using later by (intro mult_le_mono1) simp
  finally show "b \<le> h"
    by simp
  assume "b \<le> h'" "h' < h"
  show "stripe_of l h' \<noteq> s"
  proof
    assume stripe: "stripe_of l h' = s"
    define j where "j = h' div 4096"
    have j: "i \<le> j" "j < c * N + (s - 1)"
      using div_le_mono [OF \<open>b \<le> h'\<close>, of 4096] \<open>h' < h\<close> by (simp_all add: i_def j_def target less_mult_imp_div_less)
    have "j mod N = s - 1"
      using stripe by (simp add: stripe_of_def j_def N_def)
    then have split: "j = (j div N) * N + (s - 1)"
      using div_mult_mod_eq [of j N] by simp
    with j(2) have "(j div N) * N < c * N"
      by linarith
    then have "j div N < c"
      by simp
    moreover have "i div N \<le> j div N"
      using j(1) by (rule div_le_mono)
    ultimately have "s \<le> stripe_of l b" "j div N = i div N"
      using c by (auto split: if_splits)
    with assms(3) split i j(1) assms(1) show False
      by (simp add: stripe_of_def)
  qed
qed

section \<open>Kept blocks\<close>

definition height_ok :: "u64 \<Rightarrow> bool" where
  "height_ok h \<longleftrightarrow> h \<le> CRYPTONOTE_MAX_BLOCK_NUMBER + 1"

lemma height_ok_bounds: "height_ok h \<Longrightarrow> unat h \<le> 500000001"
  by (simp add: height_ok_def pruning_consts word_le_nat_alt)

lemma tip_iff:
  fixes h c :: u64
  assumes "unat h \<le> 2 ^ 32"
  shows "h + of_nat CRYPTONOTE_PRUNING_TIP_BLOCKS \<ge> c \<longleftrightarrow> unat c \<le> unat h + 5500"
    "h + of_nat CRYPTONOTE_PRUNING_TIP_BLOCKS > c \<longleftrightarrow> unat c < unat h + 5500"
proof -
  have "unat (h + 5500) = unat h + 5500"
    using assms by (simp add: unat_word_ariths)
  then show "h + of_nat CRYPTONOTE_PRUNING_TIP_BLOCKS \<ge> c \<longleftrightarrow> unat c \<le> unat h + 5500"
    "h + of_nat CRYPTONOTE_PRUNING_TIP_BLOCKS > c \<longleftrightarrow> unat c < unat h + 5500"
    by (simp_all add: pruning_consts word_le_nat_alt word_less_nat_alt)
qed

lemma has_unpruned_block_iff:
  assumes "make_pruning_seed stripe log_stripes = Inr seed" and "log_stripes \<noteq> 0" and "unat h \<le> 2 ^ 32"
  shows "has_unpruned_block h c seed \<longleftrightarrow> unat c \<le> unat h + 5500 \<or> stripe_of (unat log_stripes) (unat h) = unat stripe"
proof -
  note parts = seed_parts [OF assms(1)] and fields = seed_fields [OF assms(1,2)]
  have block: "unat (block_pruning_stripe h (unat log_stripes)) = stripe_of (unat log_stripes) (unat h)"
    by (rule unat_block_stripe) (rule parts(1))
  have "get_pruning_stripe h c log_stripes =
      (if unat c \<le> unat h + 5500 then 0 else block_pruning_stripe h (unat log_stripes))"
    unfolding get_pruning_stripe_def tip_iff(1) [OF assms(3)] block_pruning_stripe_def Let_def ..
  moreover have "stripe \<noteq> 0"
    using parts(2) by auto
  moreover have "block_pruning_stripe h (unat log_stripes) = x \<longleftrightarrow> stripe_of (unat log_stripes) (unat h) = unat x" for x
    by (simp add: word_unat_eq_iff block)
  ultimately show ?thesis
    by (simp add: has_unpruned_block_def fields) (simp add: stripe_of_def)
qed

text \<open>The height that \<open>get_next_unpruned_block_height\<close> computes, without wrap-around.\<close>

lemma cycle_bound:
  fixes b l e :: nat
  assumes "b \<le> 500000001" and "2 ^ l \<le> (128 :: nat)" and "e \<le> 1"
  shows "((b div 4096) div 2 ^ l + e) * (4096 * 2 ^ l) \<le> 500524289"
proof -
  have "(b div 4096) div 2 ^ l * 2 ^ l \<le> b div 4096"
    by (rule div_times_less_eq_dividend)
  moreover have "e * 2 ^ l \<le> 1 * 128"
    using assms(2,3) by (rule mult_le_mono [rotated])
  ultimately have "((b div 4096) div 2 ^ l + e) * 2 ^ l \<le> b div 4096 + 128"
    unfolding add_mult_distrib by linarith
  then have "((b div 4096) div 2 ^ l + e) * 2 ^ l * 4096 \<le> (b div 4096 + 128) * 4096"
    by (rule mult_le_mono1)
  also have "\<dots> \<le> 500524289"
    using assms(1) div_times_less_eq_dividend [of b 4096] by (simp add: add_mult_distrib)
  finally show ?thesis
    by (simp add: mult_ac)
qed

lemma stripe_offset:
  assumes "0 < unat stripe" and "unat stripe \<le> 128"
  shows "unat (ucast ((stripe - 1) * 4096 :: u32) :: u64) = (unat stripe - 1) * 4096"
proof -
  define x where "x = stripe - 1"
  have "unat x = unat stripe - 1"
    using assms(1) by (simp add: x_def unat_sub word_le_nat_alt)
  then have "unat (x * 4096) = (unat stripe - 1) * 4096"
    using assms(2) by (simp add: unat_word_ariths)
  then show ?thesis
    using assms(2) unfolding x_def [symmetric] by (simp add: unsigned_ucast_eq take_bit_nat_eq_self)
qed

lemma next_height_value:
  assumes "make_pruning_seed stripe log_stripes = Inr seed" and "height_ok b"
    and "c = drop_bit (unat log_stripes) (b div 4096) + (if stripe > block_pruning_stripe b (unat log_stripes) then 0 else 1)"
    and "h = c * push_bit (unat log_stripes) 4096 + ucast ((stripe - 1) * 4096)"
    and "l = unat log_stripes" and "s = unat stripe"
  shows "unat h = ((unat b div 4096) div 2 ^ l + (if s > stripe_of l (unat b) then 0 else 1)) * (4096 * 2 ^ l) + (s - 1) * 4096"
    and "unat h \<le> 2 ^ 32"
proof -
  note parts = seed_parts [OF assms(1), folded assms(5,6)]
  have pow: "(2 :: nat) ^ l \<le> 128" "s \<le> 128"
    using parts(1,3) power_increasing [of l 7 "2 :: nat"] by simp_all
  define e k where "e = (if s > stripe_of l (unat b) then 0 else 1 :: nat)" and "k = (unat b div 4096) div 2 ^ l + e"
  have k: "k * (4096 * 2 ^ l) \<le> 500524289"
    unfolding k_def by (rule cycle_bound [OF height_ok_bounds [OF assms(2)] pow(1)]) (simp add: e_def)
  have "unat (block_pruning_stripe b l) = stripe_of l (unat b)"
    using parts(1) by (rule unat_block_stripe)
  then have "(if stripe > block_pruning_stripe b l then 0 else 1) = (of_nat e :: u64)"
    by (simp add: word_less_nat_alt assms(6) e_def)
  moreover have "unat (drop_bit l (b div 4096)) = (unat b div 4096) div 2 ^ l"
    by (simp add: unat_drop_bit unat_div)
  then have "drop_bit l (b div 4096) = of_nat ((unat b div 4096) div 2 ^ l)"
    by (rule word_eq_of_natI)
  ultimately have c: "c = of_nat k"
    by (simp add: assms(3) assms(5) [symmetric] k_def)
  have "push_bit l (4096 :: u64) = of_nat (4096 * 2 ^ l)"
    by (simp add: push_bit_eq_mult)
  moreover have "ucast ((stripe - 1) * 4096) = (of_nat ((s - 1) * 4096) :: u64)"
    using stripe_offset [of stripe] parts(2) pow(2) by (intro word_eq_of_natI) (simp add: assms(6))
  ultimately have "h = of_nat (k * (4096 * 2 ^ l) + (s - 1) * 4096)"
    by (simp add: assms(4) assms(5) [symmetric] c)
  moreover have "(s - 1) * 4096 \<le> 127 * 4096"
    using pow(2) by (intro mult_le_mono1) simp
  ultimately have "unat h = k * (4096 * 2 ^ l) + (s - 1) * 4096"
    using k by (simp add: unat_of_nat del: of_nat_add of_nat_mult)
  with k \<open>(s - 1) * 4096 \<le> 127 * 4096\<close> show
    "unat h = ((unat b div 4096) div 2 ^ l + (if s > stripe_of l (unat b) then 0 else 1)) * (4096 * 2 ^ l) + (s - 1) * 4096"
    "unat h \<le> 2 ^ 32"
    by (simp_all add: k_def e_def)
qed

section \<open>The searches\<close>

text \<open>What the search for an unpruned block promises about its result \<open>r\<close>.\<close>

definition next_unpruned :: "nat \<Rightarrow> nat \<Rightarrow> nat \<Rightarrow> nat \<Rightarrow> nat \<Rightarrow> bool" where
  "next_unpruned l s b c r \<longleftrightarrow> b \<le> r \<and> (c \<le> r + 5500 \<or> stripe_of l r = s) \<and>
     (\<forall>h. b \<le> h \<longrightarrow> h < r \<longrightarrow> \<not> c \<le> h + 5500 \<and> stripe_of l h \<noteq> s)"

lemma size_words: "of_nat CRYPTONOTE_PRUNING_STRIPE_SIZE = (4096 :: u64)" "of_nat CRYPTONOTE_PRUNING_STRIPE_SIZE = (4096 :: u32)"
    "of_nat CRYPTONOTE_PRUNING_TIP_BLOCKS = (5500 :: u64)"
  by (simp_all add: pruning_consts)

lemma block_stripe_eq:
  assumes "make_pruning_seed stripe log_stripes = Inr seed"
  shows "block_pruning_stripe b (unat log_stripes) = stripe \<longleftrightarrow> stripe_of (unat log_stripes) (unat b) = unat stripe"
  using unat_block_stripe [OF seed_parts(1) [OF assms], of b] by (simp add: word_unat_eq_iff)

lemma get_next_unpruned_cases:
  assumes "make_pruning_seed stripe log_stripes = Inr seed" and "log_stripes \<noteq> 0" and "height_ok b" and "height_ok c"
    and "k = drop_bit (unat log_stripes) (b div 4096) + (if stripe > block_pruning_stripe b (unat log_stripes) then 0 else 1)"
    and "h = k * push_bit (unat log_stripes) 4096 + ucast ((stripe - 1) * 4096)" and "unat h \<le> 2 ^ 32"
  shows "get_next_unpruned_block_height b c seed =
      (if unat c \<le> unat b + 5500 then b else if stripe_of (unat log_stripes) (unat b) = unat stripe then b
       else if unat c < unat h + 5500 then (if c < 5500 then 0 else c - 5500) else if \<not> h \<ge> b then b else h)"
proof -
  have "stripe \<noteq> 0" "unat b \<le> 2 ^ 32"
    using seed_parts(2) [OF assms(1)] height_ok_bounds [OF assms(3)] by auto
  then show ?thesis
    using assms(3,4)
    unfolding get_next_unpruned_block_height_def height_ok_def Let_def seed_fields [OF assms(1,2)] size_words
      assms(5) [symmetric] assms(6) [symmetric] tip_iff(1) [OF \<open>unat b \<le> 2 ^ 32\<close>, unfolded size_words]
      tip_iff(2) [OF assms(7), unfolded size_words] block_stripe_eq [OF assms(1)]
    by (simp only: not_True_eq_False if_False)
qed

lemma get_next_unpruned_value:
  assumes "make_pruning_seed stripe log_stripes = Inr seed" and "log_stripes \<noteq> 0" and "height_ok b" and "height_ok c"
  shows "next_unpruned (unat log_stripes) (unat stripe) (unat b) (unat c) (unat (get_next_unpruned_block_height b c seed)) \<and>
    unat (get_next_unpruned_block_height b c seed) \<le> 2 ^ 32"
proof -
  define l s where "l = unat log_stripes" and "s = unat stripe"
  note parts = seed_parts [OF assms(1), folded l_def s_def]
  define k h where "k = drop_bit l (b div 4096) + (if stripe > block_pruning_stripe b l then 0 else 1)"
    and "h = k * push_bit l 4096 + ucast ((stripe - 1) * 4096)"
  note h = next_height_value [OF assms(1,3) k_def [unfolded l_def] h_def [unfolded l_def] l_def s_def]
  note body = get_next_unpruned_cases [OF assms k_def [unfolded l_def] h_def [unfolded l_def] h(2), folded l_def s_def]
  have bound: "unat b \<le> 2 ^ 32" "unat c \<le> 2 ^ 32"
    using assms(3,4) [THEN height_ok_bounds] by simp_all
  show ?thesis
  proof (cases "unat c \<le> unat b + 5500 \<or> stripe_of l (unat b) = s")
    case True
    then have "get_next_unpruned_block_height b c seed = b"
      by (auto simp: body)
    with True bound(1) show ?thesis
      by (auto simp: next_unpruned_def l_def s_def)
  next
    case False
    then have stripe: "stripe_of l (unat b) \<noteq> s" and tip_b: "unat b + 5500 < unat c"
      by auto
    note next_block = next_in_stripe [OF _ parts(3) stripe refl h(1)]
    have ge: "b \<le> h"
      using next_block(1) parts(2) by (simp add: word_le_nat_alt s_def)
    have sub: "\<not> c < 5500" "unat (c - 5500) = unat c - 5500"
      using tip_b by (simp_all add: word_less_nat_alt unat_sub word_le_nat_alt)
    show ?thesis
    proof (cases "unat c < unat h + 5500")
      case True
      then have "get_next_unpruned_block_height b c seed = c - 5500"
        using False sub(1) by (simp add: body)
      moreover have "stripe_of l x \<noteq> s" if "unat b \<le> x" "x < unat c - 5500" for x
        using next_block(3) [OF _ that(1)] that(2) True parts(2) by (simp add: s_def)
      ultimately show ?thesis
        using tip_b bound(2) sub(2) unfolding next_unpruned_def l_def [symmetric] s_def [symmetric] by auto
    next
      case low: False
      then have "get_next_unpruned_block_height b c seed = h"
        using False ge by (simp add: body)
      then show ?thesis
        using next_block parts(2) low h(2) unfolding next_unpruned_def l_def [symmetric] s_def [symmetric]
        by (auto simp: s_def)
    qed
  qed
qed

lemma stripe_of_Suc: "stripe_of l (Suc h) = stripe_of l h \<or> stripe_of l (Suc h) = stripe_of l h mod 2 ^ l + 1"
  unfolding stripe_of_def by (auto simp: div_Suc mod_Suc split: if_splits)

lemma same_stripe_until_next:
  assumes "stripe_of l b = s" and "next_unpruned l (s mod 2 ^ l + 1) b c r" and "b \<le> h" and "h < r"
  shows "stripe_of l h = s"
  using assms(3,4)
proof (induction h rule: dec_induct)
  case base
  show ?case
    by (rule assms(1))
next
  case (step h)
  then have "stripe_of l h = s" "stripe_of l (Suc h) \<noteq> s mod 2 ^ l + 1"
    using assms(2) by (simp_all add: next_unpruned_def)
  then show ?case
    using stripe_of_Suc [of l h] by auto
qed

lemma next_stripe_seed:
  assumes "make_pruning_seed stripe log_stripes = Inr seed"
    and "next_stripe = ucast (1 + (ucast stripe AND ((push_bit (unat log_stripes) 1 :: u64) - 1)))"
  shows "unat next_stripe = unat stripe mod 2 ^ unat log_stripes + 1" "\<exists>seed'. make_pruning_seed next_stripe log_stripes = Inr seed'"
proof -
  note parts = seed_parts [OF assms(1)]
  have pow: "(2 :: nat) ^ unat log_stripes \<le> 128"
    using parts(1) power_increasing [of "unat log_stripes" 7 "2 :: nat"] by simp
  have "unat (ucast stripe :: u64) = unat stripe"
    by (simp add: unsigned_ucast_eq take_bit_nat_eq_self unsigned_less [THEN less_le_trans])
  then have masked: "unat (ucast stripe AND ((push_bit (unat log_stripes) 1 :: u64) - 1)) = unat stripe mod 2 ^ unat log_stripes"
    unfolding push_bit_1_minus_1 unat_and_mask by simp
  define n where "n = unat stripe mod 2 ^ unat log_stripes"
  have n: "n < 2 ^ unat log_stripes" "n < 128"
    using pow by (simp_all add: n_def) (metis less_le_trans mod_less_divisor zero_less_numeral zero_less_power)
  have "unat (1 + (ucast stripe AND ((push_bit (unat log_stripes) 1 :: u64) - 1))) = n + 1"
    using n(2) masked unfolding n_def [symmetric] by (simp add: unat_word_ariths del: push_bit_of_1)
  then show next_unat: "unat next_stripe = unat stripe mod 2 ^ unat log_stripes + 1"
    using n(2) unfolding assms(2) n_def [symmetric] by (simp add: unsigned_ucast_eq take_bit_nat_eq_self del: push_bit_of_1)
  have "unat (ucast next_stripe :: u64) \<le> 2 ^ unat log_stripes"
    using n next_unat unfolding n_def [symmetric] by (simp add: unsigned_ucast_eq take_bit_nat_eq_self)
  then show "\<exists>seed'. make_pruning_seed next_stripe log_stripes = Inr seed'"
    using parts(1) next_unat by (auto simp: make_pruning_seed_def pruning_consts word_le_nat_alt word_less_nat_alt unat_power_2)
qed

lemma get_next_pruned_cases:
  assumes "make_pruning_seed stripe log_stripes = Inr seed" and "log_stripes \<noteq> 0" and "height_ok b"
    and "next_stripe = ucast (1 + (ucast stripe AND ((push_bit (unat log_stripes) 1 :: u64) - 1)))"
    and "make_pruning_seed next_stripe log_stripes = Inr seed'"
  shows "get_next_pruned_block_height b c seed =
      (if unat c \<le> unat b + 5500 then Inr c else if stripe_of (unat log_stripes) (unat b) \<noteq> unat stripe then Inr b
       else Inr (get_next_unpruned_block_height b c seed'))"
proof -
  have "stripe \<noteq> 0" and small: "unat b \<le> 2 ^ 32"
    using seed_parts(2) [OF assms(1)] height_ok_bounds [OF assms(3)] by auto
  then have "get_next_pruned_block_height b c seed =
      (if unat c \<le> unat b + 5500 then Inr c else if block_pruning_stripe b (unat log_stripes) \<noteq> stripe then Inr b
       else Inr (get_next_unpruned_block_height b c seed'))"
    unfolding get_next_pruned_block_height_def Let_def seed_fields [OF assms(1,2)] tip_iff(1) [OF small]
    using assms(5) by (simp add: assms(4) del: push_bit_of_1)
  then show ?thesis
    by (simp add: block_stripe_eq [OF assms(1)])
qed

lemma next_stripe_differs:
  fixes s l :: nat
  assumes "0 < s" and "s \<le> 2 ^ l" and "0 < l"
  shows "s mod 2 ^ l + 1 \<noteq> s"
proof (cases "s = 2 ^ l")
  case True
  then show ?thesis
    using assms(3) by (cases l) simp_all
next
  case False
  with assms(2) have "s mod 2 ^ l = s"
    by simp
  then show ?thesis
    by simp
qed

section \<open>Properties\<close>

text \<open>
  C39. \<open>get_next_unpruned_block_height\<close> finds the nearest block: for every seed of two or more stripes and all heights in
  range, the result is at or above the given height, a node with the seed has that block,
  and it has none of the blocks before it.
\<close>

theorem next_unpruned_nearest:
  assumes "make_pruning_seed stripe log_stripes = Inr seed" and "log_stripes \<noteq> 0" and "height_ok b" and "height_ok c"
    and "r = get_next_unpruned_block_height b c seed"
  shows "b \<le> r \<and> has_unpruned_block r c seed \<and> (\<forall>h. b \<le> h \<and> h < r \<longrightarrow> \<not> has_unpruned_block h c seed)"
proof -
  have v: "next_unpruned (unat log_stripes) (unat stripe) (unat b) (unat c) (unat r)" "unat r \<le> 2 ^ 32"
    using get_next_unpruned_value [OF assms(1-4)] by (simp_all add: assms(5))
  have small: "unat h \<le> 2 ^ 32" if "h < r" for h
    using that v(2) by (simp add: word_less_nat_alt)
  show ?thesis
    using v has_unpruned_block_iff [OF assms(1,2)] small
    by (auto simp: next_unpruned_def word_le_nat_alt word_less_nat_alt)
qed

theorem next_unpruned_nearest_witness:
  "5000 \<le> get_next_unpruned_block_height 5000 100000 384 \<and>
   has_unpruned_block (get_next_unpruned_block_height 5000 100000 384) 100000 384"
proof -
  have "make_pruning_seed 1 3 = Inr 384"
    by (simp add: make_pruning_seed_def pruning_consts)
  from next_unpruned_nearest [OF this, of 5000 100000] show ?thesis
    by (simp add: height_ok_def pruning_consts)
qed

text \<open>
  \<open>get_next_pruned_block_height\<close> never skips a block the node lacks: it returns, every block of the chain from the given height up to
  the result is one the node has, and the result is a pruned block or within the last 5500.
\<close>

theorem next_pruned_skips_kept:
  assumes "make_pruning_seed stripe log_stripes = Inr seed" and "log_stripes \<noteq> 0" and "height_ok b" and "height_ok c"
  shows "\<exists>r. get_next_pruned_block_height b c seed = Inr r \<and>
    (\<forall>h. b \<le> h \<and> h < r \<longrightarrow> has_unpruned_block h c seed) \<and>
    (\<not> has_unpruned_block r c seed \<or> unat c \<le> unat r + 5500)"
proof -
  define l s where "l = unat log_stripes" and "s = unat stripe"
  note parts = seed_parts [OF assms(1), folded l_def s_def] and fields = seed_fields [OF assms(1,2)]
  note kept = has_unpruned_block_iff [OF assms(1,2), folded l_def s_def]
  have bound: "unat b \<le> 2 ^ 32" "unat c \<le> 2 ^ 32"
    using assms(3,4) [THEN height_ok_bounds] by simp_all
  have "stripe \<noteq> 0"
    using parts(2) by (auto simp: s_def)
  define next_stripe where "next_stripe = (ucast (1 + (ucast stripe AND ((push_bit (unat log_stripes) 1 :: u64) - 1))) :: u32)"
  obtain seed' where seed': "unat next_stripe = s mod 2 ^ l + 1" "make_pruning_seed next_stripe log_stripes = Inr seed'"
    using next_stripe_seed [OF assms(1) next_stripe_def] by (auto simp: l_def s_def)
  note body = get_next_pruned_cases [OF assms(1-3) next_stripe_def seed'(2), of c, folded l_def s_def]
  consider "unat c \<le> unat b + 5500" | "\<not> unat c \<le> unat b + 5500" "stripe_of l (unat b) \<noteq> s"
    | "\<not> unat c \<le> unat b + 5500" "stripe_of l (unat b) = s"
    by blast
  then show ?thesis
  proof cases
    case 1
    then have "has_unpruned_block h c seed" if "b \<le> h" "h < c" for h
      using that bound(2) kept [of h c] by (simp add: word_le_nat_alt word_less_nat_alt)
    with 1 show ?thesis
      by (auto simp: body)
  next
    case 2
    with kept [OF bound(1), of c] show ?thesis
      by (auto simp: body)
  next
    case 3
    define r where "r = get_next_unpruned_block_height b c seed'"
    have v: "next_unpruned l (s mod 2 ^ l + 1) (unat b) (unat c) (unat r)" "unat r \<le> 2 ^ 32"
      using get_next_unpruned_value [OF seed'(2) assms(2-4)] unfolding seed'(1) by (simp_all add: r_def l_def)
    have "has_unpruned_block h c seed" if "b \<le> h" "h < r" for h
      using that same_stripe_until_next [OF 3(2) v(1), of "unat h"] v(2) kept [of h c] by (simp add: word_le_nat_alt word_less_nat_alt)
    moreover have "0 < l"
      using assms(2) by (simp add: l_def unat_gt_0)
    then have "\<not> has_unpruned_block r c seed \<or> unat c \<le> unat r + 5500"
      using v kept [of r c] next_stripe_differs [of s l] parts(2,3) by (auto simp: next_unpruned_def s_def)
    ultimately show ?thesis
      using 3 by (simp add: body flip: r_def)
  qed
qed

theorem next_pruned_skips_kept_witness:
  "\<exists>r. get_next_pruned_block_height 100 100000 384 = Inr r \<and> has_unpruned_block 100 100000 384 \<and>
     (\<not> has_unpruned_block r 100000 384 \<or> 100000 \<le> unat r + 5500)"
proof -
  have "make_pruning_seed 1 3 = Inr 384"
    by (simp add: make_pruning_seed_def pruning_consts)
  moreover have "has_unpruned_block 100 100000 384"
    by code_simp
  ultimately show ?thesis
    using next_pruned_skips_kept [of 1 3 384 100 100000] by (auto simp: height_ok_def pruning_consts)
qed

end
