(* ===== verification/Permutation.thy ===== *)
theory Permutation
  imports Gyro_Prelude
begin

text \<open>
  \<open>common/apply_permutation.h\<close>: reordering a vector in place by following the cycles of a
  permutation. The inner loop is a partial function, \<open>None\<close> when it does not end; a failed check is an exception and
  an access outside a vector an error. The theorem says that every permutation ends the
  loops and moves each element to its place, and that anything else is refused.
\<close>

section \<open>Definitions\<close>

definition swap_at :: "nat \<Rightarrow> nat \<Rightarrow> 'a list \<Rightarrow> 'a list result" where
  "swap_at i0 i1 v = (if i0 < length v \<and> i1 < length v then Inr (v[i0 := v ! i1, i1 := v ! i0]) else Inl Out_of_range)"

partial_function (option) cycle_loop :: "nat \<Rightarrow> nat \<Rightarrow> nat list \<Rightarrow> 'a list \<Rightarrow> (nat list \<times> 'a list) result option" where
  "cycle_loop i current permutation v =
     (case at permutation current of
        Inl e \<Rightarrow> Some (Inl e)
      | Inr nxt \<Rightarrow>
          if i \<noteq> nxt then
            (case swap_at current nxt v of
               Inl e \<Rightarrow> Some (Inl e)
             | Inr v \<Rightarrow> cycle_loop i nxt (permutation[current := current]) v)
          else Some (Inr (permutation[current := current], v)))"

fun permutation_loop :: "nat list \<Rightarrow> nat list \<Rightarrow> 'a list \<Rightarrow> 'a list result option" where
  "permutation_loop [] permutation v = Some (Inr v)"
| "permutation_loop (i # is) permutation v =
     (case cycle_loop i i permutation v of
        None \<Rightarrow> None
      | Some (Inl e) \<Rightarrow> Some (Inl e)
      | Some (Inr (permutation, v)) \<Rightarrow> permutation_loop is permutation v)"

definition apply_permutation :: "nat list \<Rightarrow> 'a list \<Rightarrow> 'a list result option" where
  "apply_permutation permutation v =
     (if length permutation \<noteq> length v then Some (Inl Runtime_error)
      else if \<not> list_all (\<lambda>n. List.member permutation n) [0..<length permutation] then Some (Inl Runtime_error)
      else permutation_loop [0..<length permutation] permutation v)"

section \<open>Cycles\<close>

text \<open>
  While the cycle of \<open>i\<close> is followed, the entry that still points to \<open>i\<close> stands for the position
  \<open>c\<close> to which the element of \<open>i\<close> has moved. \<open>P\<close> is the permutation read that way.
\<close>

definition following :: "nat \<Rightarrow> nat \<Rightarrow> nat \<Rightarrow> nat list \<Rightarrow> (nat \<Rightarrow> nat) \<Rightarrow> bool" where
  "following n i c p P \<longleftrightarrow> length p = n \<and> i < n \<and> c < n \<and> inj_on P {..<n} \<and> P ` {..<n} \<subseteq> {..<n} \<and>
     (\<forall>j < n. P j = (if p ! j = i \<and> j \<noteq> i then c else p ! j)) \<and>
     (c \<noteq> i \<longrightarrow> p ! i = i \<and> (\<forall>j < n. p ! j \<noteq> c))"

lemma followingD:
  assumes "following n i c p P"
  shows "length p = n" "i < n" "c < n" "inj_on P {..<n}" "j < n \<Longrightarrow> P j < n"
    "j < n \<Longrightarrow> P j = (if p ! j = i \<and> j \<noteq> i then c else p ! j)"
    "c \<noteq> i \<Longrightarrow> p ! i = i" "c \<noteq> i \<Longrightarrow> j < n \<Longrightarrow> p ! j \<noteq> c"
  using assms unfolding following_def by blast+

definition moved :: "nat list \<Rightarrow> nat set" where
  "moved p = {j. j < length p \<and> p ! j \<noteq> j}"

lemma finite_moved [simp]: "finite (moved p)"
  by (simp add: moved_def)

lemma moved_update: "c < length p \<Longrightarrow> p ! c \<noteq> c \<Longrightarrow> card (moved (p[c := c])) < card (moved p)"
  by (rule psubset_card_mono) (auto simp: moved_def nth_list_update split: if_splits)

definition exchange :: "nat \<Rightarrow> nat \<Rightarrow> nat \<Rightarrow> nat" where
  "exchange a b x = (if x = a then b else if x = b then a else x)"

lemma inj_exchange: "inj (exchange a b)"
  by (auto simp: inj_def exchange_def split: if_splits)

lemma fixed_update: "p ! j = j \<Longrightarrow> p[c := c] ! j = j"
  by (cases "c < length p") (auto simp: nth_list_update list_update_beyond)

lemma following_step:
  assumes "following n i c p P" and "p ! c \<noteq> i"
  shows "p ! c \<noteq> c" "p ! c < n" "following n i (p ! c) (p[c := c]) (exchange c (p ! c) \<circ> P)"
proof -
  note f = followingD [OF assms(1)]
  have Pc: "P c = p ! c"
    using f(6) [OF f(3)] assms(2) by simp
  show fixed: "p ! c \<noteq> c"
    using assms(2) f(8) [OF _ f(3)] by metis
  show less: "p ! c < n"
    using f(5) [OF f(3)] Pc by simp
  have inj: "j = c" if "j < n" "P j = p ! c" for j
    using inj_onD [OF f(4), of j c] that f(3) Pc by simp
  have not_c: "p ! j \<noteq> c" if "j < n" "\<not> (p ! j = i \<and> j \<noteq> i)" "j \<noteq> c" for j
    using that f(8) [OF _ that(1)] by metis
  have "(exchange c (p ! c) \<circ> P) j = (if p[c := c] ! j = i \<and> j \<noteq> i then p ! c else p[c := c] ! j)" if j: "j < n" for j
  proof (cases "j = c")
    case True
    then show ?thesis
      using f(1,3) Pc by (simp add: exchange_def)
  next
    case False
    then show ?thesis
      using f(6) [OF j] inj [OF j] not_c [OF j] by (auto simp: exchange_def)
  qed
  moreover have "inj_on (exchange c (p ! c) \<circ> P) {..<n}"
    using f(4) inj_exchange by (blast intro: comp_inj_on inj_on_subset)
  moreover have "(exchange c (p ! c) \<circ> P) ` {..<n} \<subseteq> {..<n}"
    using f(3,5) less by (auto simp: exchange_def)
  moreover have "p[c := c] ! j \<noteq> p ! c" if "j < n" for j
    using f(1,3) f(6) [OF that] that inj [OF that] fixed assms(2) by (cases "j = c") auto
  moreover have "p[c := c] ! i = i"
    using f(1-3,7) by (cases "c = i") auto
  ultimately show "following n i (p ! c) (p[c := c]) (exchange c (p ! c) \<circ> P)"
    using f(1,2) less unfolding following_def by simp
qed

lemma following_end:
  assumes "following n i c p P" and "p ! c = i"
  shows "j < n \<Longrightarrow> p[c := c] ! j = P j" "p[c := c] ! i = i"
proof -
  note f = followingD [OF assms(1)]
  have Pc: "P c = c"
    using f(6) [OF f(3)] assms(2) by (simp split: if_splits)
  show "p[c := c] ! j = P j" if "j < n"
  proof (cases "j = c")
    case False
    then have "P j \<noteq> c"
      using inj_onD [OF f(4), of j c] that f(3) Pc by auto
    with f(6) [OF that] False show ?thesis
      by (simp split: if_splits)
  qed (use f(1,3) Pc in simp)
  show "p[c := c] ! i = i"
    using f(1-3,7) by (cases "c = i") simp_all
qed

lemma swap_at_exchange:
  assumes "a < length v" and "b < length v"
  shows "\<exists>v'. swap_at a b v = Inr v' \<and> length v' = length v \<and> (\<forall>x < length v. v' ! exchange a b x = v ! x)"
  using assms by (auto simp: swap_at_def exchange_def nth_list_update)

text \<open>Following a cycle ends; the order that the permutation describes is kept, and \<open>i\<close> is done.\<close>

lemma cycle_loop_returns:
  assumes "following n i c p P" and "length v = n"
  shows "\<exists>p' v'. cycle_loop i c p v = Some (Inr (p', v')) \<and> length p' = n \<and> length v' = n \<and> p' ! i = i \<and>
    inj_on ((!) p') {..<n} \<and> (!) p' ` {..<n} \<subseteq> {..<n} \<and>
    (\<forall>j < n. v' ! (p' ! j) = v ! P j) \<and> (\<forall>j < n. p ! j = j \<longrightarrow> p' ! j = j)"
  using assms
proof (induction "card (moved p)" arbitrary: c p P v rule: less_induct)
  case less
  note f = followingD [OF less.prems(1)]
  show ?case
  proof (cases "p ! c = i")
    case True
    have done1: "p[c := c] ! j = P j" if "j < n" for j
      using following_end(1) [OF less.prems(1) True that] .
    then have "inj_on ((!) (p[c := c])) {..<n}" "(!) (p[c := c]) ` {..<n} \<subseteq> {..<n}"
      using f(4,5) by (auto simp: inj_on_def)
    moreover have "cycle_loop i c p v = Some (Inr (p[c := c], v))"
      using f(1,3) True by (subst cycle_loop.simps) simp
    moreover have "P j = j" if "j < n" "p ! j = j" for j
      using done1 [OF that(1)] fixed_update [OF that(2), of c] by simp
    ultimately show ?thesis
      using f(1) less.prems(2) done1 following_end(2) [OF less.prems(1) True]
      by (intro exI [of _ "p[c := c]"] exI [of _ v]) simp
  next
    case False
    note step = following_step [OF less.prems(1) False]
    obtain v1 where v1: "swap_at c (p ! c) v = Inr v1" "length v1 = n" "\<forall>x < n. v1 ! exchange c (p ! c) x = v ! x"
      using swap_at_exchange [of c v "p ! c"] f(3) step(2) less.prems(2) by auto
    have loop: "cycle_loop i c p v = cycle_loop i (p ! c) (p[c := c]) v1"
      using f(1,3) False v1(1) by (subst cycle_loop.simps) simp
    have "card (moved (p[c := c])) < card (moved p)"
      using f(1,3) step(1) by (intro moved_update) simp_all
    from less.hyps [OF this step(3) v1(2)] obtain p' v' where
      "cycle_loop i (p ! c) (p[c := c]) v1 = Some (Inr (p', v'))" "length p' = n" "length v' = n" "p' ! i = i"
      "inj_on ((!) p') {..<n}" "(!) p' ` {..<n} \<subseteq> {..<n}"
      "\<forall>j < n. v' ! (p' ! j) = v1 ! exchange c (p ! c) (P j)" "\<forall>j < n. p[c := c] ! j = j \<longrightarrow> p' ! j = j"
      by auto
    moreover have "v1 ! exchange c (p ! c) (P j) = v ! P j" if "j < n" for j
      using v1(3) f(5) [OF that] by simp
    ultimately show ?thesis
      unfolding loop using fixed_update by (intro exI [of _ p'] exI [of _ v']) simp
  qed
qed

section \<open>All cycles\<close>

lemma following_start:
  assumes "length p = n" and "i < n" and "inj_on ((!) p) {..<n}" and "(!) p ` {..<n} \<subseteq> {..<n}"
  shows "following n i i p ((!) p)"
  using assms by (auto simp: following_def)

lemma permutation_loop_returns:
  assumes "length p = n" and "length v = n" and "inj_on ((!) p) {..<n}" and "(!) p ` {..<n} \<subseteq> {..<n}"
    and "\<forall>j < k. p ! j = j" and "k \<le> n"
  shows "permutation_loop [k..<n] p v = Some (Inr (map (\<lambda>j. v ! (p ! j)) [0..<n]))"
  using assms
proof (induction "n - k" arbitrary: k p v)
  case 0
  then have "map (\<lambda>j. v ! (p ! j)) [0..<n] = v"
    by (intro nth_equalityI) simp_all
  with 0 show ?case
    by simp
next
  case (Suc d)
  then have k: "k < n"
    by simp
  obtain p' v' where loop: "cycle_loop k k p v = Some (Inr (p', v'))" "length p' = n" "length v' = n" "p' ! k = k"
      "inj_on ((!) p') {..<n}" "(!) p' ` {..<n} \<subseteq> {..<n}" "\<forall>j < n. v' ! (p' ! j) = v ! (p ! j)"
      "\<forall>j < n. p ! j = j \<longrightarrow> p' ! j = j"
    using cycle_loop_returns [OF following_start [OF Suc.prems(1) k Suc.prems(3,4)] Suc.prems(2)] by blast
  have "\<forall>j < Suc k. p' ! j = j"
    using loop(4,8) Suc.prems(5) k by (auto simp: less_Suc_eq)
  then have "permutation_loop [Suc k..<n] p' v' = Some (Inr (map (\<lambda>j. v' ! (p' ! j)) [0..<n]))"
    using Suc.hyps(2) k by (intro Suc.hyps(1) loop) simp_all
  moreover have "map (\<lambda>j. v' ! (p' ! j)) [0..<n] = map (\<lambda>j. v ! (p ! j)) [0..<n]"
    using loop(7) by simp
  ultimately show ?case
    using k loop(1) by (simp add: upt_conv_Cons)
qed

lemma all_found_permutation:
  assumes "{..<length p} \<subseteq> set p"
  shows "inj_on ((!) p) {..<length p}" "(!) p ` {..<length p} \<subseteq> {..<length p}"
proof -
  have "card (set p) \<le> card {..<length p}"
    using card_length [of p] by simp
  then have set: "{..<length p} = set p"
    by (intro card_seteq) (use assms in simp_all)
  then have "distinct p"
    by (metis card_distinct card_lessThan)
  then show "inj_on ((!) p) {..<length p}"
    by (simp add: inj_on_nth)
  show "(!) p ` {..<length p} \<subseteq> {..<length p}"
    using set nth_mem by blast
qed

section \<open>Properties\<close>

text \<open>
  C38. \<open>apply_permutation\<close> ends on every input, with no access outside the vectors. For a permutation of the indices of
  the vector it returns the vector whose \<open>j\<close>-th element is the one the permutation
  names; every other list of indices is refused with an exception.
\<close>

theorem apply_permutation_correct:
  "apply_permutation p v =
     (if length p = length v \<and> set p = {..<length v} then Some (Inr (map (\<lambda>j. v ! (p ! j)) [0..<length v])) else Some (Inl Runtime_error))"
proof -
  have found: "list_all (\<lambda>n. List.member p n) [0..<length p] \<longleftrightarrow> {..<length p} \<subseteq> set p"
    by (auto simp: list_all_iff List.member_iff)
  have "set p = {..<length p}" if "{..<length p} \<subseteq> set p"
    using that all_found_permutation(2) [OF that] by (auto simp: set_conv_nth)
  then have iff: "{..<length p} \<subseteq> set p \<longleftrightarrow> set p = {..<length p}"
    by blast
  show ?thesis
  proof (cases "length p = length v \<and> set p = {..<length v}")
    case True
    then have subset: "{..<length p} \<subseteq> set p"
      by simp
    have "permutation_loop [0..<length v] p v = Some (Inr (map (\<lambda>j. v ! (p ! j)) [0..<length v]))"
      using True all_found_permutation [OF subset] by (intro permutation_loop_returns) simp_all
    with True show ?thesis
      unfolding apply_permutation_def found by simp
  next
    case False
    then show ?thesis
      unfolding apply_permutation_def found iff by (cases "length p = length v") simp_all
  qed
qed

end
