(* ===== verification/Combinator.thy ===== *)
theory Combinator
  imports Gyro_Prelude
begin

text \<open>
  \<open>common/combinator.h\<close> and \<open>combinator.cpp\<close>: the combinations of \<open>k\<close> elements of a vector, and their number. The
  member variable \<open>current\<close> is an argument, \<open>combinations\<close> the list that is returned. The
  theorem says that \<open>combine\<close> lists the subsequences of length \<open>k\<close>, each once and in order, and
  that \<open>combinations_count\<close> is their number.
\<close>

section \<open>Definitions\<close>

text \<open>
  \<open>combine\<close> calls \<open>doCombine\<close> with \<open>1 \<le> k \<le> size\<close>, and the recursion keeps that: every index is then in range and
  \<open>origin.size() - k\<close> does not wrap. The first equation is the loop body for \<open>k = 0\<close>, which is never called.
\<close>

fun doCombine :: "'a list \<Rightarrow> nat \<Rightarrow> nat list \<Rightarrow> nat \<Rightarrow> 'a list list" where
  "doCombine origin 0 current start = map (\<lambda>i. map ((!) origin) (current @ [i])) [start..<Suc (length origin)]"
| "doCombine origin (Suc k) current start =
     concat (map (\<lambda>i. if Suc k > 1 then doCombine origin k (current @ [i]) (i + 1) else [map ((!) origin) (current @ [i])])
       [start..<Suc (length origin - Suc k)])"

definition combine :: "'a list \<Rightarrow> nat \<Rightarrow> 'a list list result" where
  "combine origin k =
     (if k > length origin then Inl Runtime_error
      else if k = 0 then Inl Runtime_error
      else Inr (doCombine origin k [] 0))"

fun count_loop :: "nat list \<Rightarrow> u32 \<Rightarrow> u64 \<Rightarrow> u64" where
  "count_loop [] n c = c"
| "count_loop (i # is) n c = count_loop is (n - 1) (c * ucast n div of_nat i)"

definition combinations_count :: "u32 \<Rightarrow> u32 \<Rightarrow> u64 result" where
  "combinations_count k n = (if k > n then Inl Runtime_error else Inr (count_loop [1..<Suc (unat k)] n 1))"

section \<open>Subsequences of a given length\<close>

definition ksubs :: "nat \<Rightarrow> 'a list \<Rightarrow> 'a list list" where
  "ksubs k xs = filter (\<lambda>s. length s = k) (subseqs xs)"

lemma ksubs_Suc: "ksubs (Suc k) [] = []" "ksubs (Suc k) (x # xs) = map ((#) x) (ksubs k xs) @ ksubs (Suc k) xs"
  by (simp_all add: ksubs_def Let_def filter_map o_def)

lemma ksubs_0: "ksubs 0 xs = [[]]"
  by (induction xs) (simp_all add: ksubs_def Let_def filter_map o_def)

lemma ksubs_short: "length xs < k \<Longrightarrow> ksubs k xs = []"
proof (induction xs arbitrary: k)
  case Nil
  then show ?case
    by (cases k) (simp_all add: ksubs_Suc)
next
  case (Cons x xs)
  then show ?case
    by (cases k) (simp_all add: ksubs_Suc)
qed

lemma length_ksubs: "length (ksubs k xs) = length xs choose k"
proof (induction xs arbitrary: k)
  case Nil
  then show ?case
    by (cases k) (simp_all add: ksubs_0 ksubs_Suc)
next
  case (Cons x xs)
  then show ?case
    by (cases k) (simp_all add: ksubs_0 ksubs_Suc)
qed

text \<open>The loop over the first element, when the others are chosen after it.\<close>

lemma combine_loop_ksubs:
  assumes "Suc k \<le> length origin"
  shows "concat (map (\<lambda>i. map (\<lambda>s. pre @ origin ! i # s) (ksubs k (drop (Suc i) origin))) [start..<Suc (length origin - Suc k)]) =
    map ((@) pre) (ksubs (Suc k) (drop start origin))"
proof (induction "length origin - start" arbitrary: start)
  case 0
  then have "\<not> start < Suc (length origin - Suc k)"
    using assms by simp
  with 0 show ?case
    by (simp add: ksubs_Suc del: upt_Suc)
next
  case (Suc d)
  show ?case
  proof (cases "start < Suc (length origin - Suc k)")
    case True
    then have "[start..<Suc (length origin - Suc k)] = start # [Suc start..<Suc (length origin - Suc k)]"
        "drop start origin = origin ! start # drop (Suc start) origin"
      using Suc(2) by (simp_all add: upt_conv_Cons Cons_nth_drop_Suc del: upt_Suc)
    with Suc(1) [of "Suc start"] Suc(2) show ?thesis
      by (simp add: ksubs_Suc o_def del: upt_Suc)
  next
    case False
    then show ?thesis
      using assms by (simp add: ksubs_short del: upt_Suc)
  qed
qed

lemma doCombine_ksubs:
  assumes "Suc k \<le> length origin"
  shows "doCombine origin (Suc k) current start = map ((@) (map ((!) origin) current)) (ksubs (Suc k) (drop start origin))"
  using assms
proof (induction k arbitrary: current start)
  case 0
  then show ?case
    using combine_loop_ksubs [of 0 origin "map ((!) origin) current" start] by (simp add: ksubs_0 del: upt_Suc)
next
  case (Suc k)
  have rest: "doCombine origin (Suc k) (current @ [i]) (i + 1) =
      map (\<lambda>s. map ((!) origin) current @ origin ! i # s) (ksubs (Suc k) (drop (Suc i) origin))" for i
    using Suc.IH [of "current @ [i]" "i + 1"] Suc.prems by (simp del: doCombine.simps)
  have "doCombine origin (Suc (Suc k)) current start =
      concat (map (\<lambda>i. doCombine origin (Suc k) (current @ [i]) (i + 1)) [start..<Suc (length origin - Suc (Suc k))])"
    by (subst doCombine.simps) (simp del: doCombine.simps upt_Suc)
  then show ?case
    unfolding rest using combine_loop_ksubs [OF Suc.prems, of "map ((!) origin) current" start] by simp
qed

section \<open>Their number\<close>

lemma next_binomial: "(n choose i) * (n - i) = Suc i * (n choose Suc i)"
  using binomial_absorption [of i n] binomial_absorb_comp [of n i] by (simp add: mult.commute)

lemma count_loop_binomial:
  assumes "i \<le> k" and "k \<le> N" and "N < 2 ^ 32" and "unat n = N - i" and "unat c = N choose i"
    and "\<forall>j \<le> k. j * (N choose j) < 2 ^ 64"
  shows "unat (count_loop [Suc i..<Suc k] n c) = N choose k"
  using assms(1,4,5)
proof (induction "k - i" arbitrary: i n c)
  case 0
  then show ?case
    by simp
next
  case (Suc d)
  then have i: "Suc i \<le> k" "i < N"
    using assms(2) by simp_all
  have small: "Suc i < 2 ^ 64"
    using i assms(3) by simp
  have "unat (ucast n :: u64) = N - i"
    using Suc.prems(2) assms(3) by (simp add: unsigned_ucast_eq take_bit_nat_eq_self)
  then have product: "unat c * unat (ucast n :: u64) = Suc i * (N choose Suc i)"
    using next_binomial [of N i] Suc.prems(3) by simp
  then have "unat (c * ucast n) = Suc i * (N choose Suc i)"
    using assms(6) i(1) unat_mult_lem [of c "ucast n"] by (simp del: mult_Suc)
  moreover have "unat (of_nat (Suc i) :: u64) = Suc i"
    using small by (simp add: unat_of_nat del: of_nat_Suc)
  ultimately have "unat (c * ucast n div of_nat (Suc i)) = N choose Suc i"
    unfolding unat_div by (simp del: of_nat_Suc mult_Suc)
  moreover have "unat (n - 1) = N - Suc i"
    using i(2) Suc.prems(2) by (simp add: unat_sub word_le_nat_alt)
  ultimately have "unat (count_loop [Suc (Suc i)..<Suc k] (n - 1) (c * ucast n div of_nat (Suc i))) = N choose k"
    using Suc.hyps(2) i by (intro Suc.hyps(1)) simp_all
  then show ?case
    using i(1) by (subst upt_conv_Cons) (simp_all del: upt_Suc of_nat_Suc)
qed

lemma combinations_count_binomial:
  assumes "k \<le> n" and "\<forall>j \<le> unat k. j * (unat n choose j) < 2 ^ 64"
  shows "\<exists>c. combinations_count k n = Inr c \<and> unat c = unat n choose unat k"
proof -
  have "unat n < 2 ^ 32"
    using unsigned_less [of n, where 'a = nat] by simp
  then have "unat (count_loop [Suc 0..<Suc (unat k)] n 1) = unat n choose unat k"
    using assms by (intro count_loop_binomial) (simp_all add: word_le_nat_alt)
  then show ?thesis
    using assms(1) by (simp add: combinations_count_def not_less del: upt_Suc)
qed

section \<open>Properties\<close>

text \<open>
  \<open>combine\<close> returns the subsequences of length \<open>k\<close> of the vector, in lexicographic order of
  their positions, and throws for \<open>k = 0\<close> and for \<open>k\<close> above the size. Their number is what
  \<open>combinations_count\<close> returns, as long as its products fit 64 bits.
\<close>

theorem combine_complete:
  assumes "\<forall>j \<le> unat k. j * (unat n choose j) < 2 ^ 64" and "length origin = unat n"
  shows "if 0 < k \<and> k \<le> n
    then combine origin (unat k) = Inr (filter (\<lambda>s. length s = unat k) (subseqs origin)) \<and>
      map_sum id unat (combinations_count k n) = Inr (length (filter (\<lambda>s. length s = unat k) (subseqs origin)))
    else combine origin (unat k) = Inl Runtime_error"
proof (cases "0 < k \<and> k \<le> n")
  case True
  then have k: "0 < unat k" "unat k \<le> length origin"
    using assms(2) by (simp_all add: word_less_nat_alt word_le_nat_alt)
  then obtain l where "unat k = Suc l"
    by (metis gr0_conv_Suc)
  then have "doCombine origin (unat k) [] 0 = ksubs (unat k) origin"
    using doCombine_ksubs [of l origin "[]" 0] k(2) by (simp add: map_idI del: doCombine.simps)
  moreover obtain c where "combinations_count k n = Inr c" "unat c = unat n choose unat k"
    using combinations_count_binomial [of k n] True assms(1) by blast
  ultimately show ?thesis
    using True k assms(2) length_ksubs [of "unat k" origin] by (simp add: combine_def ksubs_def)
next
  case False
  then show ?thesis
    using assms(2) by (auto simp: combine_def word_less_nat_alt word_le_nat_alt)
qed

theorem combine_complete_witness:
  "combine [10, 20, 30 :: nat] 2 = Inr [[10, 20], [10, 30], [20, 30]] \<and> map_sum id unat (combinations_count 2 3) = Inr 3"
proof -
  have "\<forall>j \<le> unat (2 :: u32). j * (unat (3 :: u32) choose j) < 2 ^ 64"
  proof -
    have "list_all (\<lambda>j. j * (3 choose j) < (2 :: nat) ^ 64) [0..<3]"
      by (simp add: upt_rec choose_two numeral_2_eq_2 [symmetric])
    then show ?thesis
      by (simp add: list_all_iff)
  qed
  moreover have "filter (\<lambda>s. length s = 2) (subseqs [10, 20, 30 :: nat]) = [[10, 20], [10, 30], [20, 30]]"
    by code_simp
  ultimately show ?thesis
    using combine_complete [of 2 3 "[10, 20, 30 :: nat]"] by simp
qed

end
