(* ===== verification/Hex.thy ===== *)
theory Hex
  imports Gyro_Prelude
begin

unbundle bit_operations_syntax

text \<open>
  \<open>contrib/epee/src/hex.cpp\<close> and the table \<open>isx\<close> of \<open>storages/parserse_base_utils.h\<close>: hexadecimal text. A
  \<open>false\<close> of the decoders is \<open>None\<close>, an exception an error. The theorem says that a text decodes to given bytes exactly
  when it is their encoding up to the case of the letters; a second group of lemmas shows that the reader of
  separated text (\<open>from_hex_locale\<close>) stays within its input and agrees with the plain one.
\<close>

section \<open>Definitions\<close>

definition isx :: "byte list" where
  "isx = [
     0xff, 0xff, 0xff, 0xff, 0xff, 0xff, 0xff, 0xff, 0xff, 0xff, 0xff, 0xff, 0xff, 0xff, 0xff, 0xff,
     0xff, 0xff, 0xff, 0xff, 0xff, 0xff, 0xff, 0xff, 0xff, 0xff, 0xff, 0xff, 0xff, 0xff, 0xff, 0xff,
     0xff, 0xff, 0xff, 0xff, 0xff, 0xff, 0xff, 0xff, 0xff, 0xff, 0xff, 0xff, 0xff, 0xff, 0xff, 0xff,
     0, 1, 2, 3, 4, 5, 6, 7, 8, 9, 0xff, 0xff, 0xff, 0xff, 0xff, 0xff,
     0xff, 10, 11, 12, 13, 14, 15, 0xff, 0xff, 0xff, 0xff, 0xff, 0xff, 0xff, 0xff, 0xff,
     0xff, 0xff, 0xff, 0xff, 0xff, 0xff, 0xff, 0xff, 0xff, 0xff, 0xff, 0xff, 0xff, 0xff, 0xff, 0xff,
     0xff, 10, 11, 12, 13, 14, 15, 0xff, 0xff, 0xff, 0xff, 0xff, 0xff, 0xff, 0xff, 0xff,
     0xff, 0xff, 0xff, 0xff, 0xff, 0xff, 0xff, 0xff, 0xff, 0xff, 0xff, 0xff, 0xff, 0xff, 0xff, 0xff,
     0xff, 0xff, 0xff, 0xff, 0xff, 0xff, 0xff, 0xff, 0xff, 0xff, 0xff, 0xff, 0xff, 0xff, 0xff, 0xff,
     0xff, 0xff, 0xff, 0xff, 0xff, 0xff, 0xff, 0xff, 0xff, 0xff, 0xff, 0xff, 0xff, 0xff, 0xff, 0xff,
     0xff, 0xff, 0xff, 0xff, 0xff, 0xff, 0xff, 0xff, 0xff, 0xff, 0xff, 0xff, 0xff, 0xff, 0xff, 0xff,
     0xff, 0xff, 0xff, 0xff, 0xff, 0xff, 0xff, 0xff, 0xff, 0xff, 0xff, 0xff, 0xff, 0xff, 0xff, 0xff,
     0xff, 0xff, 0xff, 0xff, 0xff, 0xff, 0xff, 0xff, 0xff, 0xff, 0xff, 0xff, 0xff, 0xff, 0xff, 0xff,
     0xff, 0xff, 0xff, 0xff, 0xff, 0xff, 0xff, 0xff, 0xff, 0xff, 0xff, 0xff, 0xff, 0xff, 0xff, 0xff,
     0xff, 0xff, 0xff, 0xff, 0xff, 0xff, 0xff, 0xff, 0xff, 0xff, 0xff, 0xff, 0xff, 0xff, 0xff, 0xff,
     0xff, 0xff, 0xff, 0xff, 0xff, 0xff, 0xff, 0xff, 0xff, 0xff, 0xff, 0xff, 0xff, 0xff, 0xff, 0xff]"

definition hex_digits :: blob where
  "hex_digits = map of_char ''0123456789abcdef''"

fun write_hex :: "blob \<Rightarrow> blob" where
  "write_hex [] = []"
| "write_hex (byte # src) = hex_digits ! unat (drop_bit 4 byte) # hex_digits ! unat (byte AND 0x0F) # write_hex src"

definition to_hex :: "blob \<Rightarrow> blob result" where
  "to_hex src = (if (2 ^ 64 - 1) div 2 < length src then Inl Runtime_error else Inr (write_hex src))"

text \<open>The loop reads two letters at a time; a text of odd length is refused before it starts.\<close>

fun hex_loop :: "blob \<Rightarrow> blob option" where
  "hex_loop (c # c2 # src) =
     (let tmp = isx ! unat c in
      if tmp = 0xff then None
      else let t2 = isx ! unat c2 in
        if t2 = 0xff then None
        else case hex_loop src of None \<Rightarrow> None | Some dst \<Rightarrow> Some ((push_bit 4 tmp OR t2) # dst))"
| "hex_loop _ = Some []"

definition to_buffer_unchecked :: "blob \<Rightarrow> blob option" where
  "to_buffer_unchecked s = (if length s mod 2 \<noteq> 0 then None else hex_loop s)"

definition from_hex :: "blob \<Rightarrow> blob option" where
  "from_hex src = to_buffer_unchecked src"

definition to_buffer :: "nat \<Rightarrow> blob \<Rightarrow> blob option" where
  "to_buffer out_size src = (if length src div 2 \<noteq> out_size then None else to_buffer_unchecked src)"

text \<open>\<open>sizeof\<close> the type that is filled is the first argument.\<close>

definition hex_to_pod :: "nat \<Rightarrow> blob \<Rightarrow> blob option" where
  "hex_to_pod pod_size hex_str = to_buffer pod_size hex_str"

subsection \<open>Text with separators\<close>

text \<open>\<open>std::isspace\<close> and \<open>std::tolower\<close> of the C locale.\<close>

definition isspace :: "byte \<Rightarrow> bool" where
  "isspace c \<longleftrightarrow> c = 32 \<or> 9 \<le> c \<and> c \<le> 13"

definition tolower :: "byte \<Rightarrow> byte" where
  "tolower c = (if 65 \<le> c \<and> c \<le> 90 then c + 32 else c)"

definition include_char :: "byte \<Rightarrow> bool" where
  "include_char input \<longleftrightarrow> \<not> isspace input \<and> input \<noteq> of_char CHR '':''"

definition char_to_int :: "byte \<Rightarrow> byte result" where
  "char_to_int input =
     (let c = tolower input in
      if 48 \<le> c \<and> c \<le> 57 then Inr (c - 48)
      else if 97 \<le> c \<and> c \<le> 102 then Inr (c - 97 + 10)
      else Inl Runtime_error)"

fun to_vector_loop :: "blob \<Rightarrow> blob result" where
  "to_vector_loop [] = Inr []"
| "to_vector_loop (c # data) =
     (if \<not> include_char c then to_vector_loop data
      else and_then (char_to_int c) (\<lambda>high.
        case data of
          [] \<Rightarrow> Inl Out_of_range
        | c2 # data \<Rightarrow>
            and_then (char_to_int c2) (\<lambda>low.
              and_then (to_vector_loop data) (\<lambda>result. Inr ((push_bit 4 high OR low) # result)))))"

definition to_vector :: "blob \<Rightarrow> blob result" where
  "to_vector src = (if length (filter include_char src) mod 2 \<noteq> 0 then Inl Length_error else to_vector_loop src)"

section \<open>Digits\<close>

lemma nibble_mask: "(0x0F :: byte) = mask 4"
  by (simp add: mask_eq_exp_minus_1)

lemma nibbles [simp]: "push_bit 4 (drop_bit 4 b) OR (b AND 0x0F) = b" for b :: byte
  unfolding nibble_mask by (auto intro!: bit_word_eqI simp: bit_simps)

lemma joined_nibbles:
  fixes x y :: byte
  assumes "unat x < 16" and "unat y < 16"
  shows "drop_bit 4 (push_bit 4 x OR y) = x" and "(push_bit 4 x OR y) AND 0x0F = y"
proof -
  have take: "take_bit 4 w = w" if "unat w < 16" for w :: byte
    using that by (simp add: take_bit_eq_mod word_unat_eq_iff unat_mod)
  have x: "bit x n \<longrightarrow> n < 4" and y: "bit y n \<longrightarrow> n < 4" for n
    using take [OF assms(1)] take [OF assms(2)] by (metis bit_take_bit_iff)+
  show "drop_bit 4 (push_bit 4 x OR y) = x"
    using x y by (intro bit_word_eqI) (auto simp: bit_simps)
  show "(push_bit 4 x OR y) AND 0x0F = y"
    unfolding nibble_mask using x y by (intro bit_word_eqI) (auto simp: bit_simps)
qed

lemma nibble_less [range_simps]: "unat (drop_bit 4 b) < 16" "unat (b AND 0x0F) < 16" for b :: byte
  using unat_byte_less [of b] by (simp_all add: byte_simps nibble_mask less_mult_imp_div_less)

lemma length_isx [simp]: "length isx = 256"
  by (simp add: isx_def)

text \<open>A fact on every entry of the table, from the list of the entries.\<close>

lemma all_entries:
  fixes c :: byte
  assumes "list_all2 P (map word_of_int [0..255]) isx"
  shows "P c (isx ! unat c)"
proof -
  have "P (map word_of_int [0..255] ! unat c) (isx ! unat c)"
    using list_all2_nthD2 [OF assms, of "unat c"] unat_byte_less [of c] by simp
  moreover have "[0..255] ! unat c = int (unat c)"
    using unat_byte_less [of c] by (subst nth_upto) linarith+
  then have "map word_of_int [0..255] ! unat c = c"
    using unat_byte_less [of c] by simp
  ultimately show ?thesis
    by simp
qed

lemma isx_digit: "n < 16 \<Longrightarrow> isx ! unat (hex_digits ! n) = of_nat n"
proof -
  have "list_all (\<lambda>n. isx ! unat (hex_digits ! n) = of_nat n) [0..<16]"
    by code_simp
  then show "n < 16 \<Longrightarrow> isx ! unat (hex_digits ! n) = of_nat n"
    by (simp add: list_all_iff)
qed

lemma isx_tolower: "isx ! unat (tolower c) = isx ! unat c"
proof (cases "65 \<le> c \<and> c \<le> 90")
  case True
  then have c: "65 \<le> unat c" "unat c \<le> 90"
    by (simp_all add: word_le_nat_alt)
  then have "unat (c + 32) = unat c + 32"
    by (simp add: unat_word_ariths)
  moreover have "take 26 (drop 97 isx) = take 26 (drop 65 isx)"
    by (simp add: isx_def)
  then have "take 26 (drop 97 isx) ! (unat c - 65) = take 26 (drop 65 isx) ! (unat c - 65)"
    by simp
  ultimately show ?thesis
    using True c by (simp add: tolower_def add.commute [of 32])
qed (auto simp: tolower_def)

lemma isx_inverse:
  assumes "isx ! unat c \<noteq> 0xff"
  shows "unat (isx ! unat c) < 16" and "hex_digits ! unat (isx ! unat c) = tolower c"
proof -
  have "list_all2 (\<lambda>c v. v = 0xff \<or> unat v < 16 \<and> hex_digits ! unat v = tolower c) (map word_of_int [0..255]) isx"
    by code_simp
  from all_entries [OF this, of c] assms
  show "unat (isx ! unat c) < 16" and "hex_digits ! unat (isx ! unat c) = tolower c"
    by simp_all
qed

lemma digit_iff: "unat b < 16 \<Longrightarrow> hex_digits ! unat b = tolower c \<longleftrightarrow> isx ! unat c = b"
proof
  assume b: "unat b < 16"
  show "isx ! unat c = b" if "hex_digits ! unat b = tolower c"
    using isx_digit [OF b] isx_tolower [of c] that by simp
  show "hex_digits ! unat b = tolower c" if "isx ! unat c = b"
    using isx_inverse [of c] b that by (cases "isx ! unat c = 0xff") auto
qed

section \<open>Round trip\<close>

lemma length_write_hex [simp]: "length (write_hex d) = 2 * length d"
  by (induction d) simp_all

lemma hex_loop_iff: "even (length src) \<Longrightarrow> hex_loop src = Some d \<longleftrightarrow> write_hex d = map tolower src"
proof (induction src arbitrary: d rule: hex_loop.induct)
  case (1 c c2 src)
  show ?case
  proof (cases d)
    case Nil
    then show ?thesis
      by (auto simp: Let_def split: option.splits)
  next
    case (Cons b bs)
    have "write_hex d = map tolower (c # c2 # src) \<longleftrightarrow>
      isx ! unat c = drop_bit 4 b \<and> isx ! unat c2 = b AND 0x0F \<and> write_hex bs = map tolower src"
      using digit_iff [OF nibble_less(1), of b c] digit_iff [OF nibble_less(2), of b c2] unfolding Cons by simp
    also have "\<dots> \<longleftrightarrow> hex_loop (c # c2 # src) = Some d"
    proof
      assume digits: "isx ! unat c = drop_bit 4 b \<and> isx ! unat c2 = b AND 0x0F \<and> write_hex bs = map tolower src"
      then have "isx ! unat c \<noteq> 0xff" "isx ! unat c2 \<noteq> 0xff"
        using nibble_less [of b] by auto
      with 1 digits have "hex_loop src = Some bs"
        by simp
      with digits \<open>isx ! unat c \<noteq> 0xff\<close> \<open>isx ! unat c2 \<noteq> 0xff\<close> show "hex_loop (c # c2 # src) = Some d"
        by (simp add: Cons)
    next
      assume "hex_loop (c # c2 # src) = Some d"
      then show "isx ! unat c = drop_bit 4 b \<and> isx ! unat c2 = b AND 0x0F \<and> write_hex bs = map tolower src"
        using 1 by (auto simp: Let_def Cons joined_nibbles isx_inverse simp del: drop_bit_or split: if_splits option.splits)
    qed
    finally show ?thesis
      by simp
  qed
qed (auto dest: arg_cong [where f = length])

lemma hex_loop_length: "hex_loop s = Some d \<Longrightarrow> length d = length s div 2"
  by (induction s arbitrary: d rule: hex_loop.induct) (auto simp: Let_def split: if_splits option.splits)

lemma hex_to_pod_length: "hex_to_pod n s = Some d \<Longrightarrow> length d = n"
  using hex_loop_length [of s d] by (auto simp: hex_to_pod_def to_buffer_def to_buffer_unchecked_def split: if_splits)

lemma hex_loop_zeros: "hex_loop (replicate (2 * n) 48) = Some (replicate n 0)"
  by (induction n) (simp_all add: isx_def)

text \<open>
  Hexadecimal text round trips: for every text of a size that exists, decoding gives the bytes \<open>d\<close> exactly when
  encoding \<open>d\<close> succeeds with that text in lower case. A fixed-size value is filled exactly by such a text for
  bytes of its size.
\<close>

theorem hex_roundtrip:
  assumes "length s < 2 ^ 64"
  shows "(from_hex s = Some d \<longleftrightarrow> to_hex d = Inr (map tolower s)) \<and>
    (hex_to_pod n s = Some d \<longleftrightarrow> to_hex d = Inr (map tolower s) \<and> length d = n)"
proof -
  have size: "length s = 2 * length d" if "write_hex d = map tolower s"
    using arg_cong [OF that, of length] by simp
  have "from_hex s = Some d \<longleftrightarrow> write_hex d = map tolower s"
    using hex_loop_iff [of s d] size by (auto simp: from_hex_def to_buffer_unchecked_def mod_2_eq_odd)
  moreover have "to_hex d = Inr (map tolower s) \<longleftrightarrow> write_hex d = map tolower s"
    using assms size by (cases "write_hex d = map tolower s") (auto simp: to_hex_def)
  moreover have "hex_to_pod n s = Some d \<longleftrightarrow> from_hex s = Some d \<and> length d = n"
    using size calculation(1) by (auto simp: hex_to_pod_def to_buffer_def from_hex_def)
  ultimately show ?thesis
    by blast
qed

theorem hex_roundtrip_witness: "hex_to_pod 2 (map of_char ''BEef'') = Some [0xbe, 0xef]"
proof -
  have "write_hex [0xbe, 0xef] = map tolower (map of_char ''BEef'')"
    by code_simp
  then show ?thesis
    using hex_roundtrip [of "map of_char ''BEef''" "[0xbe, 0xef]" 2] by (simp add: to_hex_def tolower_def)
qed

section \<open>Separators\<close>

text \<open>Both readers know the same digits.\<close>

lemma char_to_int_isx: "char_to_int c = (if isx ! unat c = 0xff then Inl Runtime_error else Inr (isx ! unat c))"
proof -
  have "list_all2 (\<lambda>c v. char_to_int c = (if v = 0xff then Inl Runtime_error else Inr v)) (map word_of_int [0..255]) isx"
    by code_simp
  from all_entries [OF this] show ?thesis .
qed

lemma digit_included: "isx ! unat c \<noteq> 0xff \<Longrightarrow> include_char c"
proof -
  have "list_all2 (\<lambda>c v. v \<noteq> 0xff \<longrightarrow> include_char c) (map word_of_int [0..255]) isx"
    by code_simp
  from all_entries [OF this] show "isx ! unat c \<noteq> 0xff \<Longrightarrow> include_char c"
    by simp
qed

lemma to_vector_loop_hex:
  "even (length (filter include_char s)) \<Longrightarrow>
   to_vector_loop s \<noteq> Inl Out_of_range \<and> (\<forall>v. to_vector_loop s = Inr v \<longrightarrow> hex_loop (filter include_char s) = Some v)"
proof (induction s rule: to_vector_loop.induct)
  case (2 c data)
  show ?case
  proof (cases "include_char c \<and> isx ! unat c \<noteq> 0xff")
    case True
    with 2(3) obtain c2 ds where data: "data = c2 # ds"
      by (cases data) auto
    show ?thesis
    proof (cases "isx ! unat c2 = 0xff")
      case False
      then show ?thesis
        using True 2 digit_included [of c2] by (cases "to_vector_loop ds") (auto simp: data char_to_int_isx)
    qed (use True data in \<open>simp add: char_to_int_isx\<close>)
  qed (use 2 in \<open>auto simp: char_to_int_isx\<close>)
qed simp

text \<open>
  Text with spaces and colons between the pairs of digits: the reader never looks past the end, and what it
  returns is what the plain reader returns for the text without the separators.
\<close>

lemma to_vector_from_hex:
  "to_vector s \<noteq> Inl Out_of_range \<and> (\<forall>v. to_vector s = Inr v \<longrightarrow> from_hex (filter include_char s) = Some v)"
  using to_vector_loop_hex [of s]
  by (simp add: to_vector_def from_hex_def to_buffer_unchecked_def even_iff_mod_2_eq_zero)

end
