(* ===== verification/Std_Map.thy ===== *)
theory Std_Map
  imports Main
begin

text \<open>
  \<open>std::map\<close> as its users see it: a list of entries with strictly increasing keys, which is the order of its
  iterators. The operations are the ones the sources call. The locale \<open>ordered_map\<close> is the contract the users
  rely on, and the interpretation shows that the lists satisfy it.
\<close>

section \<open>Operations\<close>

type_synonym ('k, 'v) std_map = "('k \<times> 'v) list"

text \<open>\<open>find\<close>, \<open>count\<close> and \<open>at\<close>; \<open>operator[]\<close> followed by an assignment; the element before \<open>end()\<close>; the one before \<open>upper_bound\<close>.\<close>

definition map_find :: "('k, 'v) std_map \<Rightarrow> 'k \<Rightarrow> 'v option" where
  "map_find m k = map_of m k"

fun map_put :: "'k::linorder \<Rightarrow> 'v \<Rightarrow> ('k, 'v) std_map \<Rightarrow> ('k, 'v) std_map" where
  "map_put k v [] = [(k, v)]"
| "map_put k v ((k', v') # m) =
     (if k < k' then (k, v) # (k', v') # m
      else if k = k' then (k, v) # m
      else (k', v') # map_put k v m)"

definition map_last :: "('k, 'v) std_map \<Rightarrow> 'k option" where
  "map_last m = (if m = [] then None else Some (fst (last m)))"

definition upper_bound :: "('k::linorder, 'v) std_map \<Rightarrow> 'k \<Rightarrow> nat" where
  "upper_bound m k = length (takeWhile (\<lambda>p. fst p \<le> k) m)"

definition map_below :: "('k::linorder, 'v) std_map \<Rightarrow> 'k \<Rightarrow> 'k option" where
  "map_below m k = (let it = upper_bound m k in if it = 0 then None else Some (fst (m ! (it - 1))))"

definition map_ok :: "('k::linorder, 'v) std_map \<Rightarrow> bool" where
  "map_ok m \<longleftrightarrow> sorted_wrt (<) (map fst m)"

section \<open>Contract\<close>

locale ordered_map =
  fixes ok :: "'m \<Rightarrow> bool" and look :: "'m \<Rightarrow> 'k::linorder \<Rightarrow> 'v option" and put :: "'k \<Rightarrow> 'v \<Rightarrow> 'm \<Rightarrow> 'm"
    and greatest :: "'m \<Rightarrow> 'k option" and below :: "'m \<Rightarrow> 'k \<Rightarrow> 'k option"
  assumes ok_put: "ok m \<Longrightarrow> ok (put k v m)"
    and look_put: "ok m \<Longrightarrow> look (put k v m) k' = (if k' = k then Some v else look m k')"
    and greatest_None: "ok m \<Longrightarrow> greatest m = None \<longleftrightarrow> (\<forall>k. look m k = None)"
    and greatest_Some: "ok m \<Longrightarrow> greatest m = Some g \<Longrightarrow> look m g \<noteq> None \<and> (\<forall>k. look m k \<noteq> None \<longrightarrow> k \<le> g)"
    and below_None: "ok m \<Longrightarrow> below m h = None \<longleftrightarrow> (\<forall>k. look m k \<noteq> None \<longrightarrow> h < k)"
    and below_Some: "ok m \<Longrightarrow> below m h = Some g \<Longrightarrow> look m g \<noteq> None \<and> g \<le> h \<and> (\<forall>k. look m k \<noteq> None \<longrightarrow> k \<le> h \<longrightarrow> k \<le> g)"
begin

text \<open>A key at or above \<open>h\<close> exists exactly when the greatest one is.\<close>

lemma reaches_iff: "ok m \<Longrightarrow> (\<exists>g. greatest m = Some g \<and> h \<le> g) \<longleftrightarrow> (\<exists>k. look m k \<noteq> None \<and> h \<le> k)"
proof (cases "greatest m")
  case None
  moreover assume "ok m"
  ultimately have "look m k = None" for k
    using greatest_None [of m] by simp
  with None show ?thesis
    by simp
next
  case (Some g)
  assume "ok m"
  from greatest_Some [OF this Some] have g: "look m g \<noteq> None" "look m k \<noteq> None \<Longrightarrow> k \<le> g" for k
    by blast+
  have "h \<le> g" if "look m k \<noteq> None" "h \<le> k" for k
    using that(2) g(2) [OF that(1)] by (rule order_trans)
  with g(1) show ?thesis
    unfolding Some by auto
qed

lemma greatest_is: "ok m \<Longrightarrow> greatest m = Some g \<longleftrightarrow> look m g \<noteq> None \<and> (\<forall>k. look m k \<noteq> None \<longrightarrow> k \<le> g)"
proof
  assume m: "ok m" and g: "look m g \<noteq> None \<and> (\<forall>k. look m k \<noteq> None \<longrightarrow> k \<le> g)"
  with greatest_None [OF m] obtain g' where g': "greatest m = Some g'"
    by (cases "greatest m") auto
  from greatest_Some [OF m this] g have "g' = g"
    by (blast intro: antisym)
  with g' show "greatest m = Some g"
    by simp
qed (rule greatest_Some)

text \<open>The key before \<open>upper_bound(h)\<close> is below \<open>b\<close> exactly when no key lies between \<open>b\<close> and \<open>h\<close>.\<close>

lemma between_iff:
  "ok m \<Longrightarrow> (case below m h of None \<Rightarrow> True | Some g \<Rightarrow> g < b) \<longleftrightarrow> (\<forall>k. look m k \<noteq> None \<longrightarrow> \<not> (b \<le> k \<and> k \<le> h))"
proof (cases "below m h")
  case None
  assume "ok m"
  with None have "h < k" if "look m k \<noteq> None" for k
    using below_None that by blast
  with None show ?thesis
    by (auto simp: not_le)
next
  case (Some g)
  assume "ok m"
  from below_Some [OF this Some] have g: "look m g \<noteq> None" "g \<le> h" "look m k \<noteq> None \<Longrightarrow> k \<le> h \<Longrightarrow> k \<le> g" for k
    by blast+
  have "\<not> (b \<le> k \<and> k \<le> h)" if "g < b" "look m k \<noteq> None" for k
    using g(3) [OF that(2)] that(1) by auto
  moreover have "g < b" if "\<forall>k. look m k \<noteq> None \<longrightarrow> \<not> (b \<le> k \<and> k \<le> h)"
    using g(1,2) that by (auto simp: not_le)
  ultimately show ?thesis
    unfolding Some by auto
qed

lemma put_same: "ok m \<Longrightarrow> look m k = Some v \<Longrightarrow> look (put k v m) = look m"
  by (auto simp: look_put)

text \<open>A map that only gains keys keeps its entries.\<close>

lemma look_put_mono: "ok m \<Longrightarrow> look m k \<in> {None, Some v} \<Longrightarrow> look m \<subseteq>\<^sub>m look (put k v m)"
  by (auto simp: map_le_def look_put)

end

section \<open>The lists satisfy it\<close>

lemma map_ok_Cons: "map_ok (p # m) \<longleftrightarrow> (\<forall>q \<in> set m. fst p < fst q) \<and> map_ok m"
  by (simp add: map_ok_def)

lemma map_put_keys: "fst ` set (map_put k v m) = insert k (fst ` set m)"
  by (induction k v m rule: map_put.induct) (simp_all add: insert_commute)

lemma map_put_ok: "map_ok m \<Longrightarrow> map_ok (map_put k v m)"
proof (induction m)
  case (Cons p m)
  obtain k' v' where p: "p = (k', v')"
    by fastforce
  from Cons(2) have m: "map_ok m" "\<And>q. q \<in> set m \<Longrightarrow> k' < fst q"
    by (simp_all add: map_ok_Cons p)
  consider "k < k'" | "k = k'" | "k' < k"
    by (rule linorder_cases)
  then show ?case
  proof cases
    case 1
    with m show ?thesis
      by (auto simp: map_ok_Cons p intro: order_less_trans)
  next
    case 2
    with m show ?thesis
      by (simp add: map_ok_Cons p)
  next
    case 3
    have "k' < fst q" if "q \<in> set (map_put k v m)" for q
    proof -
      have "fst q \<in> insert k (fst ` set m)"
        using that map_put_keys [of k v m] by blast
      then show ?thesis
        using m(2) 3 by auto
    qed
    moreover from 3 have "\<not> k < k'" "k \<noteq> k'"
      by auto
    ultimately show ?thesis
      using Cons(1) [OF m(1)] by (simp add: map_ok_Cons p)
  qed
qed (simp add: map_ok_def)

lemma map_find_keys: "map_find m k \<noteq> None \<longleftrightarrow> k \<in> fst ` set m"
  by (metis map_find_def map_of_eq_None_iff)

lemma map_put_find: "map_ok m \<Longrightarrow> map_find (map_put k v m) k' = (if k' = k then Some v else map_find m k')"
proof (induction m)
  case (Cons p m)
  then show ?case
    by (cases p) (auto simp: map_find_def map_ok_Cons)
qed (simp add: map_find_def)

lemma map_last_greatest:
  assumes "map_ok m" and "map_last m = Some g"
  shows "map_find m g \<noteq> None \<and> (\<forall>k. map_find m k \<noteq> None \<longrightarrow> k \<le> g)"
  using assms
proof (induction m rule: rev_induct)
  case (snoc p m)
  then show ?case
    unfolding map_find_keys by (auto simp: map_last_def map_ok_def sorted_wrt_append intro: less_imp_le)
qed (simp add: map_last_def)

lemma upper_bound_prefix: "fst ` set (take (upper_bound m h) m) \<subseteq> {..h}"
  by (auto simp: upper_bound_def simp flip: takeWhile_eq_take dest: set_takeWhileD)

lemma upper_bound_suffix: "map_ok m \<Longrightarrow> fst ` set (drop (upper_bound m h) m) \<subseteq> {h<..}"
  by (induction m) (auto simp: upper_bound_def map_ok_Cons)

lemma upper_bound_le: "upper_bound m h \<le> length m"
  by (simp add: upper_bound_def length_takeWhile_le)

lemma map_below_None: "map_ok m \<Longrightarrow> map_below m h = None \<longleftrightarrow> (\<forall>k. map_find m k \<noteq> None \<longrightarrow> h < k)"
  unfolding map_find_keys by (cases m) (auto simp: map_below_def upper_bound_def map_ok_Cons Let_def)

lemma map_below_Some:
  assumes "map_ok m" and "map_below m h = Some g"
  shows "map_find m g \<noteq> None \<and> g \<le> h \<and> (\<forall>k. map_find m k \<noteq> None \<longrightarrow> k \<le> h \<longrightarrow> k \<le> g)"
proof -
  define n where "n = upper_bound m h"
  have n: "0 < n" "n \<le> length m" "g = fst (m ! (n - 1))"
    using assms(2) upper_bound_le [of m h] by (auto simp: map_below_def n_def Let_def split: if_splits)
  have split: "m = take (n - 1) m @ m ! (n - 1) # drop n m"
    using n id_take_nth_drop [of "n - 1" m] by simp
  have "m ! (n - 1) \<in> set (take n m)"
    using n by (auto simp: in_set_conv_nth intro: exI [of _ "n - 1"])
  then have "g \<in> fst ` set m" "g \<le> h"
    using upper_bound_prefix [of m h] n(3) by (auto simp: n_def dest: in_set_takeD)
  moreover have "k \<le> g" if "k \<in> fst ` set m" "k \<le> h" for k
  proof -
    have "sorted_wrt (<) (map fst (take (n - 1) m @ m ! (n - 1) # drop n m))"
      using assms(1) split by (simp add: map_ok_def)
    moreover have "k \<notin> fst ` set (drop n m)"
      using upper_bound_suffix [OF assms(1), of h] that(2) by (auto simp: n_def)
    then have "k \<in> fst ` set (take (n - 1) m) \<union> {g}"
      using that(1) n(3) by (subst (asm) split) auto
    ultimately show ?thesis
      using n(3) by (auto simp: sorted_wrt_append intro: less_imp_le)
  qed
  ultimately show ?thesis
    unfolding map_find_keys by blast
qed

lemma map_last_None: "map_ok m \<Longrightarrow> map_last m = None \<longleftrightarrow> (\<forall>k. map_find m k = None)"
  by (cases m) (auto simp: map_last_def map_find_def)

interpretation std_map: ordered_map map_ok map_find map_put map_last map_below
  by unfold_locales
    (fact map_put_ok map_put_find map_last_None map_last_greatest map_below_None map_below_Some)+

end
