(* ===== verification/Checkpoints.thy ===== *)
theory Checkpoints
  imports Hex Std_Map
begin

text \<open>
  \<open>checkpoints/checkpoints.cpp\<close> and the reading of DNS records it relies on (\<open>common/dns_utils.cpp\<close>): the hashes that
  blocks at given heights must have. The container is a \<open>std::map\<close>; an operation returns its
  boolean and the container. Dereferencing the end of the container is the error
  \<open>Out_of_range\<close>. The JSON file and the answers of the resolver are arguments. The theorems give
  the type of every container that the operations can build, say that a block that was rejected
  stays rejected, characterise the queries, and show what happens when no checkpoint is compiled in.
\<close>

section \<open>Definitions\<close>

datatype network_type = MAINNET | TESTNET | STAGENET | FAKECHAIN | UNDEFINED

definition HASH_BYTES :: nat where
  "HASH_BYTES = 32"

record checkpoints =
  m_points :: "(u64, blob) std_map"

definition new_checkpoints :: checkpoints where
  "new_checkpoints = \<lparr>m_points = []\<rparr>"

definition add_checkpoint :: "u64 \<Rightarrow> blob \<Rightarrow> checkpoints \<Rightarrow> bool \<times> checkpoints" where
  "add_checkpoint height hash_str cp =
     (case hex_to_pod HASH_BYTES hash_str of
        None \<Rightarrow> (False, cp)
      | Some h \<Rightarrow>
          (case map_find (m_points cp) height of
             Some h' \<Rightarrow> if h = h' then (True, cp\<lparr>m_points := map_put height h (m_points cp)\<rparr>) else (False, cp)
           | None \<Rightarrow> (True, cp\<lparr>m_points := map_put height h (m_points cp)\<rparr>)))"

definition is_in_checkpoint_zone :: "u64 \<Rightarrow> checkpoints \<Rightarrow> bool" where
  "is_in_checkpoint_zone height cp \<longleftrightarrow> m_points cp \<noteq> [] \<and> height \<le> fst (last (m_points cp))"

text \<open>The second component is \<open>is_a_checkpoint\<close>.\<close>

definition check_block :: "u64 \<Rightarrow> blob \<Rightarrow> checkpoints \<Rightarrow> bool \<times> bool" where
  "check_block height h cp =
     (case map_find (m_points cp) height of None \<Rightarrow> (True, False) | Some h' \<Rightarrow> (h' = h, True))"

definition is_alternative_block_allowed :: "u64 \<Rightarrow> u64 \<Rightarrow> checkpoints \<Rightarrow> bool" where
  "is_alternative_block_allowed blockchain_height block_height cp =
     (if block_height = 0 then False
      else case map_below (m_points cp) blockchain_height of
        None \<Rightarrow> True
      | Some checkpoint_height \<Rightarrow> checkpoint_height < block_height)"

text \<open>\<open>std::max_element\<close> of a range that is not empty, by the first components.\<close>

fun max_element :: "u64 \<times> blob \<Rightarrow> (u64 \<times> blob) list \<Rightarrow> u64 \<times> blob" where
  "max_element largest [] = largest"
| "max_element largest (p # ps) = max_element (if fst largest < fst p then p else largest) ps"

definition get_max_height :: "checkpoints \<Rightarrow> u64 result" where
  "get_max_height cp = (case m_points cp of [] \<Rightarrow> Inl Out_of_range | p # ps \<Rightarrow> Inr (fst (max_element p ps)))"

definition check_for_conflicts :: "checkpoints \<Rightarrow> checkpoints \<Rightarrow> bool" where
  "check_for_conflicts other cp =
     list_all (\<lambda>pt. case map_find (m_points cp) (fst pt) of None \<Rightarrow> True | Some h \<Rightarrow> snd pt = h) (m_points other)"

text \<open>All the checkpoints of the sources are commented out.\<close>

definition init_default_checkpoints :: "network_type \<Rightarrow> checkpoints \<Rightarrow> bool \<times> checkpoints" where
  "init_default_checkpoints nettype cp =
     (if nettype = TESTNET then (True, cp) else if nettype = STAGENET then (True, cp) else (True, cp))"

subsection \<open>Checkpoints from a file\<close>

record t_hashline =
  hl_height :: u64
  hl_hash :: blob

fun add_hashlines :: "u64 \<Rightarrow> t_hashline list \<Rightarrow> checkpoints \<Rightarrow> bool \<times> checkpoints" where
  "add_hashlines prev_max_height [] cp = (True, cp)"
| "add_hashlines prev_max_height (l # ls) cp =
     (if hl_height l \<le> prev_max_height then add_hashlines prev_max_height ls cp
      else let (ok, cp) = add_checkpoint (hl_height l) (hl_hash l) cp in
        if \<not> ok then (False, cp) else add_hashlines prev_max_height ls cp)"

text \<open>The file: absent, not readable as JSON, or with its lines.\<close>

datatype json_file = Absent | Unreadable | Hashlines "t_hashline list"

definition load_checkpoints_from_json :: "json_file \<Rightarrow> checkpoints \<Rightarrow> (bool \<times> checkpoints) result" where
  "load_checkpoints_from_json json cp =
     (if json = Absent then Inr (True, cp)
      else and_then (get_max_height cp) (\<lambda>prev_max_height.
        case json of Hashlines hashlines \<Rightarrow> Inr (add_hashlines prev_max_height hashlines cp) | _ \<Rightarrow> Inr (False, cp)))"

subsection \<open>Checkpoints from DNS\<close>

definition dns_records_match :: "blob list \<Rightarrow> blob list \<Rightarrow> bool" where
  "dns_records_match a b = (if length a \<noteq> length b then False else list_all (\<lambda>r. list_ex (\<lambda>r'. r = r') b) a)"

text \<open>The answer of the resolver for a host: the records, whether DNSSEC was available and whether it validated.\<close>

record dns_answer =
  dns_records :: "blob list"
  dns_avail :: bool
  dns_valid :: bool

text \<open>The loop starts at a random host and visits every one.\<close>

definition host_order :: "nat \<Rightarrow> nat \<Rightarrow> nat list" where
  "host_order first_index n = [first_index..<n] @ [0..<first_index]"

fun clear_unvalidated :: "nat list \<Rightarrow> dns_answer list \<Rightarrow> blob list list \<Rightarrow> blob list list" where
  "clear_unvalidated [] answers records = records"
| "clear_unvalidated (cur_index # is) answers records =
     (let records = (if \<not> dns_avail (answers ! cur_index) then records[cur_index := []] else records);
          records = (if \<not> dns_valid (answers ! cur_index) then records[cur_index := []] else records) in
      clear_unvalidated is answers records)"

fun good_records_index :: "nat list \<Rightarrow> blob list list \<Rightarrow> nat option" where
  "good_records_index [] records = None"
| "good_records_index (i # is) records =
     (if records ! i = [] then good_records_index is records
      else if list_ex (\<lambda>j. dns_records_match (records ! i) (records ! j)) [i + 1..<length records] then Some i
      else good_records_index is records)"

definition load_txt_records_from_dns :: "('u \<Rightarrow> dns_answer) \<Rightarrow> nat \<Rightarrow> 'u list \<Rightarrow> blob list option" where
  "load_txt_records_from_dns resolver first_index dns_urls =
     (if dns_urls = [] then None
      else
        let answers = map resolver dns_urls;
            records = clear_unvalidated (host_order first_index (length dns_urls)) answers (map dns_records answers);
            num_valid_records = length (filter (\<lambda>record_set. record_set \<noteq> []) records) in
        if num_valid_records < 2 then None
        else case good_records_index [0..<length records - 1] records of
          None \<Rightarrow> None
        | Some i \<Rightarrow> Some (records ! i))"

text \<open>
  \<open>ss >> height\<close> for an unsigned number: white space, an optional sign, and digits; a number that does not fit
  is a failure and a minus sign negates modulo \<open>2\<^sup>6\<^sup>4\<close>.
\<close>

fun digits_number :: "nat \<Rightarrow> blob \<Rightarrow> nat" where
  "digits_number n [] = n"
| "digits_number n (c # cs) = (if 48 \<le> c \<and> c \<le> 57 then digits_number (10 * n + (unat c - 48)) cs else n)"

definition extract_u64 :: "blob \<Rightarrow> u64 option" where
  "extract_u64 s =
     (let s = dropWhile isspace s;
          negative = (s \<noteq> [] \<and> hd s = of_char CHR ''-'');
          s = (if s \<noteq> [] \<and> (hd s = of_char CHR ''-'' \<or> hd s = of_char CHR ''+'') then tl s else s) in
      if s = [] \<or> \<not> (48 \<le> hd s \<and> hd s \<le> 57) then None
      else let n = digits_number 0 s in
        if 2 ^ 64 \<le> n then None
        else Some (if negative then - of_nat n else of_nat n))"

fun add_records :: "blob list \<Rightarrow> checkpoints \<Rightarrow> bool \<times> checkpoints" where
  "add_records [] cp = (True, cp)"
| "add_records (r # rs) cp =
     (let pos = length (takeWhile (\<lambda>c. c \<noteq> of_char CHR '':'') r) in
      if pos < length r then
        (case extract_u64 (take pos r) of
           None \<Rightarrow> add_records rs cp
         | Some height \<Rightarrow>
             let hashStr = drop (pos + 1) r in
             (case hex_to_pod HASH_BYTES hashStr of
                None \<Rightarrow> add_records rs cp
              | Some hash \<Rightarrow>
                  let (ok, cp) = add_checkpoint height hashStr cp in
                  if \<not> ok then (False, cp) else add_records rs cp))
      else add_records rs cp)"

text \<open>The three lists of hosts are empty in the sources.\<close>

definition dns_urls_of :: "network_type \<Rightarrow> blob list" where
  "dns_urls_of nettype = (if nettype = TESTNET then [] else if nettype = STAGENET then [] else [])"

definition load_checkpoints_from_dns ::
  "(blob \<Rightarrow> dns_answer) \<Rightarrow> nat \<Rightarrow> network_type \<Rightarrow> checkpoints \<Rightarrow> bool \<times> checkpoints" where
  "load_checkpoints_from_dns resolver first_index nettype cp =
     (case load_txt_records_from_dns resolver first_index (dns_urls_of nettype) of
        None \<Rightarrow> (True, cp)
      | Some records \<Rightarrow> add_records records cp)"

definition load_new_checkpoints ::
  "json_file \<Rightarrow> (blob \<Rightarrow> dns_answer) \<Rightarrow> nat \<Rightarrow> network_type \<Rightarrow> bool \<Rightarrow> checkpoints \<Rightarrow> (bool \<times> checkpoints) result" where
  "load_new_checkpoints json resolver first_index nettype dns cp =
     and_then (load_checkpoints_from_json json cp) (\<lambda>(res, cp).
       if dns then
         let (r, cp) = load_checkpoints_from_dns resolver first_index nettype cp in Inr (res \<and> r, cp)
       else Inr (res, cp))"

section \<open>Containers that can be built\<close>

text \<open>The type of a container: increasing heights, and hashes of 32 bytes.\<close>

definition points_ok :: "checkpoints \<Rightarrow> bool" where
  "points_ok cp \<longleftrightarrow> map_ok (m_points cp) \<and> (\<forall>p \<in> set (m_points cp). length (snd p) = HASH_BYTES)"

definition extends :: "checkpoints \<Rightarrow> checkpoints \<Rightarrow> bool" where
  "extends cp cp' \<longleftrightarrow> points_ok cp' \<and> map_find (m_points cp) \<subseteq>\<^sub>m map_find (m_points cp')"

inductive checkpoint_step :: "checkpoints \<Rightarrow> checkpoints \<Rightarrow> bool" where
  add: "checkpoint_step cp (snd (add_checkpoint height hash_str cp))"
| init: "checkpoint_step cp (snd (init_default_checkpoints nettype cp))"
| from_json: "load_checkpoints_from_json json cp = Inr (r, cp') \<Longrightarrow> checkpoint_step cp cp'"
| records: "checkpoint_step cp (snd (add_records rs cp))"
| dns: "checkpoint_step cp (snd (load_checkpoints_from_dns resolver first_index nettype cp))"
| load_new: "load_new_checkpoints json resolver first_index nettype dns cp = Inr (r, cp') \<Longrightarrow> checkpoint_step cp cp'"

lemma points_ok_new: "points_ok new_checkpoints"
  by (simp add: points_ok_def new_checkpoints_def map_ok_def)

lemma extends_refl: "points_ok cp \<Longrightarrow> extends cp cp"
  by (simp add: extends_def)

lemma extends_trans [trans]: "extends a b \<Longrightarrow> extends b c \<Longrightarrow> extends a c"
  unfolding extends_def by (blast intro: map_le_trans)

lemma extends_ok: "extends cp cp' \<Longrightarrow> points_ok cp'"
  by (simp add: extends_def)

lemma map_put_values: "set (map_put k v m) \<subseteq> insert (k, v) (set m)"
  by (induction k v m rule: map_put.induct) auto

lemma put_extends:
  assumes "points_ok cp" and "length h = HASH_BYTES" and "map_find (m_points cp) k \<in> {None, Some h}"
  shows "extends cp (cp\<lparr>m_points := map_put k h (m_points cp)\<rparr>)"
proof -
  have "length (snd p) = HASH_BYTES" if "p \<in> set (map_put k h (m_points cp))" for p
    using assms(1,2) that map_put_values [of k h "m_points cp"] by (auto simp: points_ok_def)
  then show ?thesis
    using assms std_map.ok_put [of "m_points cp" k h] std_map.look_put_mono [of "m_points cp" k h] by (simp add: extends_def points_ok_def)
qed

lemma add_checkpoint_extends: "points_ok cp \<Longrightarrow> extends cp (snd (add_checkpoint height hash_str cp))"
  using put_extends [of cp] hex_to_pod_length [of HASH_BYTES hash_str]
  by (auto simp: add_checkpoint_def extends_refl split: option.splits)

lemma add_hashlines_extends: "points_ok cp \<Longrightarrow> extends cp (snd (add_hashlines m ls cp))"
proof (induction m ls cp rule: add_hashlines.induct)
  case (2 m l ls cp)
  have step: "extends cp (snd (add_checkpoint (hl_height l) (hl_hash l) cp))"
    by (rule add_checkpoint_extends [OF 2(3)])
  show ?case
    using 2 step extends_ok [OF step] by (auto split: prod.splits intro: extends_trans)
qed (simp add: extends_refl)

lemma add_records_extends: "points_ok cp \<Longrightarrow> extends cp (snd (add_records rs cp))"
proof (induction rs arbitrary: cp)
  case (Cons r rs)
  have step: "extends cp (snd (add_checkpoint height s cp))" for height s
    by (rule add_checkpoint_extends [OF Cons(2)])
  have "extends cp (snd (add_records rs (snd (add_checkpoint height s cp))))" for height s
    using Cons(1) [OF extends_ok [OF step]] extends_trans [OF step] by blast
  then show ?case
    using Cons(1) [OF Cons(2)] step by (simp add: Let_def case_prod_unfold split: option.splits)
qed (simp add: extends_refl)

lemma load_dns_extends: "points_ok cp \<Longrightarrow> extends cp (snd (load_checkpoints_from_dns resolver i nettype cp))"
  by (auto simp: load_checkpoints_from_dns_def add_records_extends extends_refl split: option.splits)

lemma load_json_extends: "points_ok cp \<Longrightarrow> load_checkpoints_from_json json cp = Inr (r, cp') \<Longrightarrow> extends cp cp'"
proof (cases json)
  case (Hashlines ls)
  assume "points_ok cp" "load_checkpoints_from_json json cp = Inr (r, cp')"
  then show ?thesis
    using add_hashlines_extends [of cp _ ls] by (auto simp: Hashlines load_checkpoints_from_json_def and_then_Inr) (metis snd_conv)
qed (auto simp: load_checkpoints_from_json_def and_then_Inr extends_refl)

lemma step_extends: "checkpoint_step cp cp' \<Longrightarrow> points_ok cp \<Longrightarrow> extends cp cp'"
proof (induction rule: checkpoint_step.induct)
  case (load_new json resolver first_index nettype dns cp r cp')
  then obtain r1 cp1 where json: "load_checkpoints_from_json json cp = Inr (r1, cp1)"
    and dns: "cp' = cp1 \<or> cp' = snd (load_checkpoints_from_dns resolver first_index nettype cp1)"
    by (auto simp: load_new_checkpoints_def and_then_Inr split: if_splits prod.splits)
  have "extends cp cp1"
    by (rule load_json_extends [OF load_new(2) json])
  then show ?case
    using dns load_dns_extends [of cp1 resolver first_index nettype] by (auto dest: extends_ok intro: extends_trans)
qed (simp_all add: add_checkpoint_extends init_default_checkpoints_def extends_refl load_json_extends
  add_records_extends load_dns_extends)

lemma steps_extend: "checkpoint_step\<^sup>*\<^sup>* cp cp' \<Longrightarrow> points_ok cp \<Longrightarrow> extends cp cp'"
  by (induction rule: rtranclp_induct) (auto intro: extends_refl extends_trans step_extends extends_ok)

section \<open>Queries\<close>

lemma map_last_points: "map_last m = Some k \<longleftrightarrow> m \<noteq> [] \<and> k = fst (last m)"
  by (auto simp: map_last_def)

lemma zone_iff:
  "map_ok (m_points cp) \<Longrightarrow> is_in_checkpoint_zone height cp \<longleftrightarrow> (\<exists>k. map_find (m_points cp) k \<noteq> None \<and> height \<le> k)"
  using std_map.reaches_iff [of "m_points cp" height] by (auto simp: is_in_checkpoint_zone_def map_last_points)

lemma alternative_iff:
  "map_ok (m_points cp) \<Longrightarrow> is_alternative_block_allowed chain_height height cp \<longleftrightarrow>
     height \<noteq> 0 \<and> \<not> (\<exists>k. map_find (m_points cp) k \<noteq> None \<and> height \<le> k \<and> k \<le> chain_height)"
  using std_map.between_iff [where m = "m_points cp" and h = chain_height and b = height]
  by (auto simp: is_alternative_block_allowed_def)

lemma max_element_last: "map_ok (p # ps) \<Longrightarrow> max_element p ps = last (p # ps)"
proof (induction p ps rule: max_element.induct)
  case (2 largest p ps)
  then have "fst largest < fst p" "map_ok (p # ps)"
    by (simp_all add: map_ok_Cons)
  with 2 show ?case
    by simp
qed simp

lemma max_height_iff:
  assumes "map_ok (m_points cp)"
  shows "get_max_height cp = Inr g \<longleftrightarrow>
    map_find (m_points cp) g \<noteq> None \<and> (\<forall>k. map_find (m_points cp) k \<noteq> None \<longrightarrow> k \<le> g)"
proof -
  have "get_max_height cp = Inr g \<longleftrightarrow> map_last (m_points cp) = Some g"
    using assms max_element_last by (auto simp: get_max_height_def map_last_points split: list.splits)
  also have "\<dots> \<longleftrightarrow> map_find (m_points cp) g \<noteq> None \<and> (\<forall>k. map_find (m_points cp) k \<noteq> None \<longrightarrow> k \<le> g)"
    using std_map.greatest_is [OF assms] .
  finally show ?thesis .
qed

lemma conflicts_iff:
  assumes "map_ok (m_points other)"
  shows "check_for_conflicts other cp \<longleftrightarrow>
    (\<forall>k h h'. map_find (m_points cp) k = Some h \<and> map_find (m_points other) k = Some h' \<longrightarrow> h = h')"
proof -
  have "distinct (map fst (m_points other))"
    using assms by (auto simp: map_ok_def strict_sorted_iff)
  then have entries: "p \<in> set (m_points other) \<longleftrightarrow> map_find (m_points other) (fst p) = Some (snd p)" for p
    by (cases p) (simp add: map_find_def)
  have "check_for_conflicts other cp \<longleftrightarrow>
    (\<forall>p. p \<in> set (m_points other) \<longrightarrow> (\<forall>h. map_find (m_points cp) (fst p) = Some h \<longrightarrow> snd p = h))"
    unfolding check_for_conflicts_def list_all_iff by (intro iffI ballI allI impI) (auto split: option.split_asm option.split)
  also have "\<dots> \<longleftrightarrow> (\<forall>k h h'. map_find (m_points cp) k = Some h \<and> map_find (m_points other) k = Some h' \<longrightarrow> h = h')"
    unfolding entries by (auto simp: eq_commute)
  finally show ?thesis .
qed

section \<open>DNS records\<close>

lemma length_clear_unvalidated [simp]: "length (clear_unvalidated is answers records) = length records"
  by (induction "is" answers records rule: clear_unvalidated.induct) (simp_all add: Let_def)

lemma clear_unvalidated_nth:
  "k < length records \<Longrightarrow> set is \<subseteq> {..<length records} \<Longrightarrow>
   clear_unvalidated is answers records ! k =
     (if k \<in> set is \<and> \<not> (dns_avail (answers ! k) \<and> dns_valid (answers ! k)) then [] else records ! k)"
  by (induction "is" answers records rule: clear_unvalidated.induct) (auto simp: Let_def nth_list_update)

text \<open>The records of a host that count: none unless DNSSEC was available and validated.\<close>

definition trusted_records :: "dns_answer \<Rightarrow> blob list" where
  "trusted_records a = (if dns_avail a \<and> dns_valid a then dns_records a else [])"

lemma set_host_order: "first_index < n \<Longrightarrow> set (host_order first_index n) = {..<n}"
  by (auto simp: host_order_def)

lemma cleared_records:
  "first_index < length dns_urls \<Longrightarrow>
   clear_unvalidated (host_order first_index (length dns_urls)) (map resolver dns_urls) (map dns_records (map resolver dns_urls)) =
     map (\<lambda>u. trusted_records (resolver u)) dns_urls"
  by (rule nth_equalityI) (auto simp: clear_unvalidated_nth set_host_order trusted_records_def)

definition agree :: "blob list list \<Rightarrow> nat \<Rightarrow> nat \<Rightarrow> bool" where
  "agree records i j \<longleftrightarrow> i < j \<and> j < length records \<and> records ! i \<noteq> [] \<and> dns_records_match (records ! i) (records ! j)"

lemma good_records_index_None: "good_records_index is records = None \<longleftrightarrow> \<not> (\<exists>i \<in> set is. \<exists>j. agree records i j)"
  by (induction "is" records rule: good_records_index.induct) (auto simp: agree_def list_ex_iff Suc_le_eq)

lemma good_records_index_Some: "good_records_index is records = Some i \<Longrightarrow> \<exists>j. agree records i j"
  by (induction "is" records rule: good_records_index.induct) (auto simp: agree_def list_ex_iff Suc_le_eq split: if_splits)

lemma agree_counts: "agree records i j \<Longrightarrow> 2 \<le> length (filter (\<lambda>r. r \<noteq> []) records)"
proof -
  assume a: "agree records i j"
  then have "records ! j \<noteq> []"
    by (auto simp: agree_def dns_records_match_def split: if_splits)
  with a have "{i, j} \<subseteq> {k. k < length records \<and> records ! k \<noteq> []}" "card {i, j} = 2"
    by (auto simp: agree_def)
  then show ?thesis
    unfolding length_filter_conv_card using card_mono [of "{k. k < length records \<and> records ! k \<noteq> []}" "{i, j}"] by simp
qed

lemma load_txt_records_agree:
  assumes "first_index < length dns_urls" and "records = map (\<lambda>u. trusted_records (resolver u)) dns_urls"
  shows "load_txt_records_from_dns resolver first_index dns_urls = None \<longleftrightarrow> \<not> (\<exists>i j. agree records i j)"
    and "load_txt_records_from_dns resolver first_index dns_urls = Some good \<Longrightarrow> \<exists>i j. agree records i j \<and> good = records ! i"
proof -
  have body: "load_txt_records_from_dns resolver first_index dns_urls =
    (if length (filter (\<lambda>r. r \<noteq> []) records) < 2 then None
     else case good_records_index [0..<length records - 1] records of None \<Rightarrow> None | Some i \<Rightarrow> Some (records ! i))"
    using assms(1) unfolding load_txt_records_from_dns_def Let_def cleared_records [OF assms(1)] assms(2) [symmetric] by auto
  have "(\<exists>i \<in> set [0..<length records - 1]. \<exists>j. agree records i j) \<longleftrightarrow> (\<exists>i j. agree records i j)"
    by (auto simp: agree_def)
  then show "load_txt_records_from_dns resolver first_index dns_urls = None \<longleftrightarrow> \<not> (\<exists>i j. agree records i j)"
    using agree_counts [of records] good_records_index_None [of "[0..<length records - 1]" records]
    by (auto simp: body not_less [symmetric] split: option.splits)
  show "load_txt_records_from_dns resolver first_index dns_urls = Some good \<Longrightarrow> \<exists>i j. agree records i j \<and> good = records ! i"
    using good_records_index_Some [of "[0..<length records - 1]" records] by (auto simp: body split: if_splits option.splits)
qed

section \<open>Properties\<close>

text \<open>The hash that the examples use is 64 zeros.\<close>

lemma sample_points:
  "m_points (snd (add_checkpoint 7 (replicate 64 48) new_checkpoints)) = [(7, replicate 32 0)]"
proof -
  have "hex_to_pod HASH_BYTES (replicate 64 48) = Some (replicate 32 0)"
    using hex_loop_zeros [of 32] by (simp add: hex_to_pod_def to_buffer_def to_buffer_unchecked_def HASH_BYTES_def)
  then show ?thesis
    by (simp add: add_checkpoint_def new_checkpoints_def map_find_def)
qed

text \<open>
  The type of the containers: whatever sequence of additions and loads builds a container from an empty one, and
  whether they succeed or fail, its heights are strictly increasing and its hashes have 32 bytes.
\<close>

theorem checkpoints_typed:
  assumes "checkpoint_step\<^sup>*\<^sup>* new_checkpoints cp"
  shows "sorted_wrt (<) (map fst (m_points cp)) \<and> (\<forall>(height, h) \<in> set (m_points cp). length h = 32)"
  using extends_ok [OF steps_extend [OF assms points_ok_new]]
  by (auto simp: points_ok_def map_ok_def HASH_BYTES_def)

theorem checkpoints_typed_witness:
  "sorted_wrt (<) (map fst (m_points (snd (add_checkpoint 7 (replicate 64 48) new_checkpoints)))) \<and>
   m_points (snd (add_checkpoint 7 (replicate 64 48) new_checkpoints)) = [(7, replicate 32 0)]"
proof -
  have "sorted_wrt (<) (map fst (m_points (snd (add_checkpoint 7 (replicate 64 48) new_checkpoints))))"
    using checkpoints_typed [OF r_into_rtranclp, OF checkpoint_step.add] by blast
  with sample_points show ?thesis
    by blast
qed

text \<open>
  C11. A verdict on a block at a checkpoint is final: once a container has a checkpoint for a height, \<open>check_block\<close> gives
  the same answer for that height and hash after any later additions and loads. In particular
  a block that was rejected stays rejected.
\<close>

theorem checkpoint_verdict_final:
  assumes "checkpoint_step\<^sup>*\<^sup>* new_checkpoints cp" and "checkpoint_step\<^sup>*\<^sup>* cp cp'"
    and "snd (check_block height h cp)"
  shows "check_block height h cp' = check_block height h cp"
proof -
  have "extends cp cp'"
    using steps_extend [OF assms(2)] extends_ok [OF steps_extend [OF assms(1) points_ok_new]] by blast
  moreover obtain h' where "map_find (m_points cp) height = Some h'"
    using assms(3) by (auto simp: check_block_def split: option.splits)
  ultimately have "map_find (m_points cp') height = Some h'"
    unfolding extends_def map_le_def by (metis domI)
  with \<open>map_find (m_points cp) height = Some h'\<close> show ?thesis
    by (simp add: check_block_def)
qed

theorem checkpoint_verdict_final_witness:
  "fst (check_block 7 [] (snd (add_checkpoint 7 (replicate 64 48) new_checkpoints))) = False \<and>
   check_block 7 [] (snd (add_checkpoint 9 [] (snd (add_checkpoint 7 (replicate 64 48) new_checkpoints)))) = (False, True)"
proof -
  have "check_block 7 [] (snd (add_checkpoint 7 (replicate 64 48) new_checkpoints)) = (False, True)"
    by (simp only: check_block_def sample_points) (simp add: map_find_def)
  then show ?thesis
    using checkpoint_verdict_final [OF r_into_rtranclp r_into_rtranclp, OF checkpoint_step.add checkpoint_step.add] by simp
qed

text \<open>
  The queries: a height is in the checkpoint zone exactly when a checkpoint is at or above it, an alternative block is
  allowed exactly when it is not the first block and no checkpoint lies between it and the height of the chain, the greatest height is that of a
  checkpoint and no other is above it, and two containers conflict exactly when they have different hashes for a height.
\<close>

theorem checkpoint_queries:
  assumes "checkpoint_step\<^sup>*\<^sup>* new_checkpoints cp" and "checkpoint_step\<^sup>*\<^sup>* new_checkpoints other"
    and "hash_at = map_find (m_points cp)" and "other_at = map_find (m_points other)"
  shows "(is_in_checkpoint_zone height cp \<longleftrightarrow> (\<exists>k. hash_at k \<noteq> None \<and> height \<le> k)) \<and>
    (is_alternative_block_allowed chain_height height cp \<longleftrightarrow>
       height \<noteq> 0 \<and> \<not> (\<exists>k. hash_at k \<noteq> None \<and> height \<le> k \<and> k \<le> chain_height)) \<and>
    (get_max_height cp = Inr g \<longleftrightarrow> hash_at g \<noteq> None \<and> (\<forall>k. hash_at k \<noteq> None \<longrightarrow> k \<le> g)) \<and>
    (check_for_conflicts other cp \<longleftrightarrow> (\<forall>k h h'. hash_at k = Some h \<and> other_at k = Some h' \<longrightarrow> h = h'))"
proof -
  have ok: "map_ok (m_points cp)" "map_ok (m_points other)"
    using assms(1,2) [THEN steps_extend, OF points_ok_new, THEN extends_ok] by (simp_all add: points_ok_def)
  show ?thesis
    unfolding assms(3,4) using zone_iff [OF ok(1)] alternative_iff [OF ok(1)] max_height_iff [OF ok(1)] conflicts_iff [OF ok(2)]
    by simp
qed

theorem checkpoint_queries_witness:
  "is_in_checkpoint_zone 5 (snd (add_checkpoint 7 (replicate 64 48) new_checkpoints)) \<and>
   \<not> is_alternative_block_allowed 9 6 (snd (add_checkpoint 7 (replicate 64 48) new_checkpoints)) \<and>
   get_max_height (snd (add_checkpoint 7 (replicate 64 48) new_checkpoints)) = Inr 7"
proof -
  define cp where "cp = snd (add_checkpoint 7 (replicate 64 48) new_checkpoints)"
  have "checkpoint_step\<^sup>*\<^sup>* new_checkpoints cp"
    unfolding cp_def by (intro r_into_rtranclp checkpoint_step.add)
  moreover have "map_find (m_points cp) = [7 \<mapsto> replicate 32 0]"
    unfolding cp_def sample_points by (auto simp: map_find_def)
  ultimately show ?thesis
    using checkpoint_queries [of cp cp "map_find (m_points cp)" "map_find (m_points cp)" 5 9 7]
      checkpoint_queries [of cp cp "map_find (m_points cp)" "map_find (m_points cp)" 6 9 7]
    by (auto simp: cp_def)
qed

text \<open>
  C32. No checkpoint is compiled in, and then a checkpoints file cannot be loaded: after
  \<open>init_default_checkpoints\<close> on any network, loading from a file that exists dereferences the end of the empty container, whatever the file holds.
\<close>

theorem load_without_defaults:
  "load_new_checkpoints json resolver i nettype dns (snd (init_default_checkpoints nettype new_checkpoints)) =
     (if json = Absent then Inr (True, new_checkpoints) else Inl Out_of_range)"
  by (simp add: load_new_checkpoints_def load_checkpoints_from_json_def init_default_checkpoints_def new_checkpoints_def
    get_max_height_def load_checkpoints_from_dns_def load_txt_records_from_dns_def dns_urls_of_def)

text \<open>
  C31. DNS records are used only with a quorum: whichever host the scan starts with, records are returned exactly when
  two different hosts gave answers that DNSSEC validated, which are not empty, as long as each other, and with every
  record of the first among those of the second; then they are the records of such a first host.
\<close>

theorem dns_records_quorum:
  assumes "first_index < length dns_urls" and "trusted = (\<lambda>i. trusted_records (resolver (dns_urls ! i)))"
    and "quorum = (\<lambda>i j. i < j \<and> j < length dns_urls \<and> trusted i \<noteq> [] \<and> length (trusted i) = length (trusted j) \<and> set (trusted i) \<subseteq> set (trusted j))"
  shows "case load_txt_records_from_dns resolver first_index dns_urls of
      None \<Rightarrow> \<not> (\<exists>i j. quorum i j)
    | Some good \<Rightarrow> \<exists>i j. quorum i j \<and> good = trusted i"
proof -
  define records where "records = map (\<lambda>u. trusted_records (resolver u)) dns_urls"
  have "agree records i j \<longleftrightarrow> quorum i j" "agree records i j \<Longrightarrow> records ! i = trusted i" for i j
    by (auto simp: agree_def assms(2,3) records_def dns_records_match_def list_all_iff list_ex_iff)
  then show ?thesis
    using load_txt_records_agree [OF assms(1) records_def]
    by (cases "load_txt_records_from_dns resolver first_index dns_urls") fastforce+
qed

theorem dns_records_quorum_witness:
  "load_txt_records_from_dns (\<lambda>u. \<lparr>dns_records = [[7]], dns_avail = True, dns_valid = True\<rparr>) 1 [CHR ''a'', CHR ''b''] = Some [[7]]"
proof -
  let ?r = "\<lambda>u :: char. \<lparr>dns_records = [[7 :: byte]], dns_avail = True, dns_valid = True\<rparr>"
  let ?q = "\<lambda>i j. i < j \<and> j < length [CHR ''a'', CHR ''b'']"
  have t: "trusted_records (?r u) = [[7]]" for u
    by (simp add: trusted_records_def)
  have "?q 0 1"
    by simp
  then show ?thesis
    using dns_records_quorum [of 1 "[CHR ''a'', CHR ''b'']" "\<lambda>i. [[7]]" ?r ?q]
    by (auto simp: t split: option.splits)
qed

end
