(* ===== verification/Gyro.thy ===== *)
theory Gyro
  imports Money "HOL-Library.Signed_Division"
begin

unbundle bit_operations_syntax

text \<open>
  \<open>common/spin.cpp\<close>, \<open>common/gyro.cpp\<close> and \<open>common/gyro_raw_type.h\<close>: spin vectors of 256 signed bytes with a
  64-bit factor, and gyros, which add them up with 128-bit factors. The integers of
  \<open>boost::multiprecision\<close> are words of their width where they are unsigned and integers where they are signed. Two of its functions are
  parameters, with what its documentation promises as hypotheses: the integer square root,
  and the conversion to \<open>int8_t\<close>, which is exact in range. The theorems show that the raw form loses nothing, that the sums never
  divide by zero, and within which range the components are that are converted to bytes.
\<close>

section \<open>Definitions\<close>

type_synonym i8 = "8 word"

definition GYRO_NUMBER_OF_DIMENSIONALS :: nat where
  "GYRO_NUMBER_OF_DIMENSIONALS = 256"

definition int8max :: int where
  "int8max = 127"

definition int8min :: int where
  "int8min = - 128"

subsection \<open>Spins\<close>

record spin_type =
  spin_m :: u64
  spin_v :: "i8 list"

definition new_spin :: spin_type where
  "new_spin = \<lparr>spin_m = 1, spin_v = 1 # replicate (GYRO_NUMBER_OF_DIMENSIONALS - 1) 0\<rparr>"

definition MEDIUM_MODULE_OF_DIMENSIONALS_VECTOR :: "(u256 \<Rightarrow> u256) \<Rightarrow> u64" where
  "MEDIUM_MODULE_OF_DIMENSIONALS_VECTOR sqrt = ucast (sqrt (of_nat (64 * 64 * GYRO_NUMBER_OF_DIMENSIONALS)))"

definition calc_vector_module :: "(u256 \<Rightarrow> u256) \<Rightarrow> i8 list \<Rightarrow> u128" where
  "calc_vector_module sqrt v = ucast (sqrt (fold (\<lambda>x S. S + word_of_int (sint x * sint x)) v 1))"

text \<open>\<open>get_module\<close> for a factor of 128 bits and, converted, for one of 64 bits; the third is the member of \<open>spin_type\<close>.\<close>

definition get_module :: "(u256 \<Rightarrow> u256) \<Rightarrow> u128 \<Rightarrow> i8 list \<Rightarrow> u128" where
  "get_module sqrt m v = calc_vector_module sqrt v * m div ucast (MEDIUM_MODULE_OF_DIMENSIONALS_VECTOR sqrt) + 1"

definition get_module64 :: "(u256 \<Rightarrow> u256) \<Rightarrow> u64 \<Rightarrow> i8 list \<Rightarrow> u128" where
  "get_module64 sqrt m v = calc_vector_module sqrt v * ucast m div ucast (MEDIUM_MODULE_OF_DIMENSIONALS_VECTOR sqrt) + 1"

definition spin_get_module :: "(u256 \<Rightarrow> u256) \<Rightarrow> spin_type \<Rightarrow> u64" where
  "spin_get_module sqrt s = ucast (get_module64 sqrt (spin_m s) (spin_v s))"

definition spin_eq :: "spin_type \<Rightarrow> spin_type \<Rightarrow> bool" where
  "spin_eq s t =
     (if spin_m s \<noteq> spin_m t then False
      else list_all (\<lambda>n. spin_v s ! n = spin_v t ! n) [0..<GYRO_NUMBER_OF_DIMENSIONALS])"

subsection \<open>Gyros\<close>

record gyro_type =
  gyro_M :: u128
  gyro_m :: u128
  gyro_v :: "i8 list"

definition new_gyro :: gyro_type where
  "new_gyro = \<lparr>gyro_M = 1, gyro_m = 1, gyro_v = 1 # replicate (GYRO_NUMBER_OF_DIMENSIONALS - 1) 0\<rparr>"

definition gyro_of_spin :: "spin_type \<Rightarrow> gyro_type" where
  "gyro_of_spin s = \<lparr>gyro_M = ucast (spin_m s), gyro_m = ucast (spin_m s), gyro_v = spin_v s\<rparr>"

definition assign_spin :: "(u256 \<Rightarrow> u256) \<Rightarrow> spin_type \<Rightarrow> gyro_type" where
  "assign_spin sqrt s =
     (let M = get_module64 sqrt (spin_m s) (spin_v s) in \<lparr>gyro_M = M, gyro_m = M, gyro_v = spin_v s\<rparr>)"

definition gyro_get_module :: "(u256 \<Rightarrow> u256) \<Rightarrow> gyro_type \<Rightarrow> u128" where
  "gyro_get_module sqrt g = get_module sqrt (gyro_m g) (gyro_v g)"

text \<open>
  The loops that the four operators share: the components \<open>V[n]\<close> of the sum or difference, the sum of their
  squares, the factor \<open>K\<close> by which they are scaled down, and the vector of bytes.
\<close>

definition components :: "(int \<Rightarrow> int \<Rightarrow> int) \<Rightarrow> u128 \<Rightarrow> i8 list \<Rightarrow> u128 \<Rightarrow> i8 list \<Rightarrow> int list" where
  "components f m v m' v' = map2 (\<lambda>x y. f (uint m * sint x) (uint m' * sint y)) v v'"

definition square_sum :: "int list \<Rightarrow> u256" where
  "square_sum V = fold (\<lambda>a S. S + word_of_int (a * a)) V 1"

definition scale_factor :: "int list \<Rightarrow> int" where
  "scale_factor V =
     (let mx = fold (\<lambda>a mx. if a > mx then a else mx) V int8max;
          mn = fold (\<lambda>a mn. if a < mn then a else mn) V int8min;
          Kmin = mn sdiv int8min;
          Kmax = mx sdiv int8max in
      if Kmin > Kmax then Kmin else Kmax)"

definition scaled_vector :: "(int \<Rightarrow> i8) \<Rightarrow> int list \<Rightarrow> i8 list" where
  "scaled_vector to_int8 V = map (\<lambda>a. to_int8 (a sdiv scale_factor V)) V"

definition scaled_m :: "(u256 \<Rightarrow> u256) \<Rightarrow> int list \<Rightarrow> i8 list \<Rightarrow> u128" where
  "scaled_m sqrt V v = ucast (sqrt (square_sum V) div ucast (calc_vector_module sqrt v))"

definition gyro_add :: "(u256 \<Rightarrow> u256) \<Rightarrow> (int \<Rightarrow> i8) \<Rightarrow> gyro_type \<Rightarrow> gyro_type \<Rightarrow> gyro_type" where
  "gyro_add sqrt to_int8 r g =
     (let V = components (+) (gyro_m r) (gyro_v r) (gyro_m g) (gyro_v g); v = scaled_vector to_int8 V in
      \<lparr>gyro_M = gyro_M r + gyro_M g, gyro_m = scaled_m sqrt V v, gyro_v = v\<rparr>)"

definition gyro_sub :: "(u256 \<Rightarrow> u256) \<Rightarrow> (int \<Rightarrow> i8) \<Rightarrow> gyro_type \<Rightarrow> gyro_type \<Rightarrow> gyro_type" where
  "gyro_sub sqrt to_int8 r g =
     (let V = components (-) (gyro_m r) (gyro_v r) (gyro_m g) (gyro_v g); v = scaled_vector to_int8 V in
      \<lparr>gyro_M = (if gyro_M r > gyro_M g then gyro_M r - gyro_M g else 0), gyro_m = scaled_m sqrt V v, gyro_v = v\<rparr>)"

text \<open>The operators on a spin convert the square root before they divide.\<close>

definition gyro_add_spin :: "(u256 \<Rightarrow> u256) \<Rightarrow> (int \<Rightarrow> i8) \<Rightarrow> gyro_type \<Rightarrow> spin_type \<Rightarrow> gyro_type" where
  "gyro_add_spin sqrt to_int8 r s =
     (let V = components (+) (gyro_m r) (gyro_v r) (ucast (spin_m s)) (spin_v s); v = scaled_vector to_int8 V in
      \<lparr>gyro_M = gyro_M r + get_module64 sqrt (spin_m s) (spin_v s),
       gyro_m = ucast (sqrt (square_sum V)) div calc_vector_module sqrt v, gyro_v = v\<rparr>)"

definition gyro_sub_spin :: "(u256 \<Rightarrow> u256) \<Rightarrow> (int \<Rightarrow> i8) \<Rightarrow> gyro_type \<Rightarrow> spin_type \<Rightarrow> gyro_type" where
  "gyro_sub_spin sqrt to_int8 r s =
     (let V = components (-) (gyro_m r) (gyro_v r) (ucast (spin_m s)) (spin_v s); v = scaled_vector to_int8 V;
          Sm = get_module64 sqrt (spin_m s) (spin_v s) in
      \<lparr>gyro_M = (if gyro_M r > Sm then gyro_M r - Sm else 1),
       gyro_m = ucast (sqrt (square_sum V)) div calc_vector_module sqrt v, gyro_v = v\<rparr>)"

definition gyro_eq :: "gyro_type \<Rightarrow> gyro_type \<Rightarrow> bool" where
  "gyro_eq r g =
     (if gyro_M r \<noteq> gyro_M g then False
      else if gyro_m r \<noteq> gyro_m g then False
      else list_all (\<lambda>n. gyro_v r ! n = gyro_v g ! n) [0..<GYRO_NUMBER_OF_DIMENSIONALS])"

definition gyro_neq :: "gyro_type \<Rightarrow> gyro_type \<Rightarrow> bool" where
  "gyro_neq r g =
     (if gyro_M r \<noteq> gyro_M g then True
      else if gyro_m r \<noteq> gyro_m g then True
      else list_ex (\<lambda>n. gyro_v r ! n \<noteq> gyro_v g ! n) [0..<GYRO_NUMBER_OF_DIMENSIONALS])"

subsection \<open>The raw form\<close>

record gyro_raw_type =
  raw_H :: u64
  raw_L :: u64
  raw_h :: u64
  raw_l :: u64
  raw_v :: "i8 list"

definition from_raw :: "gyro_raw_type \<Rightarrow> gyro_type" where
  "from_raw raw =
     \<lparr>gyro_M = push_bit 64 (ucast (raw_H raw)) + ucast (raw_L raw),
      gyro_m = push_bit 64 (ucast (raw_h raw)) + ucast (raw_l raw), gyro_v = raw_v raw\<rparr>"

definition to_raw :: "gyro_type \<Rightarrow> gyro_raw_type" where
  "to_raw g =
     \<lparr>raw_H = ucast (drop_bit 64 (gyro_M g) AND 0xffffffffffffffff), raw_L = ucast (gyro_M g AND 0xffffffffffffffff),
      raw_h = ucast (drop_bit 64 (gyro_m g) AND 0xffffffffffffffff), raw_l = ucast (gyro_m g AND 0xffffffffffffffff),
      raw_v = gyro_v g\<rparr>"

function hex_loop128 :: "u128 \<Rightarrow> string" where
  "hex_loop128 v = (if v > 0 then (''0123456789abcdef'' ! unat (v AND 0xf)) # hex_loop128 (drop_bit 4 v) else [])"
  by pat_completeness auto
termination
proof (relation "measure unat")
  show "(drop_bit 4 v, v) \<in> measure unat" if "v > 0" for v :: u128
    using that by (simp add: byte_simps word_less_nat_alt div_less_dividend)
qed simp

declare hex_loop128.simps [simp del]

definition hex128 :: "u128 \<Rightarrow> string" where
  "hex128 v = (let s = hex_loop128 v; s = (if s = [] then ''0'' else s) in ''0x'' @ rev s)"

section \<open>Raw form\<close>

lemma low_mask: "(0xffffffffffffffff :: u128) = mask 64"
  by (simp add: mask_eq_exp_minus_1)

lemma join_halves: "push_bit 64 (ucast (ucast (drop_bit 64 M AND 0xffffffffffffffff) :: u64)) + ucast (ucast (M AND 0xffffffffffffffff) :: u64) = (M :: u128)"
proof -
  have "push_bit 64 (ucast (ucast (drop_bit 64 M AND mask 64) :: u64)) + ucast (ucast (M AND mask 64) :: u64) =
      push_bit 64 (ucast (ucast (drop_bit 64 M AND mask 64) :: u64)) OR (ucast (ucast (M AND mask 64) :: u64) :: u128)"
    by (rule disjunctive_add_eq_or) (auto intro!: bit_word_eqI simp: bit_simps)
  also have "\<dots> = M"
    by (auto intro!: bit_word_eqI simp: bit_simps)
  finally show ?thesis
    unfolding low_mask .
qed

lemma bit_u64: "bit (w :: u64) n \<Longrightarrow> n < 64"
  using bit_imp_le_length [of w n] by simp

lemma split_halves:
  fixes H L :: u64
  defines "M \<equiv> push_bit 64 (ucast H) + ucast L :: u128"
  shows "ucast (drop_bit 64 M AND 0xffffffffffffffff) = H" and "ucast (M AND 0xffffffffffffffff) = L"
proof -
  have "M = push_bit 64 (ucast H) OR ucast L"
    unfolding M_def using bit_u64 [of L] by (intro disjunctive_add_eq_or bit_word_eqI) (force simp: bit_simps)
  then show "ucast (drop_bit 64 M AND 0xffffffffffffffff) = H" and "ucast (M AND 0xffffffffffffffff) = L"
    unfolding low_mask by (auto intro!: bit_word_eqI simp: bit_simps dest: bit_u64)
qed

text \<open>
  The raw form of a gyro, as the database stores it, loses nothing and has no junk: converting to it and back,
  in either order, gives what one started from, for all 128-bit values.
\<close>

lemma gyro_raw_bijection: "from_raw (to_raw g) = g \<and> to_raw (from_raw r) = r"
  by (simp add: from_raw_def to_raw_def join_halves split_halves)

interpretation gyro_raw: codec "\<lambda>g. Inr (to_raw g)" "\<lambda>raw. Some (from_raw raw)"
  by unfold_locales (use gyro_raw_bijection in auto)

section \<open>Scaling\<close>

lemma fold_greatest:
  fixes i :: int and V :: "int list"
  defines "r \<equiv> fold (\<lambda>a mx. if a > mx then a else mx) V i"
  shows "i \<le> r" and "a \<in> set V \<Longrightarrow> a \<le> r"
proof -
  have "i \<le> fold (\<lambda>a mx. if a > mx then a else mx) V i \<and> (\<forall>a \<in> set V. a \<le> fold (\<lambda>a mx. if a > mx then a else mx) V i)" for i :: int
  proof (induction V arbitrary: i)
    case (Cons b V)
    show ?case
      using Cons [of b] Cons [of i] by (auto simp: not_less intro: order_trans)
  qed simp
  then show "i \<le> r" and "a \<in> set V \<Longrightarrow> a \<le> r"
    by (simp_all add: r_def)
qed

lemma fold_least:
  fixes i :: int and V :: "int list"
  defines "r \<equiv> fold (\<lambda>a mn. if a < mn then a else mn) V i"
  shows "r \<le> i" and "a \<in> set V \<Longrightarrow> r \<le> a"
proof -
  have "fold (\<lambda>a mn. if a < mn then a else mn) V i \<le> i \<and> (\<forall>a \<in> set V. fold (\<lambda>a mn. if a < mn then a else mn) V i \<le> a)" for i :: int
  proof (induction V arbitrary: i)
    case (Cons b V)
    show ?case
      using Cons [of b] Cons [of i] by (auto simp: not_less intro: order_trans)
  qed simp
  then show "r \<le> i" and "a \<in> set V \<Longrightarrow> r \<le> a"
    by (simp_all add: r_def)
qed

text \<open>The factor is at least one, and every component is within about its multiple of the range of a byte.\<close>

lemma scale_factor_bounds:
  shows "1 \<le> scale_factor V"
    and "a \<in> set V \<Longrightarrow> a \<le> 127 * scale_factor V + 126"
    and "a \<in> set V \<Longrightarrow> - (128 * scale_factor V + 127) \<le> a"
proof -
  define mx mn where "mx = fold (\<lambda>a mx. if a > mx then a else mx) V int8max"
    and "mn = fold (\<lambda>a mn. if a < mn then a else mn) V int8min"
  have mx: "127 \<le> mx" "a \<in> set V \<Longrightarrow> a \<le> mx" and mn: "mn \<le> - 128" "a \<in> set V \<Longrightarrow> mn \<le> a" for a
    unfolding mx_def mn_def using fold_greatest [where i = int8max and V = V] fold_least [where i = int8min and V = V]
    by (simp_all add: int8max_def int8min_def)
  have quot: "mn sdiv int8min = (- mn) div 128" "mx sdiv int8max = mx div 127"
    using mx(1) mn(1) by (simp_all add: signed_divide_int_def int8max_def int8min_def)
  have K: "scale_factor V = max ((- mn) div 128) (mx div 127)"
    unfolding scale_factor_def Let_def mx_def [symmetric] mn_def [symmetric] quot by (auto simp: max_def)
  show "1 \<le> scale_factor V"
    using zdiv_mono1 [of 127 mx 127] mx(1) unfolding K by simp
  have "mx \<le> 127 * (mx div 127) + 126" "- mn \<le> 128 * ((- mn) div 128) + 127"
    by presburger+
  then have "mx \<le> 127 * scale_factor V + 126" "- mn \<le> 128 * scale_factor V + 127"
    unfolding K by linarith+
  then show "a \<in> set V \<Longrightarrow> a \<le> 127 * scale_factor V + 126" "a \<in> set V \<Longrightarrow> - (128 * scale_factor V + 127) \<le> a"
    using mx(2) mn(2) by force+
qed

lemma scale_factor_small: "\<forall>a \<in> set V. int8min \<le> a \<and> a \<le> int8max \<Longrightarrow> scale_factor V = 1"
proof -
  assume V: "\<forall>a \<in> set V. int8min \<le> a \<and> a \<le> int8max"
  then have "fold (\<lambda>a mx. if a > mx then a else mx) V int8max = int8max"
    "fold (\<lambda>a mn. if a < mn then a else mn) V int8min = int8min"
    by (induction V) auto
  then show "scale_factor V = 1"
    by (simp add: scale_factor_def int8max_def int8min_def signed_divide_int_def)
qed

lemma sdiv_range:
  fixes a K :: int
  assumes "1 \<le> K" and "a \<le> 127 * K + 126" and "- (128 * K + 127) \<le> a"
  shows "- 255 \<le> a sdiv K \<and> a sdiv K \<le> 253" and "128 \<le> K \<Longrightarrow> - 128 \<le> a sdiv K \<and> a sdiv K \<le> 127"
proof -
  have pos: "x div K \<le> q + r div K" if "x \<le> q * K + r" for x q r :: int
  proof -
    have "x div K \<le> (r + q * K) div K"
      using that assms(1) by (intro zdiv_mono1) simp_all
    then show ?thesis
      using assms(1) by simp
  qed
  have small: "r div K \<le> r" if "0 \<le> r" for r :: int
    using that assms(1) zdiv_mono2 [of r 1 K] by simp
  have nonneg: "0 \<le> x div K" if "0 \<le> x" for x :: int
    using that assms(1) by (simp add: pos_imp_zdiv_nonneg_iff)
  show "- 255 \<le> a sdiv K \<and> a sdiv K \<le> 253"
    using assms pos [of a 127 126] pos [of "- a" 128 127] small [of 126] small [of 127] nonneg [of a] nonneg [of "- a"]
    by (cases "0 \<le> a") (auto simp: signed_divide_int_def sgn_if)
  show "- 128 \<le> a sdiv K \<and> a sdiv K \<le> 127" if "128 \<le> K"
  proof -
    have "126 div K = 0" "127 div K = 0"
      using that by (simp_all add: div_pos_pos_trivial)
    then show ?thesis
      using assms pos [of a 127 126] pos [of "- a" 128 127] nonneg [of a] nonneg [of "- a"]
      by (cases "0 \<le> a") (auto simp: signed_divide_int_def sgn_if)
  qed
qed

section \<open>Square roots\<close>

text \<open>What \<open>boost::multiprecision\<close> promises of \<open>sqrt\<close>: the largest integer whose square is not above the argument.\<close>

definition integer_sqrt :: "(u256 \<Rightarrow> u256) \<Rightarrow> bool" where
  "integer_sqrt sqrt \<longleftrightarrow> (\<forall>x. unat (sqrt x) ^ 2 \<le> unat x \<and> unat x < (unat (sqrt x) + 1) ^ 2)"

lemma integer_sqrtD: "integer_sqrt sqrt \<Longrightarrow> unat (sqrt x) ^ 2 \<le> unat x" "integer_sqrt sqrt \<Longrightarrow> unat x < (unat (sqrt x) + 1) ^ 2"
  by (simp_all add: integer_sqrt_def)

text \<open>An instance.\<close>

fun isqrt :: "nat \<Rightarrow> nat" where
  "isqrt n = (if n = 0 then 0 else let r = 2 * isqrt (n div 4) in if (r + 1) ^ 2 \<le> n then r + 1 else r)"

declare isqrt.simps [simp del]

lemma isqrt_correct: "isqrt n ^ 2 \<le> n \<and> n < (isqrt n + 1) ^ 2"
proof (induction n rule: less_induct)
  case (less n)
  show ?case
  proof (cases "n = 0")
    case False
    define q where "q = isqrt (n div 4)"
    have IH: "q ^ 2 \<le> n div 4" "n div 4 < (q + 1) ^ 2"
      using less [of "n div 4"] False by (simp_all add: q_def)
    then have "4 * q ^ 2 \<le> n" "n < 4 * (q + 1) ^ 2"
      by linarith+
    then have "(2 * q) ^ 2 \<le> n" "n < (2 * q + 2) ^ 2"
      by (simp_all add: power2_eq_square algebra_simps)
    then show ?thesis
      using False by (subst (1 2) isqrt.simps) (auto simp: Let_def q_def [symmetric] add.assoc)
  qed (simp add: isqrt.simps)
qed

lemma sqrt_instance: "integer_sqrt (\<lambda>x. of_nat (isqrt (unat x)))"
proof -
  have "isqrt (unat x) \<le> unat x" for x :: u256
    using isqrt_correct [of "unat x"] self_le_power [of "isqrt (unat x)" 2] by (cases "isqrt (unat x) = 0") auto
  then have "isqrt (unat x) < 2 ^ 256" for x :: u256
    using order_le_less_trans [OF _ unsigned_less [of x, where ?'a = nat]] by simp
  then have "unat (of_nat (isqrt (unat x)) :: u256) = isqrt (unat x)" for x :: u256
    by (simp add: unat_of_nat)
  then show ?thesis
    using isqrt_correct by (simp add: integer_sqrt_def)
qed

lemma sqrt_eq: "integer_sqrt sqrt \<Longrightarrow> r ^ 2 \<le> unat x \<Longrightarrow> unat x < (r + 1) ^ 2 \<Longrightarrow> unat (sqrt x) = r"
proof -
  assume "integer_sqrt sqrt" and r: "r ^ 2 \<le> unat x" "unat x < (r + 1) ^ 2"
  then have "unat (sqrt x) ^ 2 < (r + 1) ^ 2" "r ^ 2 < (unat (sqrt x) + 1) ^ 2"
    using integer_sqrtD [of sqrt x] by linarith+
  then have "unat (sqrt x) < r + 1" "r < unat (sqrt x) + 1"
    by (auto dest: power_less_imp_less_base)
  then show "unat (sqrt x) = r"
    by simp
qed

lemma medium_module: "integer_sqrt sqrt \<Longrightarrow> MEDIUM_MODULE_OF_DIMENSIONALS_VECTOR sqrt = 1024"
proof -
  assume "integer_sqrt sqrt"
  then have "unat (sqrt 1048576) = 1024"
    by (rule sqrt_eq) simp_all
  then have "sqrt 1048576 = 1024"
    by (simp add: word_unat_eq_iff)
  then show ?thesis
    by (simp add: MEDIUM_MODULE_OF_DIMENSIONALS_VECTOR_def GYRO_NUMBER_OF_DIMENSIONALS_def)
qed

text \<open>The module of a vector of bytes: at least one, at most 2048.\<close>

lemma square_fold:
  "fold (\<lambda>x S. S + word_of_int (sint x * sint x)) v (of_nat k :: u256) =
     of_nat (k + sum_list (map (\<lambda>x. nat (sint x * sint x)) v))"
proof (induction v arbitrary: k)
  case (Cons x v)
  have "of_nat k + word_of_int (sint x * sint x) = (of_nat (k + nat (sint x * sint x)) :: u256)"
    by simp
  then show ?case
    using Cons [of "k + nat (sint x * sint x)"] by (simp add: add.assoc del: of_nat_add)
qed simp

lemma byte_square_bound: "nat (sint x * sint x) \<le> 16384" for x :: i8
proof -
  have "- 128 \<le> sint x" "sint x < 128"
    using sint_greater_eq [of x] sint_less [of x] by simp_all
  then have "\<bar>sint x\<bar> * \<bar>sint x\<bar> \<le> 128 * 128"
    by (intro mult_mono) auto
  then show ?thesis
    by (simp add: abs_mult_self_eq)
qed

lemma calc_vector_module_bounds:
  assumes "integer_sqrt sqrt" and "length v = GYRO_NUMBER_OF_DIMENSIONALS"
  shows "1 \<le> unat (calc_vector_module sqrt v)" and "unat (calc_vector_module sqrt v) \<le> 2048"
proof -
  define T where "T = 1 + sum_list (map (\<lambda>x. nat (sint x * sint x)) v)"
  have "sum_list (map (\<lambda>x. nat (sint x * sint x)) v) \<le> sum_list (map (\<lambda>x. 16384) v)"
    by (intro sum_list_mono) (rule byte_square_bound)
  then have T: "1 \<le> T" "T \<le> 4194305"
    using assms(2) by (simp_all add: T_def GYRO_NUMBER_OF_DIMENSIONALS_def sum_list_triv)
  define r where "r = unat (sqrt (of_nat T))"
  have "unat (of_nat T :: u256) = T"
    using T(2) by (simp add: unat_of_nat)
  then have r: "r ^ 2 \<le> T" "T < (r + 1) ^ 2"
    using integer_sqrtD [OF assms(1), of "of_nat T"] by (simp_all add: r_def)
  have "1 \<le> r"
    using r(2) T(1) by (cases r) auto
  moreover have "r \<le> 2048"
  proof (rule ccontr)
    assume "\<not> r \<le> 2048"
    then have "2049 ^ 2 \<le> r ^ 2"
      by (intro power_mono) auto
    then show False
      using r(1) T(2) by simp
  qed
  moreover have "fold (\<lambda>x S. S + word_of_int (sint x * sint x)) v 1 = (of_nat T :: u256)"
    using square_fold [of v 1] by (simp only: T_def of_nat_1)
  then have "unat (calc_vector_module sqrt v) = r"
    using \<open>r \<le> 2048\<close> unfolding calc_vector_module_def r_def by (simp only: unsigned_ucast_eq) (simp add: take_bit_nat_eq_self)
  ultimately show "1 \<le> unat (calc_vector_module sqrt v)" and "unat (calc_vector_module sqrt v) \<le> 2048"
    by simp_all
qed

section \<open>Properties\<close>

text \<open>
  C20. The sums and differences of gyros never divide by zero, and the numbers that become bytes of the result are
  between -255 and 253; when the scale factor is at least 128 they are bytes, and the result
  holds exactly the components divided by the factor. (The sum of two equal vectors of
  components 127 has factor 2, that of 127 and 126 factor 1 and the quotient 253.)
\<close>

theorem gyro_sum_range:
  assumes "integer_sqrt sqrt" and "\<And>x. - 128 \<le> x \<Longrightarrow> x \<le> 127 \<Longrightarrow> sint (to_int8 x) = x"
    and "length (gyro_v r) = GYRO_NUMBER_OF_DIMENSIONALS" and "length (gyro_v g) = GYRO_NUMBER_OF_DIMENSIONALS"
    and "(f, s) \<in> {((+), gyro_add sqrt to_int8 r g), ((-), gyro_sub sqrt to_int8 r g)}"
    and "V = components f (gyro_m r) (gyro_v r) (gyro_m g) (gyro_v g)" and "n < GYRO_NUMBER_OF_DIMENSIONALS"
  shows "1 \<le> scale_factor V \<and> calc_vector_module sqrt (gyro_v s) \<noteq> 0 \<and>
    gyro_v s ! n = to_int8 (V ! n sdiv scale_factor V) \<and>
    - 255 \<le> V ! n sdiv scale_factor V \<and> V ! n sdiv scale_factor V \<le> 253 \<and>
    (128 \<le> scale_factor V \<longrightarrow> sint (gyro_v s ! n) = V ! n sdiv scale_factor V)"
proof -
  have len: "length V = GYRO_NUMBER_OF_DIMENSIONALS"
    using assms(3,4) by (simp add: assms(6) components_def)
  have v: "gyro_v s = scaled_vector to_int8 V"
    using assms(5,6) by (auto simp: gyro_add_def gyro_sub_def Let_def)
  then have "gyro_v s ! n = to_int8 (V ! n sdiv scale_factor V)" "length (gyro_v s) = GYRO_NUMBER_OF_DIMENSIONALS"
    using assms(7) len by (simp_all add: scaled_vector_def)
  moreover have "V ! n \<in> set V"
    using assms(7) len by simp
  note range = sdiv_range [OF scale_factor_bounds(1) scale_factor_bounds(2) [OF this] scale_factor_bounds(3) [OF this]]
  moreover have "1 \<le> unat (calc_vector_module sqrt (gyro_v s))"
    using calc_vector_module_bounds(1) [OF assms(1)] calculation(2) by blast
  ultimately show ?thesis
    using assms(2) scale_factor_bounds(1) [of V] range by auto
qed

theorem gyro_sum_range_witness:
  "gyro_v (gyro_add (\<lambda>x. of_nat (isqrt (unat x))) word_of_int new_gyro new_gyro) ! 0 = 2"
proof -
  have exact: "sint (word_of_int x :: i8) = x" if "- 128 \<le> x" "x \<le> 127" for x
    using that by (simp add: signed_take_bit_int_eq_self sint_sbintrunc')
  have "components (+) 1 (1 # replicate 255 0) 1 (1 # replicate 255 0) = 2 # replicate 255 (0 :: int)"
    by (simp add: components_def)
  moreover have "scale_factor (2 # replicate 255 0) = 1"
    by (rule scale_factor_small) (simp add: int8max_def int8min_def)
  ultimately show ?thesis
    using gyro_sum_range [OF sqrt_instance exact, of new_gyro new_gyro "(+)"]
    by (auto simp: new_gyro_def GYRO_NUMBER_OF_DIMENSIONALS_def)
qed

end
