(* ===== verification/Spinner.thy ===== *)
theory Spinner
  imports Gyro Keccak Pruning
begin

unbundle bit_operations_syntax

text \<open>
  The proof of spin of \<open>cryptonote_core/blockchain.cpp\<close>, by which blocks are produced instead of mining:
  \<open>calc_spinner_transaction_locked\<close> adds up what a spinner has locked, \<open>get_spinner_data\<close> derives from the
  chain when a spinner may produce a block and with which spin, and \<open>get_spin\<close> draws the spin vector from a beacon of block hashes. Their
  structures are in \<open>cryptonote_basic/spinner_data.h\<close>.

  The database is the part they read: the blocks with their time stamps, hashes and spinner data, the transactions and the heights of the
  spinners. The spinner data and proofs in the extra fields of transactions are given as what
  parsing them yields; the check of the signatures of a proof is a parameter, as is the square root of
  \<open>boost::multiprecision\<close>. \<open>None\<close> stands for a call that never returns, \<open>Inl\<close> for an exception.
\<close>

section \<open>Data\<close>

record spinner_config = cn_config +
  SPINNER_AMOUNT_MIN_LOCK :: u64
  SPINNER_MOMENT_OF_INERTIA :: u64
  SPINNER_DAMPING_RATIO_DIVIDER :: u64
  SPINNER_ENERGY_COST_MULTIPLIER :: u64
  SPINNER_PVRB_BLOCK_WINDOW :: u64
  SPINNER_SPIN_BLOCK_WINDOW :: u64
  SPINNER_COUNT_PRECISION :: u64

definition default_spinner_config :: spinner_config where
  "default_spinner_config = cn_config.extend default_config
     \<lparr>SPINNER_AMOUNT_MIN_LOCK = COIN_DEFAULT, SPINNER_MOMENT_OF_INERTIA = 5, SPINNER_DAMPING_RATIO_DIVIDER = 2000,
      SPINNER_ENERGY_COST_MULTIPLIER = 100000, SPINNER_PVRB_BLOCK_WINDOW = 5, SPINNER_SPIN_BLOCK_WINDOW = 100,
      SPINNER_COUNT_PRECISION = 10\<rparr>"

definition CRYPTONOTE_SPINNED_MONEY_LOCKED_BLOCKS :: u64 where
  "CRYPTONOTE_SPINNED_MONEY_LOCKED_BLOCKS = CRYPTONOTE_MAX_BLOCK_NUMBER"

record account_public_address =
  m_spend_public_key :: blob
  m_view_public_key :: blob

record spinner_tx_proof =
  proof_txid :: blob
  proof_pairs :: "(blob \<times> blob) list"

record spinner_info =
  adr :: account_public_address
  tx_proof :: spinner_tx_proof
  session_pub :: blob
  session_sig :: blob
  prevuos_height :: u64

record spinner_data =
  nfo :: spinner_info
  approximately_count :: u64
  locked :: u64
  medium_locked :: u64
  spin :: u64
  medium_spin :: u64
  interval :: u64
  medium_interval :: u64

text \<open>\<open>AUTO_VAL_INIT\<close>\<close>

definition zero_spinner_data :: spinner_data where
  "zero_spinner_data =
     \<lparr>nfo = \<lparr>adr = \<lparr>m_spend_public_key = replicate 32 0, m_view_public_key = replicate 32 0\<rparr>,
             tx_proof = \<lparr>proof_txid = replicate 32 0, proof_pairs = []\<rparr>,
             session_pub = replicate 32 0, session_sig = replicate 64 0, prevuos_height = 0\<rparr>,
      approximately_count = 0, locked = 0, medium_locked = 0, spin = 0, medium_spin = 0, interval = 0, medium_interval = 0\<rparr>"

text \<open>A field of the extra data of a transaction: not there, not parsed, or its value.\<close>

datatype 'a field = Missing | Malformed | Parsed 'a

record spinner_tx =
  unlock_time :: u64
  spin_tx_proof :: "spinner_tx_proof field"

record spinner_block =
  block_timestamp :: u64
  block_hash :: blob
  spin_data :: "spinner_data field"

record spinner_db =
  chain :: "spinner_block list"
  transactions :: "blob \<Rightarrow> (spinner_tx \<times> u64) option"
  spinner_heights :: "blob \<Rightarrow> u64 option"

definition chain_height :: "spinner_db \<Rightarrow> u64" where
  "chain_height db = of_nat (length (chain db))"

definition block_at_height :: "spinner_db \<Rightarrow> u64 \<Rightarrow> spinner_block result" where
  "block_at_height db h = (if unat h < length (chain db) then Inr (chain db ! unat h) else Inl Block_does_not_exist)"

definition get_spinner_height :: "spinner_db \<Rightarrow> blob \<Rightarrow> u64" where
  "get_spinner_height db key = (case spinner_heights db key of None \<Rightarrow> 0 | Some h \<Rightarrow> h)"

section \<open>Locked amounts\<close>

type_synonym proof_check = "blob \<Rightarrow> spinner_tx \<Rightarrow> account_public_address \<Rightarrow> (blob \<times> blob) list \<Rightarrow> u64 option"

text \<open>
  The loop over the chain of proofs. The height that it reads in each round, again that of the first transaction, is
  not used; it matters only that the transaction is there.
\<close>

partial_function (option) locked_loop ::
  "spinner_config \<Rightarrow> proof_check \<Rightarrow> spinner_db \<Rightarrow> spinner_info \<Rightarrow> spinner_tx_proof field \<Rightarrow> u64 list \<Rightarrow> u64 list option option" where
  "locked_loop cfg check_proof db info r amounts =
     (case r of
        Missing \<Rightarrow> Some (Some amounts)
      | Malformed \<Rightarrow> Some None
      | Parsed p \<Rightarrow>
          (case transactions db (proof_txid p) of
             None \<Rightarrow> Some None
           | Some (tx, h) \<Rightarrow>
               if transactions db (proof_txid (tx_proof info)) = None then Some None
               else if unlock_time tx \<noteq> CRYPTONOTE_SPINNED_MONEY_LOCKED_BLOCKS then Some None
               else (case check_proof (proof_txid p) tx (adr info) (proof_pairs p) of
                 None \<Rightarrow> Some None
               | Some amount \<Rightarrow>
                   locked_loop cfg check_proof db info (spin_tx_proof tx) (amounts @ [amount - SPINNER_AMOUNT_MIN_LOCK cfg]))))"

definition calc_spinner_transaction_locked ::
  "spinner_config \<Rightarrow> proof_check \<Rightarrow> spinner_db \<Rightarrow> spinner_info \<Rightarrow> u64 option option" where
  "calc_spinner_transaction_locked cfg check_proof db info =
     (case transactions db (proof_txid (tx_proof info)) of
        None \<Rightarrow> Some None
      | Some (tx, h) \<Rightarrow>
          if unlock_time tx \<noteq> CRYPTONOTE_SPINNED_MONEY_LOCKED_BLOCKS then Some None
          else (case check_proof (proof_txid (tx_proof info)) tx (adr info) (proof_pairs (tx_proof info)) of
            None \<Rightarrow> Some None
          | Some amount \<Rightarrow> map_option (map_option sum_list) (locked_loop cfg check_proof db info (spin_tx_proof tx) [amount])))"

section \<open>When and how fast\<close>

text \<open>The data and the time stamp of the last block; zero up to the start blocks.\<close>

definition tip_data :: "spinner_config \<Rightarrow> spinner_db \<Rightarrow> u64 \<Rightarrow> (spinner_data \<times> u64) option result" where
  "tip_data cfg db height =
     (if height > START_AMOUNT_BLOCKS cfg then
        and_then (block_at_height db height) (\<lambda>b.
          case spin_data b of Parsed d \<Rightarrow> Inr (Some (d, block_timestamp b)) | _ \<Rightarrow> Inr None)
      else Inr (Some (zero_spinner_data, 0)))"

text \<open>\<open>for (;;)\<close>: the height is the same in every round.\<close>

partial_function (option) spin_search ::
  "spinner_db \<Rightarrow> account_public_address \<Rightarrow> u64 \<Rightarrow> (spinner_data \<times> u64) option result option" where
  "spin_search db a h =
     (case block_at_height db h of
        Inl e \<Rightarrow> Some (Inl e)
      | Inr b \<Rightarrow>
          (case spin_data b of
             Parsed prev_spin \<Rightarrow>
               if adr (nfo prev_spin) = a then Some (Inr (Some (prev_spin, block_timestamp b))) else spin_search db a h
           | _ \<Rightarrow> Some (Inr None)))"

definition quot :: "'a::len word \<Rightarrow> 'a word \<Rightarrow> 'a word result" where
  "quot x y = (if y = 0 then Inl Division_by_zero else Inr (x div y))"

definition measured_interval ::
  "spinner_config \<Rightarrow> spinner_db \<Rightarrow> u64 \<Rightarrow> u64 \<Rightarrow> spinner_data \<Rightarrow> u64 \<Rightarrow> spinner_data \<Rightarrow> u64 \<Rightarrow> u64 result" where
  "measured_interval cfg db height prev_height prev_data prev_timestamp prev_spin spin_timestamp =
     (if prevuos_height (nfo prev_spin) > START_AMOUNT_BLOCKS cfg then
        and_then (block_at_height db (prevuos_height (nfo prev_spin))) (\<lambda>b.
          quot (prev_timestamp - block_timestamp b) (height - prevuos_height (nfo prev_spin)))
      else if height > prev_height then Inr ((prev_timestamp - spin_timestamp) div (height - prev_height))
      else Inr (medium_interval prev_data))"

text \<open>
  The previous spin of the spinner, its time, the interval measured since, and the time from which the next block is
  allowed; \<open>None\<close> for a returned \<open>false\<close>.
\<close>

definition previous_spin ::
  "spinner_config \<Rightarrow> proof_check \<Rightarrow> spinner_db \<Rightarrow> spinner_info \<Rightarrow> u64 \<Rightarrow> u64 \<Rightarrow> spinner_data \<Rightarrow> u64 \<Rightarrow>
   (spinner_data \<times> u64 \<times> u64 \<times> u64) option result option" where
  "previous_spin cfg check_proof db info height prev_height prev_data prev_timestamp =
     (if prev_height > START_AMOUNT_BLOCKS cfg then
        (case spin_search db (adr info) prev_height of
           None \<Rightarrow> None
         | Some (Inl e) \<Rightarrow> Some (Inl e)
         | Some (Inr None) \<Rightarrow> Some (Inr None)
         | Some (Inr (Some (prev_spin, spin_timestamp))) \<Rightarrow>
             (case measured_interval cfg db height prev_height prev_data prev_timestamp prev_spin spin_timestamp of
                Inl e \<Rightarrow> Some (Inl e)
              | Inr measured \<Rightarrow>
                  (case calc_spinner_transaction_locked cfg check_proof db (nfo prev_spin) of
                     None \<Rightarrow> None
                   | Some None \<Rightarrow> Some (Inr None)
                   | Some (Some l) \<Rightarrow>
                       Some (Inr (Some (prev_spin\<lparr>locked := l\<rparr>, spin_timestamp, measured, spin_timestamp + interval prev_spin))))))
      else
        (case transactions db (proof_txid (tx_proof info)) of
           None \<Rightarrow> Some (Inr None)
         | Some (tx, proof_height) \<Rightarrow>
             (case block_at_height db proof_height of
                Inl e \<Rightarrow> Some (Inl e)
              | Inr b \<Rightarrow>
                  Some (Inr (Some (zero_spinner_data, block_timestamp b, DURATION_TARGET cfg,
                    block_timestamp b + DURATION_TARGET cfg))))))"

text \<open>The new spin from the energy of the old one, the energy of the locked amount and the damping.\<close>

definition next_spin :: "spinner_config \<Rightarrow> (u256 \<Rightarrow> u256) \<Rightarrow> u64 \<Rightarrow> u64 \<Rightarrow> u64 \<Rightarrow> u64 result" where
  "next_spin cfg sqrt prev_spin elapsed res_data_locked =
     (let picoX = 1000000000000 :: u128;
          prev_spin_pow2 = ucast prev_spin * ucast prev_spin;
          E = picoX * ucast (SPINNER_MOMENT_OF_INERTIA cfg) * prev_spin_pow2 div 2;
          dE = ucast (res_data_locked * SPINNER_ENERGY_COST_MULTIPLIER cfg);
          sumE = E + dE in
      and_then (quot (picoX * prev_spin_pow2 * ucast elapsed) (ucast (SPINNER_DAMPING_RATIO_DIVIDER cfg))) (\<lambda>dampA.
      and_then (if sumE > dampA then quot ((sumE - dampA) * 2) (ucast (SPINNER_MOMENT_OF_INERTIA cfg)) else Inr 0) (\<lambda>x2.
      Inr (ucast ((ucast (sqrt (ucast x2)) :: u128) div 1000000)))))"

text \<open>The averages \<open>medium_locked\<close> and \<open>medium_spin\<close>, and \<open>medium_interval\<close>.\<close>

definition moving_average :: "spinner_config \<Rightarrow> u64 \<Rightarrow> u64 \<Rightarrow> u64 \<Rightarrow> u64 result" where
  "moving_average cfg medium cnt x =
     (if medium > 0 then
        and_then (quot (ucast medium * ucast cnt + ucast (x * SPINNER_COUNT_PRECISION cfg) :: u128)
          (ucast (cnt + SPINNER_COUNT_PRECISION cfg))) (\<lambda>q. Inr (ucast q))
      else Inr x)"

definition average_interval :: "spinner_config \<Rightarrow> u64 \<Rightarrow> spinner_data \<Rightarrow> u64 \<Rightarrow> u64 result" where
  "average_interval cfg prev_height prev_data measured =
     (if prev_height > START_AMOUNT_BLOCKS cfg then
        and_then (quot (2 * SPINNER_COUNT_PRECISION cfg) (approximately_count prev_data)) (\<lambda>q.
          let n = 1 + q in quot (medium_interval prev_data * n + measured) (n + 1))
      else Inr measured)"

definition next_count :: "spinner_config \<Rightarrow> u64 \<Rightarrow> spinner_data \<Rightarrow> u64 \<Rightarrow> u64" where
  "next_count cfg height prev_data medium =
     (let cnt = (if height > START_AMOUNT_BLOCKS cfg then approximately_count prev_data else SPINNER_COUNT_PRECISION cfg) in
      if medium < DURATION_TARGET cfg then cnt + 1
      else if medium > DURATION_TARGET cfg \<and> cnt > 1 then cnt - 1
      else cnt)"

definition next_interval :: "spinner_config \<Rightarrow> u64 \<Rightarrow> u64 \<Rightarrow> u64 \<Rightarrow> u64 \<Rightarrow> u64 result" where
  "next_interval cfg cnt m_spin s medium =
     (let duration_target = ucast (DURATION_TARGET cfg) :: u128 in
      and_then (quot (ucast (cnt + 1) * duration_target * ucast (m_spin + 1)) (ucast (s + 1))) (\<lambda>a.
      and_then (quot (a * duration_target) (ucast medium)) (\<lambda>b.
      and_then (quot b (ucast (SPINNER_COUNT_PRECISION cfg))) (\<lambda>c. Inr (ucast c)))))"

text \<open>The part of \<open>get_spinner_data\<close> after the amount that is locked is known.\<close>

definition next_spinner_data ::
  "spinner_config \<Rightarrow> (u256 \<Rightarrow> u256) \<Rightarrow> u64 \<Rightarrow> u64 \<Rightarrow> spinner_info \<Rightarrow> u64 \<Rightarrow> spinner_data \<Rightarrow> spinner_data \<Rightarrow> u64 \<Rightarrow> u64 \<Rightarrow> u64 \<Rightarrow>
   spinner_data result" where
  "next_spinner_data cfg sqrt height tx_height info prev_height prev_data prev_spin elapsed measured l =
     and_then (quot (SPINNER_SPIN_BLOCK_WINDOW cfg * (medium_spin prev_data + 1)) (spin prev_spin + 1)) (\<lambda>q.
     let bound_height = tx_height + q;
         res_data_locked = (if height > bound_height then SPINNER_AMOUNT_MIN_LOCK cfg else l) in
     and_then (next_spin cfg sqrt (spin prev_spin) elapsed res_data_locked) (\<lambda>s.
     and_then (moving_average cfg (medium_locked prev_data) (approximately_count prev_data) res_data_locked) (\<lambda>m_locked.
     and_then (moving_average cfg (medium_spin prev_data) (approximately_count prev_data) s) (\<lambda>m_spin.
     and_then (average_interval cfg prev_height prev_data measured) (\<lambda>medium.
     let cnt = next_count cfg height prev_data medium in
     and_then (next_interval cfg cnt m_spin s medium) (\<lambda>i.
     Inr \<lparr>nfo = info\<lparr>prevuos_height := prev_height\<rparr>, approximately_count = cnt, locked = l, medium_locked = m_locked,
          spin = s, medium_spin = m_spin, interval = i, medium_interval = medium\<rparr>))))))"

definition get_spinner_data ::
  "spinner_config \<Rightarrow> (u256 \<Rightarrow> u256) \<Rightarrow> proof_check \<Rightarrow> u64 \<Rightarrow> spinner_db \<Rightarrow> spinner_info \<Rightarrow> spinner_data \<Rightarrow> u64 \<Rightarrow>
   (bool \<times> spinner_data \<times> u64) result option" where
  "get_spinner_data cfg sqrt check_proof now db info res time_to =
     (let height = chain_height db - 1 in
      if height < START_AMOUNT_BLOCKS cfg then Some (Inr (True, res\<lparr>interval := DURATION_TARGET cfg\<rparr>, time_to))
      else
        let h = get_spinner_height db (m_view_public_key (adr info));
            prev_height = (if h = 0 then prevuos_height info else h) in
        (case tip_data cfg db height of
           Inl e \<Rightarrow> Some (Inl e)
         | Inr None \<Rightarrow> Some (Inr (False, res, now))
         | Inr (Some (prev_data, prev_timestamp)) \<Rightarrow>
             (case previous_spin cfg check_proof db info height prev_height prev_data prev_timestamp of
                None \<Rightarrow> None
              | Some (Inl e) \<Rightarrow> Some (Inl e)
              | Some (Inr None) \<Rightarrow> Some (Inr (False, res, now))
              | Some (Inr (Some (prev_spin, spin_timestamp, measured, time_to))) \<Rightarrow>
                  if time_to > now then Some (Inr (False, res, time_to))
                  else
                    (case calc_spinner_transaction_locked cfg check_proof db info of
                       None \<Rightarrow> None
                     | Some None \<Rightarrow> Some (Inr (False, res, time_to))
                     | Some (Some l) \<Rightarrow>
                         (case transactions db (proof_txid (tx_proof info)) of
                            None \<Rightarrow> Some (Inl Db_error)
                          | Some (tx, tx_height) \<Rightarrow>
                              (case next_spinner_data cfg sqrt height tx_height info prev_height prev_data prev_spin
                                 (prev_timestamp - spin_timestamp + DURATION_TARGET cfg) measured l of
                                 Inl e \<Rightarrow> Some (Inl e)
                               | Inr d \<Rightarrow> Some (Inr (True, d, time_to))))))))"

text \<open>What \<open>handle_block_to_main_chain\<close> compares of the data in a block with the data it computes.\<close>

definition same_spinner_data :: "spinner_data \<Rightarrow> spinner_data \<Rightarrow> bool" where
  "same_spinner_data data calc \<longleftrightarrow>
     \<not> (locked data \<noteq> locked calc \<or> spin data \<noteq> spin calc \<or> medium_spin data \<noteq> medium_spin calc \<or>
        interval data \<noteq> interval calc \<or> medium_interval data \<noteq> medium_interval calc)"

section \<open>The spin vector\<close>

text \<open>The hashes of the blocks after the one of the transaction, combined by exclusive or.\<close>

fun xor_hashes :: "spinner_db \<Rightarrow> u64 list \<Rightarrow> blob \<Rightarrow> blob result" where
  "xor_hashes db [] bl = Inr bl"
| "xor_hashes db (n # ns) bl =
     and_then (block_at_height db n) (\<lambda>b. xor_hashes db ns (map2 (XOR) bl (block_hash b)))"

definition vector_of_beacon :: "blob \<Rightarrow> blob \<Rightarrow> i8 list" where
  "vector_of_beacon txid bl = concat (map (\<lambda>n. cn_fast_hash (n # txid @ bl)) [1, 2, 3, 4, 5, 6, 7, 8])"

definition spin_of_vector :: "(u256 \<Rightarrow> u256) \<Rightarrow> u64 \<Rightarrow> i8 list \<Rightarrow> spin_type" where
  "spin_of_vector sqrt m v =
     \<lparr>spin_m = ucast (ucast (m * MEDIUM_MODULE_OF_DIMENSIONALS_VECTOR sqrt) div calc_vector_module sqrt v), spin_v = v\<rparr>"

definition get_spin :: "spinner_config \<Rightarrow> (u256 \<Rightarrow> u256) \<Rightarrow> spinner_db \<Rightarrow> blob \<Rightarrow> u64 \<Rightarrow> spin_type option result" where
  "get_spin cfg sqrt db txid m =
     (case transactions db txid of
        None \<Rightarrow> Inl Db_error
      | Some (tx, bl_hash_height) \<Rightarrow>
          if bl_hash_height + SPINNER_PVRB_BLOCK_WINDOW cfg \<ge> chain_height db then Inr None
          else
            and_then (block_at_height db (bl_hash_height + 1)) (\<lambda>b.
            and_then (xor_hashes db
              (map of_nat [unat (bl_hash_height + 2)..<unat (bl_hash_height + SPINNER_PVRB_BLOCK_WINDOW cfg)]) (block_hash b)) (\<lambda>bl.
            Inr (Some (spin_of_vector sqrt m (vector_of_beacon txid bl))))))"

section \<open>The search\<close>

lemma spin_search_diverges:
  assumes "block_at_height db h = Inr b" and "spin_data b = Parsed d" and "adr (nfo d) \<noteq> a"
  shows "spin_search db a h = None"
proof (rule ccontr)
  let ?foreign = "\<lambda>db a h. block_at_height db h = Inr b \<and> spin_data b = Parsed d \<and> adr (nfo d) \<noteq> a"
  assume "spin_search db a h \<noteq> None"
  then obtain y where "spin_search db a h = Some y"
    by blast
  then have "\<not> ?foreign db a h"
  proof (rule spin_search.raw_induct [where P = "\<lambda>db a h y. \<not> ?foreign db a h", rotated])
    fix search db a h y
    assume IH: "\<And>db a h y. search db a h = Some y \<Longrightarrow> \<not> ?foreign db a h"
      and body: "(case block_at_height db h of Inl e \<Rightarrow> Some (Inl e)
        | Inr b \<Rightarrow> (case spin_data b of
            Parsed prev_spin \<Rightarrow> if adr (nfo prev_spin) = a then Some (Inr (Some (prev_spin, block_timestamp b))) else search db a h
          | _ \<Rightarrow> Some (Inr None))) = Some y"
    show "\<not> ?foreign db a h"
    proof
      assume foreign: "?foreign db a h"
      with body have "search db a h = Some y"
        by simp
      with IH foreign show False
        by blast
    qed
  qed
  with assms show False
    by blast
qed

lemma spin_search_found:
  assumes "spin_search db a h = Some (Inr (Some (prev_spin, ts)))"
  shows "\<exists>b. block_at_height db h = Inr b \<and> spin_data b = Parsed prev_spin \<and> adr (nfo prev_spin) = a \<and> ts = block_timestamp b"
proof (cases "\<exists>b d. block_at_height db h = Inr b \<and> spin_data b = Parsed d \<and> adr (nfo d) \<noteq> a")
  case True
  then show ?thesis
    using assms spin_search_diverges by fastforce
next
  case False
  then show ?thesis
    using assms by (subst (asm) spin_search.simps) (auto split: sum.splits field.splits if_splits)
qed

section \<open>Averages\<close>

lemma weighted_average:
  fixes m x c p :: nat
  assumes "0 < p"
  shows "min m x \<le> (m * c + x * p) div (c + p)" and "(m * c + x * p) div (c + p) \<le> max m x"
proof -
  have "min m x * (c + p) \<le> m * c + x * p"
    by (simp add: algebra_simps add_mono)
  then have "min m x * (c + p) div (c + p) \<le> (m * c + x * p) div (c + p)"
    by (rule div_le_mono)
  then show "min m x \<le> (m * c + x * p) div (c + p)"
    using assms by simp
  have "m * c + x * p \<le> max m x * (c + p)"
    by (simp add: algebra_simps add_mono)
  then have "(m * c + x * p) div (c + p) \<le> max m x * (c + p) div (c + p)"
    by (rule div_le_mono)
  then show "(m * c + x * p) div (c + p) \<le> max m x"
    using assms by simp
qed

lemma moving_average_between:
  assumes "moving_average cfg m c x = Inr y" and "0 < SPINNER_COUNT_PRECISION cfg"
    and "unat x * unat (SPINNER_COUNT_PRECISION cfg) < 2 ^ 64" and "unat c + unat (SPINNER_COUNT_PRECISION cfg) < 2 ^ 64"
  shows "if m = 0 then y = x else min m x \<le> y \<and> y \<le> max m x"
proof (cases "m = 0")
  case False
  define p where "p = SPINNER_COUNT_PRECISION cfg"
  define q where "q = (unat m * unat c + unat x * unat p) div (unat c + unat p)"
  have p: "0 < unat p" "unat (x * p) = unat x * unat p" "unat (c + p) = unat c + unat p"
    using assms(2-4) by (simp_all add: p_def word_less_nat_alt unat_word_ariths)
  have q: "min (unat m) (unat x) \<le> q" "q \<le> max (unat m) (unat x)"
    unfolding q_def by (rule weighted_average [OF p(1)])+
  then have "q < 2 ^ 64"
    using unat_u64_less [of m] unat_u64_less [of x] by simp
  have "unat m * unat c \<le> (2 ^ 64 - 1) * (2 ^ 64 - 1)"
    using unat_u64_less [of m] unat_u64_less [of c] by (intro mult_le_mono) simp_all
  then have "unat m * unat c + unat x * unat p < 2 ^ 128"
    using assms(3) by (simp add: p_def)
  moreover have "unat (ucast w :: u128) = unat w" for w :: u64
    using unat_u64_less [of w] by (simp add: unsigned_ucast_eq take_bit_nat_eq_self)
  then have "unat (ucast m * ucast c + ucast (x * p) :: u128) = (unat m * unat c + unat x * unat p) mod 2 ^ 128"
    using p(2) by (simp add: unat_word_ariths mod_simps)
  ultimately have "unat (ucast m * ucast c + ucast (x * p) :: u128) = unat m * unat c + unat x * unat p"
    by simp
  moreover have "unat (ucast (c + p) :: u128) = unat c + unat p"
    using p(3) unat_u64_less [of "c + p"] by (simp add: unsigned_ucast_eq take_bit_nat_eq_self)
  ultimately have "unat ((ucast m * ucast c + ucast (x * p) :: u128) div ucast (c + p)) = q"
    by (simp add: unat_div_distrib q_def)
  moreover have "y = ucast ((ucast m * ucast c + ucast (x * p) :: u128) div ucast (c + p))"
    using assms(1) False by (auto simp: moving_average_def quot_def p_def and_then_Inr word_neq_0_conv split: if_splits)
  ultimately have "unat y = q"
    using \<open>q < 2 ^ 64\<close> by (simp add: unsigned_ucast_eq take_bit_nat_eq_self)
  then show ?thesis
    using False q by (simp add: word_le_nat_alt min_def max_def split: if_splits)
qed (use assms(1) in \<open>simp add: moving_average_def\<close>)

section \<open>The drawn vector\<close>

lemma rounded_module:
  fixes m M :: nat
  assumes "1 \<le> M" and "M \<le> 2048"
  shows "m \<le> M * (m * 1024 div M) div 1024 + 2" and "M * (m * 1024 div M) div 1024 \<le> m"
proof -
  define q where "q = m * 1024 div M"
  have q: "M * q \<le> m * 1024" "m * 1024 < M * q + M"
    using dividend_less_times_div [of M "m * 1024"] assms(1) by (simp_all add: q_def add.commute)
  then have "m * 1024 < M * q + 2048"
    using assms(2) by linarith
  then show "m \<le> M * (m * 1024 div M) div 1024 + 2"
    unfolding q_def [symmetric] by linarith
  show "M * (m * 1024 div M) div 1024 \<le> m"
    unfolding q_def [symmetric] using q(1) by linarith
qed

lemma drawn_module:
  assumes "integer_sqrt sqrt" and "unat m < 2 ^ 54" and "length v = GYRO_NUMBER_OF_DIMENSIONALS"
  shows "unat m \<le> unat (spin_get_module sqrt (spin_of_vector sqrt m v)) + 1 \<and>
    unat (spin_get_module sqrt (spin_of_vector sqrt m v)) \<le> unat m + 1"
proof -
  define M where "M = unat (calc_vector_module sqrt v)"
  have M: "1 \<le> M" "M \<le> 2048"
    unfolding M_def by (rule calc_vector_module_bounds [OF assms(1,3)])+
  note medium = medium_module [OF assms(1)]
  define q where "q = unat m * 1024 div M"
  have "q \<le> unat m * 1024"
    by (simp add: q_def div_le_dividend)
  then have q: "q < 2 ^ 64"
    using assms(2) by simp
  have "unat (m * 1024) = unat m * 1024"
    using assms(2) by (simp add: unat_word_ariths)
  then have "unat (ucast (m * 1024) :: u128) = unat m * 1024"
    using assms(2) by (simp add: unsigned_ucast_eq take_bit_nat_eq_self)
  then have "unat (ucast (m * 1024) div calc_vector_module sqrt v) = q"
    by (simp add: unat_div_distrib q_def M_def)
  then have spin_m: "unat (spin_m (spin_of_vector sqrt m v)) = q"
    using q by (simp add: spin_of_vector_def medium unsigned_ucast_eq take_bit_nat_eq_self)
  note round = rounded_module [OF M, of "unat m", folded q_def]
  have "M * q \<le> unat m * 1024"
    by (simp add: q_def)
  then have "unat (calc_vector_module sqrt v * ucast (spin_m (spin_of_vector sqrt m v)) :: u128) = M * q"
    using assms(2) q by (simp add: unat_word_ariths M_def [symmetric] spin_m unsigned_ucast_eq take_bit_nat_eq_self)
  then have "unat (get_module64 sqrt (spin_m (spin_of_vector sqrt m v)) v) = M * q div 1024 + 1"
    using round(2) assms(2) by (simp add: get_module64_def medium unat_word_ariths unat_div_distrib)
  then have "unat (spin_get_module sqrt (spin_of_vector sqrt m v)) = M * q div 1024 + 1"
    using round(2) assms(2) by (simp add: spin_get_module_def spin_of_vector_def unsigned_ucast_eq take_bit_nat_eq_self)
  then show ?thesis
    using round by simp
qed

section \<open>A successful call\<close>

definition previous_height :: "spinner_db \<Rightarrow> spinner_info \<Rightarrow> u64" where
  "previous_height db info =
     (let h = get_spinner_height db (m_view_public_key (adr info)) in if h = 0 then prevuos_height info else h)"

lemma get_spinner_data_success:
  assumes "get_spinner_data cfg sqrt check_proof now db info res time_to = Some (Inr (True, d, t))"
    and "\<not> chain_height db - 1 < START_AMOUNT_BLOCKS cfg"
  obtains prev_data prev_timestamp prev_spin spin_timestamp measured l tx_height where
    "tip_data cfg db (chain_height db - 1) = Inr (Some (prev_data, prev_timestamp))"
    "previous_spin cfg check_proof db info (chain_height db - 1) (previous_height db info) prev_data prev_timestamp =
       Some (Inr (Some (prev_spin, spin_timestamp, measured, t)))" "t \<le> now"
    "calc_spinner_transaction_locked cfg check_proof db info = Some (Some l)"
    "next_spinner_data cfg sqrt (chain_height db - 1) tx_height info (previous_height db info) prev_data prev_spin
       (prev_timestamp - spin_timestamp + DURATION_TARGET cfg) measured l = Inr d"
  using assms unfolding get_spinner_data_def Let_def previous_height_def
  by (auto split: sum.splits option.splits prod.splits if_splits simp: not_less)

lemma next_spinner_data_success:
  assumes "next_spinner_data cfg sqrt height tx_height info prev_height prev_data prev_spin elapsed measured l = Inr d"
  shows "moving_average cfg (medium_spin prev_data) (approximately_count prev_data) (spin d) = Inr (medium_spin d)"
    and "average_interval cfg prev_height prev_data measured = Inr (medium_interval d)"
    and "approximately_count d = next_count cfg height prev_data (medium_interval d)"
    and "next_interval cfg (approximately_count d) (medium_spin d) (spin d) (medium_interval d) = Inr (interval d)"
    and "locked d = l" and "nfo d = info\<lparr>prevuos_height := prev_height\<rparr>"
  using assms unfolding next_spinner_data_def Let_def by (auto simp: and_then_Inr)

lemma next_count_bounds:
  assumes "height > START_AMOUNT_BLOCKS cfg" and "1 \<le> unat (approximately_count prev_data)" and "unat (approximately_count prev_data) + 1 < 2 ^ 64"
  shows "1 \<le> unat (next_count cfg height prev_data m) \<and>
    unat (next_count cfg height prev_data m) \<le> unat (approximately_count prev_data) + 1 \<and>
    unat (approximately_count prev_data) \<le> unat (next_count cfg height prev_data m) + 1"
proof -
  have "unat (approximately_count prev_data + 1) = unat (approximately_count prev_data) + 1"
    using assms(3) by (simp add: unat_word_ariths)
  moreover have "unat (approximately_count prev_data - 1) = unat (approximately_count prev_data) - 1"
    using assms(2) by (subst unat_sub) (simp_all add: word_le_nat_alt)
  ultimately show ?thesis
    using assms by (auto simp: next_count_def Let_def word_less_nat_alt)
qed

lemma previous_spin_time:
  assumes "previous_spin cfg check_proof db info height prev_height prev_data prev_timestamp = Some (Inr (Some (ps, ts, measured, t)))"
    and "prev_height > START_AMOUNT_BLOCKS cfg"
  shows "\<exists>b prev_spin. block_at_height db prev_height = Inr b \<and> spin_data b = Parsed prev_spin \<and> adr (nfo prev_spin) = adr info \<and>
    t = block_timestamp b + interval prev_spin"
  using assms by (auto simp: previous_spin_def split: option.splits sum.splits dest!: spin_search_found)

section \<open>Properties\<close>

text \<open>A small instance: a spinner with a locked transaction in the first block, and a second block by another spinner.\<close>

definition sample_config :: spinner_config where
  "sample_config = default_spinner_config\<lparr>START_AMOUNT_BLOCKS := 0\<rparr>"

definition sample_info :: "byte \<Rightarrow> spinner_info" where
  "sample_info k = (nfo zero_spinner_data)\<lparr>adr := \<lparr>m_spend_public_key = [k], m_view_public_key = [k]\<rparr>\<rparr>"

definition sample_tip :: spinner_data where
  "sample_tip = zero_spinner_data\<lparr>nfo := sample_info 2, approximately_count := 10, medium_spin := 7, medium_interval := 120\<rparr>"

definition sample_chain :: spinner_db where
  "sample_chain =
     \<lparr>chain = [\<lparr>block_timestamp = 100, block_hash = [], spin_data = Missing\<rparr>,
               \<lparr>block_timestamp = 400, block_hash = [], spin_data = Parsed sample_tip\<rparr>],
      transactions = (\<lambda>_. Some (\<lparr>unlock_time = CRYPTONOTE_SPINNED_MONEY_LOCKED_BLOCKS, spin_tx_proof = Missing\<rparr>, 0)),
      spinner_heights = (\<lambda>_. None)\<rparr>"

lemmas sample_defs = sample_config_def sample_info_def sample_tip_def sample_chain_def default_spinner_config_def default_config_def
  cn_config.defs zero_spinner_data_def

lemma sample_values:
  "chain_height sample_chain = 2" "spinner_heights sample_chain = (\<lambda>_. None)" "START_AMOUNT_BLOCKS sample_config = 0"
  "DURATION_TARGET sample_config = 120" "prevuos_height (sample_info k) = 0"
  "transactions sample_chain = (\<lambda>_. Some (\<lparr>unlock_time = CRYPTONOTE_SPINNED_MONEY_LOCKED_BLOCKS, spin_tx_proof = Missing\<rparr>, 0))"
  "SPINNER_COUNT_PRECISION sample_config = 10" "approximately_count sample_tip = 10" "medium_spin sample_tip = 7"
  by (simp_all add: chain_height_def sample_defs)

lemma sample_tip_data: "tip_data sample_config sample_chain (chain_height sample_chain - 1) = Inr (Some (sample_tip, 400))"
  by (simp add: tip_data_def chain_height_def block_at_height_def sample_chain_def)
    (simp add: sample_defs)

lemma sample_call:
  "\<exists>d. get_spinner_data sample_config (\<lambda>x. of_nat (isqrt (unat x))) (\<lambda>_ _ _ _. Some 0) 1000 sample_chain (sample_info 1) zero_spinner_data 0 =
     Some (Inr (True, d, 220)) \<and> spin d = 0"
proof -
  have calc: "calc_spinner_transaction_locked sample_config (\<lambda>_ _ _ _. Some 0) sample_chain (sample_info 1) = Some (Some 0)"
    by (simp add: calc_spinner_transaction_locked_def sample_chain_def locked_loop.simps)
  have ps: "previous_spin sample_config (\<lambda>_ _ _ _. Some 0) sample_chain (sample_info 1) 1 0 sample_tip 400 =
      Some (Inr (Some (zero_spinner_data, 100, 120, 220)))"
    by (simp add: previous_spin_def sample_chain_def block_at_height_def) (simp add: sample_defs)
  have nx: "\<exists>d. next_spinner_data sample_config (\<lambda>x. of_nat (isqrt (unat x))) 1 0 (sample_info 1) 0 sample_tip zero_spinner_data 420 120 0 = Inr d \<and> spin d = 0"
    by (simp add: next_spinner_data_def next_spin_def moving_average_def average_interval_def next_count_def next_interval_def
        quot_def sample_defs Let_def COIN_DEFAULT_def isqrt.simps)
  show ?thesis
    using nx sample_tip_data ps by (auto simp: get_spinner_data_def Let_def get_spinner_height_def calc sample_values)
qed

text \<open>
  C10. A spinner is held to its interval and to small steps: when \<open>get_spinner_data\<close> succeeds after the start
  blocks, the time from which the spinner may produce a block is not in the future, it is the time of its previous block plus the interval
  of that block, the number of spinners changes by at most one and stays positive, and
  the average spin lies between the old average and the new spin (as long as the products of
  the average fit 64 bits).
\<close>

theorem spinner_data_bounds:
  assumes "get_spinner_data cfg sqrt check_proof now db info res time_to = Some (Inr (True, d, t))"
    and "START_AMOUNT_BLOCKS cfg < chain_height db - 1"
    and "tip_data cfg db (chain_height db - 1) = Inr (Some (prev_data, prev_timestamp))"
    and "0 < SPINNER_COUNT_PRECISION cfg" and "1 \<le> unat (approximately_count prev_data)"
    and "unat (approximately_count prev_data) + unat (SPINNER_COUNT_PRECISION cfg) < 2 ^ 64"
    and "unat (spin d) * unat (SPINNER_COUNT_PRECISION cfg) < 2 ^ 64"
  shows "t \<le> now \<and>
    (previous_height db info > START_AMOUNT_BLOCKS cfg \<longrightarrow>
      (\<exists>b prev_spin. block_at_height db (previous_height db info) = Inr b \<and> spin_data b = Parsed prev_spin \<and>
        adr (nfo prev_spin) = adr info \<and> t = block_timestamp b + interval prev_spin)) \<and>
    1 \<le> unat (approximately_count d) \<and>
    unat (approximately_count d) \<le> unat (approximately_count prev_data) + 1 \<and>
    unat (approximately_count prev_data) \<le> unat (approximately_count d) + 1 \<and>
    (if medium_spin prev_data = 0 then medium_spin d = spin d
     else min (medium_spin prev_data) (spin d) \<le> medium_spin d \<and> medium_spin d \<le> max (medium_spin prev_data) (spin d))"
proof -
  from assms(1) obtain prev_spin spin_timestamp measured l tx_height where call:
    "previous_spin cfg check_proof db info (chain_height db - 1) (previous_height db info) prev_data prev_timestamp =
       Some (Inr (Some (prev_spin, spin_timestamp, measured, t)))" "t \<le> now"
    "next_spinner_data cfg sqrt (chain_height db - 1) tx_height info (previous_height db info) prev_data prev_spin
       (prev_timestamp - spin_timestamp + DURATION_TARGET cfg) measured l = Inr d"
    using assms(2,3) by (elim get_spinner_data_success) auto
  note d = next_spinner_data_success [OF call(3)]
  have "0 < unat (SPINNER_COUNT_PRECISION cfg)"
    using assms(4) by (simp add: word_less_nat_alt)
  then show ?thesis
    using call(2) previous_spin_time [OF call(1)] moving_average_between [OF d(1) assms(4,7,6)]
      next_count_bounds [OF assms(2,5), of "medium_interval d"] assms(6) by (auto simp: d(3))
qed

theorem spinner_data_bounds_witness:
  "\<exists>d. get_spinner_data sample_config (\<lambda>x. of_nat (isqrt (unat x))) (\<lambda>_ _ _ _. Some 0) 1000 sample_chain (sample_info 1) zero_spinner_data 0 =
     Some (Inr (True, d, 220)) \<and> 1 \<le> unat (approximately_count d) \<and> unat (approximately_count d) \<le> 11 \<and> medium_spin d \<le> 7"
proof -
  obtain d where d: "get_spinner_data sample_config (\<lambda>x. of_nat (isqrt (unat x))) (\<lambda>_ _ _ _. Some 0) 1000 sample_chain (sample_info 1)
      zero_spinner_data 0 = Some (Inr (True, d, 220))" "spin d = 0"
    using sample_call by blast
  then show ?thesis
    using spinner_data_bounds [OF d(1) _ sample_tip_data] by (simp add: sample_values)
qed

text \<open>
  C21. A foreign block makes the search endless: if the spinner has no recorded height and claims as its
  previous block, after the start blocks, one that another address produced, then \<open>get_spinner_data\<close> never returns, because the loop looks
  at the same block again and again.
\<close>

theorem foreign_block_hangs:
  assumes "get_spinner_height db (m_view_public_key (adr info)) = 0" and "START_AMOUNT_BLOCKS cfg < prevuos_height info"
    and "block_at_height db (prevuos_height info) = Inr b" and "spin_data b = Parsed d" and "adr (nfo d) \<noteq> adr info"
    and "tip_data cfg db (chain_height db - 1) = Inr (Some tip)" and "START_AMOUNT_BLOCKS cfg \<le> chain_height db - 1"
  shows "get_spinner_data cfg sqrt check_proof now db info res time_to = None"
proof -
  have "spin_search db (adr info) (prevuos_height info) = None"
    by (rule spin_search_diverges [OF assms(3-5)])
  then show ?thesis
    using assms(1,2,6,7) by (simp add: get_spinner_data_def previous_spin_def Let_def not_less split: prod.split)
qed

theorem foreign_block_hangs_witness:
  "get_spinner_data sample_config (\<lambda>x. of_nat (isqrt (unat x))) (\<lambda>_ _ _ _. Some 0) 1000 sample_chain
     (sample_info 1\<lparr>prevuos_height := 1\<rparr>) zero_spinner_data 0 = None"
  by (rule foreign_block_hangs [OF _ _ _ _ _ sample_tip_data, of _ "chain sample_chain ! 1" sample_tip])
    (simp_all add: get_spinner_height_def sample_values block_at_height_def, simp_all add: sample_chain_def sample_tip_def sample_info_def)

text \<open>
  C22. The number of spinners in a block is not checked, and zero stops the chain: the data of a block is
  accepted with any \<open>approximately_count\<close> (and \<open>medium_locked\<close>) in place of the computed one, and after a block with the count 0 no call of
  \<open>get_spinner_data\<close> for a spinner that has already produced a block after the start blocks succeeds.
\<close>

theorem unchecked_count_stops_chain:
  assumes "START_AMOUNT_BLOCKS cfg < chain_height db - 1" and "block_at_height db (chain_height db - 1) = Inr b"
    and "spin_data b = Parsed d" and "approximately_count d = 0" and "START_AMOUNT_BLOCKS cfg < previous_height db info"
  shows "same_spinner_data d (d\<lparr>approximately_count := c, medium_locked := l\<rparr>) \<and>
    get_spinner_data cfg sqrt check_proof now db info res time_to \<noteq> Some (Inr (True, r, t))"
proof
  show "same_spinner_data d (d\<lparr>approximately_count := c, medium_locked := l\<rparr>)"
    by (simp add: same_spinner_data_def)
  show "get_spinner_data cfg sqrt check_proof now db info res time_to \<noteq> Some (Inr (True, r, t))"
  proof
    assume run: "get_spinner_data cfg sqrt check_proof now db info res time_to = Some (Inr (True, r, t))"
    have "tip_data cfg db (chain_height db - 1) = Inr (Some (d, block_timestamp b))"
      using assms(1-3) by (simp add: tip_data_def)
    with run assms(1) obtain measured where "average_interval cfg (previous_height db info) d measured = Inr (medium_interval r)"
      by (elim get_spinner_data_success) (auto dest: next_spinner_data_success(2))
    then show False
      using assms(4,5) by (simp add: average_interval_def quot_def)
  qed
qed

theorem unchecked_count_stops_chain_witness:
  "get_spinner_data sample_config (\<lambda>x. of_nat (isqrt (unat x))) (\<lambda>_ _ _ _. Some 0) 1000
     (sample_chain\<lparr>chain := [\<lparr>block_timestamp = 100, block_hash = [], spin_data = Missing\<rparr>,
        \<lparr>block_timestamp = 400, block_hash = [], spin_data = Parsed (sample_tip\<lparr>approximately_count := 0\<rparr>)\<rparr>]\<rparr>)
     (sample_info 2\<lparr>prevuos_height := 1\<rparr>) zero_spinner_data 0 \<noteq> Some (Inr (True, zero_spinner_data, 400))"
  using unchecked_count_stops_chain [of sample_config
    "sample_chain\<lparr>chain := [\<lparr>block_timestamp = 100, block_hash = [], spin_data = Missing\<rparr>,
        \<lparr>block_timestamp = 400, block_hash = [], spin_data = Parsed (sample_tip\<lparr>approximately_count := 0\<rparr>)\<rparr>]\<rparr>"
    "\<lparr>block_timestamp = 400, block_hash = [], spin_data = Parsed (sample_tip\<lparr>approximately_count := 0\<rparr>)\<rparr>"
    "sample_tip\<lparr>approximately_count := 0\<rparr>" "sample_info 2\<lparr>prevuos_height := 1\<rparr>"]
  by (simp add: chain_height_def sample_values block_at_height_def previous_height_def get_spinner_height_def)

text \<open>
  C19. The spin vector that is drawn has the length that was asked for: \<open>get_spin\<close> for a spin \<open>m\<close> below \<open>2\<^sup>5\<^sup>4\<close> returns
  a vector of 256 bytes, the eight hashes of the beacon, and a factor with which the module of the result is
  \<open>m\<close> up to one. The division never is by zero.
\<close>

theorem spin_vector_module:
  assumes "integer_sqrt sqrt" and "get_spin cfg sqrt db txid m = Inr (Some s)" and "unat m < 2 ^ 54"
  shows "length (spin_v s) = GYRO_NUMBER_OF_DIMENSIONALS \<and> calc_vector_module sqrt (spin_v s) \<noteq> 0 \<and>
    unat m \<le> unat (spin_get_module sqrt s) + 1 \<and> unat (spin_get_module sqrt s) \<le> unat m + 1"
proof -
  obtain bl where s: "s = spin_of_vector sqrt m (vector_of_beacon txid bl)"
    using assms(2) by (auto simp: get_spin_def and_then_Inr split: option.splits if_splits)
  have len: "length (spin_v s) = GYRO_NUMBER_OF_DIMENSIONALS"
    by (simp add: s spin_of_vector_def vector_of_beacon_def GYRO_NUMBER_OF_DIMENSIONALS_def)
  then show ?thesis
    using drawn_module [OF assms(1,3), of "spin_v s"] calc_vector_module_bounds(1) [OF assms(1) len]
    by (auto simp: s spin_of_vector_def)
qed

theorem spin_vector_module_witness:
  "\<exists>s. get_spin (sample_config\<lparr>SPINNER_PVRB_BLOCK_WINDOW := 1\<rparr>) (\<lambda>x. of_nat (isqrt (unat x))) sample_chain [] 500 = Inr (Some s) \<and>
     499 \<le> unat (spin_get_module (\<lambda>x. of_nat (isqrt (unat x))) s) \<and> unat (spin_get_module (\<lambda>x. of_nat (isqrt (unat x))) s) \<le> 501"
proof -
  have "\<exists>s. get_spin (sample_config\<lparr>SPINNER_PVRB_BLOCK_WINDOW := 1\<rparr>) (\<lambda>x. of_nat (isqrt (unat x))) sample_chain [] 500 = Inr (Some s)"
    by (simp add: get_spin_def chain_height_def block_at_height_def sample_chain_def word_le_nat_alt)
  then obtain s where s: "get_spin (sample_config\<lparr>SPINNER_PVRB_BLOCK_WINDOW := 1\<rparr>) (\<lambda>x. of_nat (isqrt (unat x))) sample_chain [] 500 = Inr (Some s)"
    by blast
  then show ?thesis
    using spin_vector_module [OF sqrt_instance s] by auto
qed

end
