(* ===== verification/Sift_Heap.thy ===== *)
theory Sift_Heap
  imports Gyro_Prelude
begin

text \<open>
  Binary heaps stored in an array, with the root at index 0 and node 1 as its only child:
  the exchange of two entries, the two ways to restore the order after one entry has changed
  (towards the leaves and towards the root), and what each of them achieves. The order is a
  parameter, so that one set of lemmas serves the two heaps of a median structure, one
  ordered upwards and one ordered downwards.
\<close>

definition exchange :: "('i \<Rightarrow> 'a) \<Rightarrow> 'i \<Rightarrow> 'i \<Rightarrow> 'i \<Rightarrow> 'a" where
  "exchange f i j = f(i := f j, j := f i)"

lemma exchange_apply: "exchange f i j k = (if k = j then f i else if k = i then f j else f k)"
  by (simp add: exchange_def)

text \<open>
  Restoring the order downwards, starting at the first child \<open>i\<close> of the changed entry, and
  upwards, starting at the changed entry itself; the second also reports whether the root
  was reached.
\<close>

function sift_down :: "('a \<Rightarrow> 'a \<Rightarrow> bool) \<Rightarrow> nat \<Rightarrow> (nat \<Rightarrow> 'a) \<Rightarrow> nat \<Rightarrow> nat \<Rightarrow> 'a" where
  "sift_down le n f i =
    (if 0 < i \<and> i \<le> n
     then let c = (if i < n \<and> \<not> le (f i) (f (Suc i)) then Suc i else i)
       in if le (f (c div 2)) (f c) then f
          else sift_down le n (exchange f c (c div 2)) (2 * c)
     else f)"
  by pat_completeness auto

termination by (relation "measure (\<lambda>(le, n, f, i). Suc n - i)") (auto split: if_splits)

declare sift_down.simps [simp del]

function sift_up :: "('a \<Rightarrow> 'a \<Rightarrow> bool) \<Rightarrow> (nat \<Rightarrow> 'a) \<Rightarrow> nat \<Rightarrow> (nat \<Rightarrow> 'a) \<times> bool" where
  "sift_up le f i =
    (if 0 < i \<and> \<not> le (f (i div 2)) (f i)
     then sift_up le (exchange f i (i div 2)) (i div 2)
     else (f, i = 0))"
  by pat_completeness auto

termination by (relation "measure (\<lambda>(le, f, i). i)") auto

declare sift_up.simps [simp del]

text \<open>The first \<open>n\<close> entries below the root are in order.\<close>

definition heap_on :: "('a \<Rightarrow> 'a \<Rightarrow> bool) \<Rightarrow> nat \<Rightarrow> (nat \<Rightarrow> 'a) \<Rightarrow> bool" where
  "heap_on le n f \<longleftrightarrow> (\<forall>i. 0 < i \<longrightarrow> i \<le> n \<longrightarrow> le (f (i div 2)) (f i))"

lemma heap_onD: "heap_on le n f \<Longrightarrow> 0 < i \<Longrightarrow> i \<le> n \<Longrightarrow> le (f (i div 2)) (f i)"
  by (simp add: heap_on_def)

lemma heap_onI: "(\<And>i. 0 < i \<Longrightarrow> i \<le> n \<Longrightarrow> le (f (i div 2)) (f i)) \<Longrightarrow> heap_on le n f"
  by (simp add: heap_on_def)

lemma heap_on_cong: "(\<And>i. i \<le> n \<Longrightarrow> f i = g i) \<Longrightarrow> heap_on le n f \<longleftrightarrow> heap_on le n g"
  by (auto simp: heap_on_def)

lemma heap_on_empty [simp]: "heap_on le 0 f"
  by (simp add: heap_on_def)

text \<open>
  In order but for the edges that leave entry \<open>p\<close>, the entries on the far side of \<open>p\<close> being
  in order; and in order but for the edge that enters \<open>p\<close>.
\<close>

definition open_below :: "('a \<Rightarrow> 'a \<Rightarrow> bool) \<Rightarrow> nat \<Rightarrow> nat \<Rightarrow> (nat \<Rightarrow> 'a) \<Rightarrow> bool" where
  "open_below le n p f \<longleftrightarrow>
    (\<forall>j. 0 < j \<longrightarrow> j \<le> n \<longrightarrow> j div 2 \<noteq> p \<longrightarrow> le (f (j div 2)) (f j)) \<and>
    (\<forall>j. 0 < j \<longrightarrow> j \<le> n \<longrightarrow> j div 2 = p \<longrightarrow> le (f (p div 2)) (f j))"

definition open_above :: "('a \<Rightarrow> 'a \<Rightarrow> bool) \<Rightarrow> nat \<Rightarrow> nat \<Rightarrow> (nat \<Rightarrow> 'a) \<Rightarrow> bool" where
  "open_above le n p f \<longleftrightarrow>
    (\<forall>j. 0 < j \<longrightarrow> j \<le> n \<longrightarrow> j \<noteq> p \<longrightarrow> le (f (j div 2)) (f j)) \<and>
    (\<forall>j. 0 < j \<longrightarrow> j \<le> n \<longrightarrow> 0 < p \<longrightarrow> j div 2 = p \<longrightarrow> le (f (p div 2)) (f j))"

lemma sift_down_outside: "0 < p \<Longrightarrow> k < p \<or> n < k \<Longrightarrow> sift_down le n f (2 * p) k = f k"
proof (induction le n f "2 * p" arbitrary: p rule: sift_down.induct)
  case (1 le n f)
  define c where "c = (if 2 * p < n \<and> \<not> le (f (2 * p)) (f (Suc (2 * p))) then Suc (2 * p) else 2 * p)"
  have c: "c div 2 = p" "p < c" "0 < c"
    using 1(2) by (auto simp: c_def)
  show ?case
  proof (cases "2 * p \<le> n \<and> \<not> le (f p) (f c)")
    case True
    then have "c \<le> n"
      by (auto simp: c_def)
    have "sift_down le n f (2 * p) k = sift_down le n (exchange f c p) (2 * c) k"
      using True 1(2) c by (subst sift_down.simps) (simp add: Let_def flip: c_def)
    also have "\<dots> = exchange f c p k"
      using 1(1) [OF _ c_def _ refl] True 1(2,3) c by auto
    also have "\<dots> = f k"
      using 1(3) c \<open>c \<le> n\<close> by (auto simp: exchange_apply)
    finally show ?thesis .
  next
    case False
    then show ?thesis
      using c by (subst sift_down.simps) (auto simp: Let_def simp flip: c_def)
  qed
qed

locale heap_order =
  fixes le :: "'a \<Rightarrow> 'a \<Rightarrow> bool"
  assumes total: "le x y \<or> le y x"
    and trans: "le x y \<Longrightarrow> le y z \<Longrightarrow> le x z"
begin

lemma refl: "le x x"
  using total by blast

lemma not_le: "\<not> le x y \<Longrightarrow> le y x"
  using total by blast

lemma root_first:
  assumes "heap_on le n f"
  shows "i \<le> n \<Longrightarrow> le (f 0) (f i)"
proof (induction i rule: less_induct)
  case (less i)
  show ?case
  proof (cases "i = 0")
    case True
    then show ?thesis
      by (simp add: refl)
  next
    case False
    then have "le (f 0) (f (i div 2))"
      using less by auto
    moreover have "le (f (i div 2)) (f i)"
      using heap_onD [OF assms] False less.prems by simp
    ultimately show ?thesis
      by (rule trans)
  qed
qed

lemma top_first:
  assumes "heap_on le n f"
  shows "0 < i \<Longrightarrow> i \<le> n \<Longrightarrow> le (f 1) (f i)"
proof (induction i rule: less_induct)
  case (less i)
  show ?case
  proof (cases "i = 1")
    case True
    then show ?thesis
      by (simp add: refl)
  next
    case False
    then have "0 < i div 2" "i div 2 < i"
      using less.prems by auto
    then have "le (f 1) (f (i div 2))"
      using less by auto
    moreover have "le (f (i div 2)) (f i)"
      using heap_onD [OF assms] less.prems by simp
    ultimately show ?thesis
      by (rule trans)
  qed
qed

lemma open_below_exchange:
  assumes open_p: "open_below le n p f" and "0 < p" and c: "c div 2 = p" "c \<le> n"
    and least: "\<And>j. j \<le> n \<Longrightarrow> j div 2 = p \<Longrightarrow> le (f c) (f j)" and swap: "\<not> le (f p) (f c)"
  shows "open_below le n c (exchange f c p)"
proof -
  have far: "le (f (p div 2)) (f c)"
    using open_p c \<open>0 < p\<close> by (cases "c = 0") (auto simp: open_below_def)
  have edge: "le (f (j div 2)) (f j)" if "0 < j" "j \<le> n" "j div 2 \<noteq> p" for j
    using open_p that by (simp add: open_below_def)
  have pc: "p < c" "p div 2 < p"
    using c \<open>0 < p\<close> by auto
  have "le (exchange f c p (j div 2)) (exchange f c p j)" if j: "0 < j" "j \<le> n" "j div 2 \<noteq> c" for j
  proof (cases "j div 2 = p")
    case True
    have "le (f c) (f p)"
      using swap by (rule not_le)
    then show ?thesis
      using True j pc least [of j] by (cases "j = c") (auto simp: exchange_apply)
  next
    case False
    then show ?thesis
      using edge [of j] far j pc c by (cases "j = p") (auto simp: exchange_apply)
  qed
  moreover have "le (exchange f c p (c div 2)) (exchange f c p j)" if j: "0 < j" "j \<le> n" "j div 2 = c" for j
    using edge [of j] j pc c by (auto simp: exchange_apply)
  ultimately show ?thesis
    by (simp add: open_below_def)
qed

lemma sift_down_heap: "0 < p \<Longrightarrow> open_below le n p f \<Longrightarrow> heap_on le n (sift_down le n f (2 * p))"
proof (induction "Suc n - p" arbitrary: f p rule: less_induct)
  case less
  define c where "c = (if 2 * p < n \<and> \<not> le (f (2 * p)) (f (Suc (2 * p))) then Suc (2 * p) else 2 * p)"
  have c: "c div 2 = p" "p < c" "0 < c"
    using less(2) by (auto simp: c_def)
  have least: "le (f c) (f j)" if "j \<le> n" "j div 2 = p" for j
  proof -
    have "j = 2 * p \<or> j = Suc (2 * p)"
      using that by auto
    then show ?thesis
      using that not_le [of "f (2 * p)" "f (Suc (2 * p))"] by (auto simp: c_def refl)
  qed
  show ?case
  proof (cases "2 * p \<le> n")
    case inside: True
    then have "c \<le> n"
      by (auto simp: c_def)
    show ?thesis
    proof (cases "le (f p) (f c)")
      case True
      then have "heap_on le n f"
        using less(3) least trans unfolding heap_on_def open_below_def by blast
      then show ?thesis
        using True c by (subst sift_down.simps) (simp add: Let_def flip: c_def)
    next
      case False
      have "open_below le n c (exchange f c p)"
        using less(2,3) c \<open>c \<le> n\<close> least False by (intro open_below_exchange) auto
      then have "heap_on le n (sift_down le n (exchange f c p) (2 * c))"
        using less(1) [of c "exchange f c p"] inside False c \<open>c \<le> n\<close> by auto
      then show ?thesis
        using False inside c less(2) by (subst sift_down.simps) (simp add: Let_def flip: c_def)
    qed
  next
    case False
    have "heap_on le n f"
    proof (rule heap_onI)
      fix j assume "0 < j" "j \<le> n"
      then show "le (f (j div 2)) (f j)"
        using False less(3) by (auto simp: open_below_def)
    qed
    then show ?thesis
      using False by (subst sift_down.simps) simp
  qed
qed

lemma open_above_exchange:
  assumes open_p: "open_above le n p f" and p: "0 < p" "p \<le> n" and swap: "\<not> le (f (p div 2)) (f p)"
  shows "open_above le n (p div 2) (exchange f p (p div 2))"
proof -
  define q where "q = p div 2"
  have q: "q < p" "q div 2 \<noteq> p"
    using p by (auto simp: q_def)
  have low: "le (f p) (f q)"
    using not_le [OF swap] by (simp add: q_def)
  have edge: "le (f (j div 2)) (f j)" if "0 < j" "j \<le> n" "j \<noteq> p" for j
    using open_p that by (simp add: open_above_def)
  have far: "le (f q) (f j)" if "0 < j" "j \<le> n" "j div 2 = p" for j
    using open_p that p by (simp add: open_above_def q_def)
  have "le (exchange f p q (j div 2)) (exchange f p q j)" if j: "0 < j" "j \<le> n" "j \<noteq> q" for j
  proof (cases "j = p")
    case True
    then show ?thesis
      using low q by (simp add: exchange_apply flip: q_def)
  next
    case False
    then show ?thesis
      using edge [of j] far [of j] trans [OF low, of "f j"] j q by (auto simp: exchange_apply)
  qed
  moreover have "le (exchange f p q (q div 2)) (exchange f p q j)"
    if j: "0 < j" "j \<le> n" "0 < q" "j div 2 = q" for j
  proof -
    have up: "le (f (q div 2)) (f q)"
      using edge [of q] j q p by auto
    moreover have "q div 2 < q" "j \<noteq> q"
      using j by auto
    ultimately show ?thesis
      using edge [of j] trans [OF up] j q by (cases "j = p") (auto simp: exchange_apply)
  qed
  ultimately show ?thesis
    by (simp add: open_above_def q_def)
qed

lemma sift_up_heap: "p \<le> n \<Longrightarrow> open_above le n p f \<Longrightarrow> heap_on le n (fst (sift_up le f p))"
proof (induction p arbitrary: f rule: less_induct)
  case (less p)
  show ?case
  proof (cases "0 < p \<and> \<not> le (f (p div 2)) (f p)")
    case True
    then have "open_above le n (p div 2) (exchange f p (p div 2))"
      using open_above_exchange less(2,3) by blast
    then show ?thesis
      using less(1) [of "p div 2"] True less(2) by (subst sift_up.simps) simp
  next
    case False
    have "heap_on le n f"
    proof (rule heap_onI)
      fix j assume "0 < j" "j \<le> n"
      then show "le (f (j div 2)) (f j)"
        using False less(3) by (cases "j = p") (auto simp: open_above_def)
    qed
    then show ?thesis
      using False by (subst sift_up.simps) auto
  qed
qed

text \<open>What a change of one entry leaves open, and what one more entry does.\<close>

lemma raise_entry:
  assumes "heap_on le n f" "0 < p" "p \<le> n" "le (f p) v" "\<And>j. j \<le> n \<Longrightarrow> g j = (if j = p then v else f j)"
  shows "open_below le n p g"
  unfolding open_below_def
proof (intro conjI allI impI)
  fix j assume j: "0 < j" "j \<le> n" "j div 2 \<noteq> p"
  then show "le (g (j div 2)) (g j)"
    using assms heap_onD [OF assms(1), of j] trans [of "f (j div 2)" "f p" v] by (cases "j = p") auto
next
  fix j assume j: "0 < j" "j \<le> n" "j div 2 = p"
  then have "le (f (p div 2)) (f j)"
    using heap_onD [OF assms(1), of p] heap_onD [OF assms(1), of j] trans assms by blast
  then show "le (g (p div 2)) (g j)"
    using j assms by auto
qed

lemma lower_entry:
  assumes "heap_on le n f" "0 < p" "p \<le> n" "le v (f p)" "\<And>j. j \<le> n \<Longrightarrow> g j = (if j = p then v else f j)"
  shows "open_above le n p g"
  unfolding open_above_def
proof (intro conjI allI impI)
  fix j assume j: "0 < j" "j \<le> n" "j \<noteq> p"
  then show "le (g (j div 2)) (g j)"
    using assms heap_onD [OF assms(1), of j] trans [of v "f p" "f j"] by auto
next
  fix j assume j: "0 < j" "j \<le> n" "j div 2 = p"
  then have "le (f (p div 2)) (f j)"
    using heap_onD [OF assms(1), of p] heap_onD [OF assms(1), of j] trans assms by blast
  then show "le (g (p div 2)) (g j)"
    using j assms by auto
qed

end

lemma new_entry:
  assumes "heap_on le n f" "\<And>j. j \<le> n \<Longrightarrow> g j = f j"
  shows "open_above le (Suc n) (Suc n) g"
  unfolding open_above_def
proof (intro conjI allI impI)
  fix j assume "0 < j" "j \<le> Suc n" "j \<noteq> Suc n"
  then show "le (g (j div 2)) (g j)"
    using heap_onD [OF assms(1), of j] assms(2) by auto
qed auto

text \<open>When an entry rises to the root, the old root is the entry below it.\<close>

lemma sift_up_root:
  "0 < p \<Longrightarrow> sift_up le f p = (g, b) \<Longrightarrow>
    (if b then g 0 = f p \<and> g 1 = f 0 \<and> \<not> le (f 0) (f p) else g 0 = f 0)"
proof (induction le f p rule: sift_up.induct)
  case (1 le f p)
  show ?case
  proof (cases "\<not> le (f (p div 2)) (f p)")
    case True
    then have step: "sift_up le (exchange f p (p div 2)) (p div 2) = (g, b)"
      using 1(2,3) by (subst (asm) sift_up.simps) simp
    show ?thesis
    proof (cases "p div 2 = 0")
      case root: True
      then have "p = 1"
        using 1(2) by auto
      then show ?thesis
        using step True by (subst (asm) sift_up.simps) (auto simp: exchange_apply)
    next
      case False
      then show ?thesis
        using 1(1) [OF _ _ step] 1(2) True by (auto simp: exchange_apply split: if_splits)
    qed
  next
    case False
    then show ?thesis
      using 1(2,3) by (subst (asm) sift_up.simps) auto
  qed
qed

lemma sift_up_outside: "p < k \<Longrightarrow> fst (sift_up le f p) k = f k"
proof (induction le f p rule: sift_up.induct)
  case (1 le f p)
  have "exchange f p (p div 2) k = f k"
    using 1(2) by (auto simp: exchange_apply)
  then show ?case
    using 1 by (subst sift_up.simps) auto
qed

end
