(* ===== verification/Rolling_Median.thy ===== *)
theory Rolling_Median
  imports Sift_Heap "HOL-Library.Multiset"
begin

text \<open>
  The rolling median of \<open>contrib/epee/include/rolling_median.h\<close>: the last \<open>N\<close> inserted
  values in a circular array, and an array of indices into it that holds two heaps back to
  back, the values above the median at the positive positions and the values below it at the
  negative ones. Arrays are functions from indices; every access is checked against the
  allocation, and an access outside it is the error \<^term>\<open>Out_of_range\<close>. Then the
  median of a vector from \<open>contrib/epee/include/misc_language.h\<close>, and the lemmas that every
  loop stays inside the arrays and restores the two heaps.
\<close>

section \<open>The structure\<close>

text \<open>
  \<open>N\<close> is the size of the window: positions of \<open>heap\<close> run from \<open>- (N / 2)\<close> to
  \<open>(N - 1) / 2\<close>, because the pointer is set to the middle of its storage.
\<close>

record rolling_median_t =
  rm_data :: "nat \<Rightarrow> u64"
  rm_pos :: "nat \<Rightarrow> int"
  rm_heap :: "int \<Rightarrow> nat"
  rm_N :: nat
  rm_idx :: nat
  rm_minCt :: nat
  rm_maxCt :: nat
  rm_sz :: nat

definition heap_index :: "rolling_median_t \<Rightarrow> int \<Rightarrow> bool" where
  "heap_index s i \<longleftrightarrow> - int (rm_N s div 2) \<le> i \<and> i < int (rm_N s) - int (rm_N s div 2)"

definition data_at :: "rolling_median_t \<Rightarrow> nat \<Rightarrow> u64 result" where
  "data_at s k = (if k < rm_N s then Inr (rm_data s k) else Inl Out_of_range)"

definition pos_at :: "rolling_median_t \<Rightarrow> nat \<Rightarrow> int result" where
  "pos_at s k = (if k < rm_N s then Inr (rm_pos s k) else Inl Out_of_range)"

definition heap_at :: "rolling_median_t \<Rightarrow> int \<Rightarrow> nat result" where
  "heap_at s i = (if heap_index s i then Inr (rm_heap s i) else Inl Out_of_range)"

definition set_pos :: "rolling_median_t \<Rightarrow> nat \<Rightarrow> int \<Rightarrow> rolling_median_t result" where
  "set_pos s k i = (if k < rm_N s then Inr (s\<lparr>rm_pos := (rm_pos s)(k := i)\<rparr>) else Inl Out_of_range)"

definition set_heap :: "rolling_median_t \<Rightarrow> int \<Rightarrow> nat \<Rightarrow> rolling_median_t result" where
  "set_heap s i k = (if heap_index s i then Inr (s\<lparr>rm_heap := (rm_heap s)(i := k)\<rparr>) else Inl Out_of_range)"

definition mmless :: "rolling_median_t \<Rightarrow> int \<Rightarrow> int \<Rightarrow> bool result" where
  "mmless s i j =
    and_then (heap_at s i) (\<lambda>a. and_then (data_at s a) (\<lambda>x.
    and_then (heap_at s j) (\<lambda>b. and_then (data_at s b) (\<lambda>y. Inr (x < y)))))"

definition mmexchange :: "rolling_median_t \<Rightarrow> int \<Rightarrow> int \<Rightarrow> rolling_median_t result" where
  "mmexchange s i j =
    and_then (heap_at s i) (\<lambda>t. and_then (heap_at s j) (\<lambda>u.
    and_then (set_heap s i u) (\<lambda>s. and_then (set_heap s j t) (\<lambda>s.
    and_then (heap_at s i) (\<lambda>a. and_then (set_pos s a i) (\<lambda>s.
    and_then (heap_at s j) (\<lambda>b. set_pos s b j)))))))"

definition mmCmpExch :: "rolling_median_t \<Rightarrow> int \<Rightarrow> int \<Rightarrow> (bool \<times> rolling_median_t) result" where
  "mmCmpExch s i j =
    and_then (mmless s i j) (\<lambda>less.
    if less then and_then (mmexchange s i j) (\<lambda>s. Inr (True, s)) else Inr (False, s))"

declare and_then_cong [fundef_cong]

lemma mmCmpExch_counts:
  "mmCmpExch s i j = Inr (b, s') \<Longrightarrow> rm_minCt s' = rm_minCt s \<and> rm_maxCt s' = rm_maxCt s"
  by (auto simp: mmCmpExch_def mmexchange_def and_then_Inr set_heap_def set_pos_def split: if_splits)

lemma mmCmpExch_self: "mmCmpExch s i i \<noteq> Inr (True, s')"
  by (auto simp: mmCmpExch_def mmless_def and_then_Inr split: if_splits)

lemma mmCmpExch_progress:
  "mmCmpExch s (int j) (int (j div 2)) = Inr (True, s') \<Longrightarrow> 0 < j \<and> rm_minCt s' = rm_minCt s"
  "mmCmpExch s (- int (j div 2)) (- int j) = Inr (True, s') \<Longrightarrow> 0 < j \<and> rm_maxCt s' = rm_maxCt s"
  using mmCmpExch_counts mmCmpExch_self [of s 0 s'] by (cases "j = 0"; force)+

section \<open>Restoring the two heaps\<close>

text \<open>
  The loops take an index by its distance from the root: entry \<open>i\<close> of the upper heap is at
  position \<open>i\<close> of the array, entry \<open>i\<close> of the lower heap at position \<open>- i\<close>. Halving
  rounds towards the root on both sides, as it does in C++.
\<close>

function minSortDown_loop :: "rolling_median_t \<Rightarrow> nat \<Rightarrow> rolling_median_t result" where
  "minSortDown_loop s i =
    (if i \<le> rm_minCt s
     then and_then (if i < rm_minCt s then mmless s (int (i + 1)) (int i) else Inr False) (\<lambda>next.
       let i = (if next then i + 1 else i) in
       and_then (mmCmpExch s (int i) (int (i div 2))) (\<lambda>(swapped, s).
       if swapped then minSortDown_loop s (i * 2) else Inr s))
     else Inr s)"
  by pat_completeness auto

termination by (relation "measure (\<lambda>(s, i). Suc (rm_minCt s) - i)") (auto dest!: mmCmpExch_progress)

declare minSortDown_loop.simps [simp del]

definition minSortDown :: "rolling_median_t \<Rightarrow> nat \<Rightarrow> rolling_median_t result" where
  "minSortDown s i = minSortDown_loop s (i * 2)"

function maxSortDown_loop :: "rolling_median_t \<Rightarrow> nat \<Rightarrow> rolling_median_t result" where
  "maxSortDown_loop s i =
    (if i \<le> rm_maxCt s
     then and_then (if i < rm_maxCt s then mmless s (- int i) (- int (i + 1)) else Inr False) (\<lambda>next.
       let i = (if next then i + 1 else i) in
       and_then (mmCmpExch s (- int (i div 2)) (- int i)) (\<lambda>(swapped, s).
       if swapped then maxSortDown_loop s (i * 2) else Inr s))
     else Inr s)"
  by pat_completeness auto

termination by (relation "measure (\<lambda>(s, i). Suc (rm_maxCt s) - i)") (auto dest!: mmCmpExch_progress)

declare maxSortDown_loop.simps [simp del]

definition maxSortDown :: "rolling_median_t \<Rightarrow> nat \<Rightarrow> rolling_median_t result" where
  "maxSortDown s i = maxSortDown_loop s (i * 2)"

function minSortUp :: "rolling_median_t \<Rightarrow> nat \<Rightarrow> (bool \<times> rolling_median_t) result" where
  "minSortUp s i =
    (if 0 < i
     then and_then (mmCmpExch s (int i) (int (i div 2))) (\<lambda>(swapped, s).
       if swapped then minSortUp s (i div 2) else Inr (i = 0, s))
     else Inr (i = 0, s))"
  by pat_completeness auto

termination by (relation "measure snd") auto

declare minSortUp.simps [simp del]

function maxSortUp :: "rolling_median_t \<Rightarrow> nat \<Rightarrow> (bool \<times> rolling_median_t) result" where
  "maxSortUp s i =
    (if 0 < i
     then and_then (mmCmpExch s (- int (i div 2)) (- int i)) (\<lambda>(swapped, s).
       if swapped then maxSortUp s (i div 2) else Inr (i = 0, s))
     else Inr (i = 0, s))"
  by pat_completeness auto

termination by (relation "measure snd") auto

declare maxSortUp.simps [simp del]

section \<open>The operations\<close>

definition initial_pos :: "nat \<Rightarrow> int" where
  "initial_pos k = int ((k + 1) div 2) * (if odd k then - 1 else 1)"

fun clear_loop :: "nat \<Rightarrow> rolling_median_t \<Rightarrow> rolling_median_t result" where
  "clear_loop 0 s = Inr s"
| "clear_loop (Suc nItems) s =
    and_then (set_pos s nItems (initial_pos nItems)) (\<lambda>s.
    and_then (pos_at s nItems) (\<lambda>i. and_then (set_heap s i nItems) (clear_loop nItems)))"

definition rm_clear :: "rolling_median_t \<Rightarrow> rolling_median_t result" where
  "rm_clear s = clear_loop (rm_N s) (s\<lparr>rm_idx := 0, rm_minCt := 0, rm_maxCt := 0, rm_sz := 0\<rparr>)"

text \<open>
  The constructor: \<open>fresh\<close> is whatever the allocated memory holds. The size of the
  allocation is computed in an \<open>int\<close> from 16 bytes an item (a 64-bit value and two indices); from
  \<open>2 ^ 27\<close> items on it wraps, the allocation fails or is too small, and the first writes leave it. The
  program uses 100000 items.
\<close>

definition rolling_median_new :: "rolling_median_t \<Rightarrow> nat \<Rightarrow> rolling_median_t result" where
  "rolling_median_new fresh N =
    (let size = int N * (8 + 4 * 2)
     in if size < 2 ^ 31 then rm_clear (fresh\<lparr>rm_N := N\<rparr>) else Inl Out_of_range)"

definition rm_size :: "rolling_median_t \<Rightarrow> nat" where
  "rm_size s = rm_sz s"

definition rise_in_min :: "rolling_median_t \<Rightarrow> nat \<Rightarrow> rolling_median_t result" where
  "rise_in_min s p =
    and_then (minSortUp s p) (\<lambda>(top, s).
    if top then and_then (mmCmpExch s 0 (- 1)) (\<lambda>(swapped, s). if swapped then maxSortDown s 1 else Inr s)
    else Inr s)"

definition rise_in_max :: "rolling_median_t \<Rightarrow> nat \<Rightarrow> rolling_median_t result" where
  "rise_in_max s p =
    and_then (maxSortUp s p) (\<lambda>(top, s).
    if top \<and> 0 < rm_minCt s
    then and_then (mmCmpExch s 1 0) (\<lambda>(swapped, s). if swapped then minSortDown s 1 else Inr s)
    else Inr s)"

definition settle_median :: "rolling_median_t \<Rightarrow> rolling_median_t result" where
  "settle_median s =
    and_then (if 0 < rm_maxCt s
      then and_then (maxSortUp s 1) (\<lambda>(top, s). if top then maxSortDown s 1 else Inr s)
      else Inr s) (\<lambda>s.
    if 0 < rm_minCt s
    then and_then (minSortUp s 1) (\<lambda>(top, s). if top then minSortDown s 1 else Inr s)
    else Inr s)"

definition rm_insert :: "rolling_median_t \<Rightarrow> u64 \<Rightarrow> rolling_median_t result" where
  "rm_insert s v =
    and_then (pos_at s (rm_idx s)) (\<lambda>p. and_then (data_at s (rm_idx s)) (\<lambda>old.
    let s = s\<lparr>rm_data := (rm_data s)(rm_idx s := v),
              rm_idx := (rm_idx s + 1) mod rm_N s,
              rm_sz := min (rm_sz s + 1) (rm_N s)\<rparr> in
    if 0 < p then
      if rm_minCt s < (rm_N s - 1) div 2 then rise_in_min (s\<lparr>rm_minCt := rm_minCt s + 1\<rparr>) (nat p)
      else if old < v then minSortDown s (nat p)
      else rise_in_min s (nat p)
    else if p < 0 then
      if rm_maxCt s < rm_N s div 2 then rise_in_max (s\<lparr>rm_maxCt := rm_maxCt s + 1\<rparr>) (nat (- p))
      else if v < old then maxSortDown s (nat (- p))
      else rise_in_max s (nat (- p))
    else settle_median s))"

fun insert_all :: "rolling_median_t \<Rightarrow> u64 list \<Rightarrow> rolling_median_t result" where
  "insert_all s [] = Inr s"
| "insert_all s (v # vs) = and_then (rm_insert s v) (\<lambda>s. insert_all s vs)"

definition rm_median :: "rolling_median_t \<Rightarrow> u64 result" where
  "rm_median s =
    and_then (heap_at s 0) (\<lambda>a. and_then (data_at s a) (\<lambda>v.
    if rm_minCt s < rm_maxCt s
    then and_then (heap_at s (- 1)) (\<lambda>b. and_then (data_at s b) (\<lambda>w. Inr ((v + w) div 2)))
    else Inr v))"

text \<open>The median of a vector, \<open>epee::misc_utils::median\<close>.\<close>

definition median :: "u64 list \<Rightarrow> u64" where
  "median v =
    (if v = [] then 0 else if length v = 1 then v ! 0
     else let n = length v div 2; v = sort v
       in if length v mod 2 \<noteq> 0 then v ! n else (v ! (n - 1) + v ! n) div 2)"

section \<open>The invariant of the arrays\<close>

text \<open>
  The two index arrays are inverse to each other. \<open>key\<close> is the value at a position of the
  heap array, and \<open>up\<close> and \<open>down\<close> are its two halves, each seen from the root.
\<close>

definition rm_ok :: "rolling_median_t \<Rightarrow> bool" where
  "rm_ok s \<longleftrightarrow> 0 < rm_N s \<and> rm_minCt s \<le> (rm_N s - 1) div 2 \<and> rm_maxCt s \<le> rm_N s div 2 \<and>
    (\<forall>i. heap_index s i \<longrightarrow> rm_heap s i < rm_N s \<and> rm_pos s (rm_heap s i) = i) \<and>
    (\<forall>k < rm_N s. heap_index s (rm_pos s k) \<and> rm_heap s (rm_pos s k) = k)"

definition active :: "rolling_median_t \<Rightarrow> int \<Rightarrow> bool" where
  "active s i \<longleftrightarrow> - int (rm_maxCt s) \<le> i \<and> i \<le> int (rm_minCt s)"

definition key :: "rolling_median_t \<Rightarrow> int \<Rightarrow> u64" where
  "key s i = rm_data s (rm_heap s i)"

definition up :: "rolling_median_t \<Rightarrow> nat \<Rightarrow> u64" where
  "up s n = key s (int n)"

definition down :: "rolling_median_t \<Rightarrow> nat \<Rightarrow> u64" where
  "down s n = key s (- int n)"

lemma up_down_root: "up s 0 = down s 0"
  by (simp add: up_def down_def)

text \<open>The effect of a rearrangement: only positions in use change, and nothing but the indices.\<close>

definition rearranged :: "rolling_median_t \<Rightarrow> rolling_median_t \<Rightarrow> bool" where
  "rearranged s s' \<longleftrightarrow> rm_ok s' \<and> rm_data s' = rm_data s \<and> rm_N s' = rm_N s \<and> rm_idx s' = rm_idx s \<and>
    rm_minCt s' = rm_minCt s \<and> rm_maxCt s' = rm_maxCt s \<and> rm_sz s' = rm_sz s \<and>
    (\<forall>i. \<not> active s i \<longrightarrow> rm_heap s' i = rm_heap s i)"

lemma rearranged_refl: "rm_ok s \<Longrightarrow> rearranged s s"
  by (simp add: rearranged_def)

lemma rearranged_trans: "rearranged s s' \<Longrightarrow> rearranged s' s'' \<Longrightarrow> rearranged s s''"
  by (simp add: rearranged_def active_def)

lemma active_index: "rm_ok s \<Longrightarrow> active s i \<Longrightarrow> heap_index s i"
  by (auto simp: rm_ok_def active_def heap_index_def)

lemma rm_ok_heap: "rm_ok s \<Longrightarrow> heap_index s i \<Longrightarrow> rm_heap s i < rm_N s"
  by (simp add: rm_ok_def)

lemma rm_ok_heap_inject:
  "rm_ok s \<Longrightarrow> heap_index s i \<Longrightarrow> heap_index s j \<Longrightarrow> rm_heap s i = rm_heap s j \<longleftrightarrow> i = j"
  unfolding rm_ok_def by metis

lemma mmless_key: "rm_ok s \<Longrightarrow> active s i \<Longrightarrow> active s j \<Longrightarrow> mmless s i j = Inr (key s i < key s j)"
  by (simp add: mmless_def heap_at_def data_at_def active_index rm_ok_heap key_def)

lemma mmexchange_exchange:
  assumes s: "rm_ok s" and i: "active s i" and j: "active s j"
  obtains s' where "mmexchange s i j = Inr s'" "rearranged s s'" "key s' = exchange (key s) i j"
proof -
  define s' where "s' = s\<lparr>rm_heap := exchange (rm_heap s) i j,
    rm_pos := (rm_pos s)(rm_heap s j := i, rm_heap s i := j)\<rparr>"
  note ij = active_index [OF s i] active_index [OF s j]
  have sel [simp]: "rm_heap s' = exchange (rm_heap s) i j" "rm_N s' = rm_N s"
    "rm_pos s' = (rm_pos s)(rm_heap s j := i, rm_heap s i := j)" "heap_index s' = heap_index s"
    by (auto simp: s'_def heap_index_def)
  have "mmexchange s i j = Inr s'"
    using ij rm_ok_heap [OF s] rm_ok_heap_inject [OF s ij]
    by (auto simp: mmexchange_def heap_at_def set_heap_def set_pos_def heap_index_def s'_def
        exchange_def fun_upd_twist)
  moreover have "rm_ok s'"
  proof -
    have "rm_heap s' k < rm_N s' \<and> rm_pos s' (rm_heap s' k) = k" if "heap_index s' k" for k
      using that s ij rm_ok_heap_inject [OF s] by (auto simp: exchange_apply rm_ok_def)
    moreover have "heap_index s' (rm_pos s' k) \<and> rm_heap s' (rm_pos s' k) = k" if "k < rm_N s'" for k
      using that s ij rm_ok_heap_inject [OF s] by (auto simp: exchange_apply rm_ok_def)
    ultimately show ?thesis
      using s by (simp add: rm_ok_def s'_def)
  qed
  then have "rearranged s s'"
    using i j by (auto simp: rearranged_def s'_def exchange_apply)
  moreover have "key s' = exchange (key s) i j"
    by (auto simp: key_def exchange_apply s'_def)
  ultimately show ?thesis
    using that by blast
qed

lemma mmCmpExch_key:
  assumes s: "rm_ok s" and i: "active s i" and j: "active s j"
  obtains s' where "mmCmpExch s i j = Inr (key s i < key s j, s')" "rearranged s s'"
    "key s' = (if key s i < key s j then exchange (key s) i j else key s)"
proof (cases "key s i < key s j")
  case True
  obtain s' where "mmexchange s i j = Inr s'" "rearranged s s'" "key s' = exchange (key s) i j"
    using mmexchange_exchange [OF assms] .
  then show ?thesis
    using that [of s'] True by (simp add: mmCmpExch_def mmless_key assms)
next
  case False
  then show ?thesis
    using that [of s] by (simp add: mmCmpExch_def mmless_key assms rearranged_refl)
qed

lemma key_exchange_up:
  assumes "key s' = exchange (key s) (int a) (int b)"
  shows "up s' = exchange (up s) a b" "0 < n \<Longrightarrow> down s' n = down s n"
  using assms by (auto simp: up_def down_def exchange_apply)

lemma key_exchange_down:
  assumes "key s' = exchange (key s) (- int b) (- int a)"
  shows "down s' = exchange (down s) a b" "0 < n \<Longrightarrow> up s' n = up s n"
  using assms by (auto simp: up_def down_def exchange_apply)

section \<open>The loops sift\<close>

text \<open>
  Each of the four loops performs the sift of its half: upwards in the order of the
  values, downwards in the reverse order. None of them leaves the allocation.
\<close>

definition reverse_le :: "u64 \<Rightarrow> u64 \<Rightarrow> bool" where
  "reverse_le x y \<longleftrightarrow> y \<le> x"

interpretation upper: heap_order "(\<le>) :: u64 \<Rightarrow> u64 \<Rightarrow> bool"
  by unfold_locales auto

interpretation lower: heap_order reverse_le
  by unfold_locales (auto simp: reverse_le_def)

lemma active_up: "n \<le> rm_minCt s \<Longrightarrow> active s (int n)"
  by (simp add: active_def)

lemma active_down: "n \<le> rm_maxCt s \<Longrightarrow> active s (- int n)"
  by (simp add: active_def)

lemma rearranged_ok: "rearranged s s' \<Longrightarrow> rm_ok s' \<and> rm_minCt s' = rm_minCt s \<and> rm_maxCt s' = rm_maxCt s"
  by (simp add: rearranged_def)

lemma minSortDown_loop_sifts:
  "rm_ok s \<Longrightarrow> 0 < i \<Longrightarrow> \<exists>s'. minSortDown_loop s i = Inr s' \<and> rearranged s s' \<and>
    up s' = sift_down (\<le>) (rm_minCt s) (up s) i \<and> (\<forall>n > 0. down s' n = down s n)"
proof (induction s i rule: minSortDown_loop.induct)
  case (1 s i)
  define right where "right \<longleftrightarrow> i < rm_minCt s \<and> \<not> up s i \<le> up s (i + 1)"
  define c where "c = (if right then i + 1 else i)"
  show ?case
  proof (cases "i \<le> rm_minCt s")
    case True
    then have c: "c \<le> rm_minCt s" "c div 2 \<le> rm_minCt s" "0 < c"
      using 1(3) by (auto simp: c_def right_def)
    define swap where "swap \<longleftrightarrow> \<not> up s (c div 2) \<le> up s c"
    obtain s1 where s1: "mmCmpExch s (int c) (int (c div 2)) = Inr (swap, s1)"
      "rearranged s s1" "key s1 = (if swap then exchange (key s) (int c) (int (c div 2)) else key s)"
      using mmCmpExch_key [OF 1(2) active_up active_up, OF c(1,2)]
      unfolding swap_def up_def not_le by blast
    have child: "(if i < rm_minCt s then mmless s (int (i + 1)) (int i) else Inr False) = Inr right"
      using 1(2) True active_up [of i s] active_up [of "i + 1" s] by (auto simp: mmless_key up_def right_def)
    have step: "minSortDown_loop s i = (if swap then minSortDown_loop s1 (c * 2) else Inr s1)"
      using True s1(1) by (subst minSortDown_loop.simps) (simp add: child Let_def flip: c_def)
    have spec: "sift_down (\<le>) (rm_minCt s) (up s) i =
        (if swap then sift_down (\<le>) (rm_minCt s) (exchange (up s) c (c div 2)) (c * 2) else up s)"
      using True 1(3) by (subst sift_down.simps) (simp add: Let_def mult.commute swap_def c_def right_def)
    show ?thesis
    proof (cases swap)
      case swapped: True
      have key: "up s1 = exchange (up s) c (c div 2)" "\<forall>n > 0. down s1 n = down s n"
        using key_exchange_up [of s1 s c "c div 2"] s1(3) swapped by auto
      have "\<exists>s'. minSortDown_loop s1 (c * 2) = Inr s' \<and> rearranged s1 s' \<and>
          up s' = sift_down (\<le>) (rm_minCt s1) (up s1) (c * 2) \<and> (\<forall>n > 0. down s' n = down s1 n)"
        using rearranged_ok [OF s1(2)] s1(1) swapped c
        by (intro 1(1) [OF True child c_def s1(1) refl]) auto
      then show ?thesis
        using step spec swapped key rearranged_trans [OF s1(2)] rearranged_ok [OF s1(2)] by auto
    next
      case False
      then have "up s1 = up s" "down s1 = down s"
        using s1(3) by (auto simp: up_def down_def)
      then show ?thesis
        using step spec False s1(2) by auto
    qed
  next
    case False
    then show ?thesis
      using 1(2) rearranged_refl by (subst minSortDown_loop.simps) (simp add: sift_down.simps)
  qed
qed

lemma maxSortDown_loop_sifts:
  "rm_ok s \<Longrightarrow> 0 < i \<Longrightarrow> \<exists>s'. maxSortDown_loop s i = Inr s' \<and> rearranged s s' \<and>
    down s' = sift_down reverse_le (rm_maxCt s) (down s) i \<and> (\<forall>n > 0. up s' n = up s n)"
proof (induction s i rule: maxSortDown_loop.induct)
  case (1 s i)
  define right where "right \<longleftrightarrow> i < rm_maxCt s \<and> \<not> reverse_le (down s i) (down s (i + 1))"
  define c where "c = (if right then i + 1 else i)"
  show ?case
  proof (cases "i \<le> rm_maxCt s")
    case True
    then have c: "c \<le> rm_maxCt s" "c div 2 \<le> rm_maxCt s" "0 < c"
      using 1(3) by (auto simp: c_def right_def)
    define swap where "swap \<longleftrightarrow> \<not> reverse_le (down s (c div 2)) (down s c)"
    obtain s1 where s1: "mmCmpExch s (- int (c div 2)) (- int c) = Inr (swap, s1)"
      "rearranged s s1" "key s1 = (if swap then exchange (key s) (- int (c div 2)) (- int c) else key s)"
      using mmCmpExch_key [OF 1(2) active_down active_down, OF c(2,1)]
      unfolding swap_def down_def reverse_le_def not_le by blast
    have child: "(if i < rm_maxCt s then mmless s (- int i) (- int (i + 1)) else Inr False) = Inr right"
      using 1(2) True active_down [of i s] active_down [of "i + 1" s] by (auto simp: mmless_key down_def right_def reverse_le_def)
    have step: "maxSortDown_loop s i = (if swap then maxSortDown_loop s1 (c * 2) else Inr s1)"
      using True s1(1) by (subst maxSortDown_loop.simps) (simp add: child Let_def flip: c_def)
    have spec: "sift_down reverse_le (rm_maxCt s) (down s) i =
        (if swap then sift_down reverse_le (rm_maxCt s) (exchange (down s) c (c div 2)) (c * 2) else down s)"
      using True 1(3) by (subst sift_down.simps) (simp add: Let_def mult.commute swap_def c_def right_def)
    show ?thesis
    proof (cases swap)
      case swapped: True
      have key: "down s1 = exchange (down s) c (c div 2)" "\<forall>n > 0. up s1 n = up s n"
        using key_exchange_down [of s1 s "c div 2" c] s1(3) swapped by auto
      have "\<exists>s'. maxSortDown_loop s1 (c * 2) = Inr s' \<and> rearranged s1 s' \<and>
          down s' = sift_down reverse_le (rm_maxCt s1) (down s1) (c * 2) \<and> (\<forall>n > 0. up s' n = up s1 n)"
        using rearranged_ok [OF s1(2)] s1(1) swapped c
        by (intro 1(1) [OF True child c_def s1(1) refl]) auto
      then show ?thesis
        using step spec swapped key rearranged_trans [OF s1(2)] rearranged_ok [OF s1(2)] by auto
    next
      case False
      then have "up s1 = up s" "down s1 = down s"
        using s1(3) by (auto simp: up_def down_def)
      then show ?thesis
        using step spec False s1(2) by auto
    qed
  next
    case False
    then show ?thesis
      using 1(2) rearranged_refl by (subst maxSortDown_loop.simps) (simp add: sift_down.simps)
  qed
qed

lemma minSortUp_sifts:
  "rm_ok s \<Longrightarrow> p \<le> rm_minCt s \<Longrightarrow> \<exists>g b s'. sift_up (\<le>) (up s) p = (g, b) \<and> minSortUp s p = Inr (b, s') \<and>
    rearranged s s' \<and> up s' = g \<and> (\<forall>n > 0. down s' n = down s n)"
proof (induction s p rule: minSortUp.induct)
  case (1 s p)
  show ?case
  proof (cases "0 < p")
    case True
    have half: "p div 2 \<le> rm_minCt s"
      using 1(3) by simp
    define swap where "swap \<longleftrightarrow> \<not> up s (p div 2) \<le> up s p"
    obtain s1 where s1: "mmCmpExch s (int p) (int (p div 2)) = Inr (swap, s1)"
      "rearranged s s1" "key s1 = (if swap then exchange (key s) (int p) (int (p div 2)) else key s)"
      using mmCmpExch_key [OF 1(2) active_up active_up, OF 1(3) half]
      unfolding swap_def up_def not_le by blast
    have step: "minSortUp s p = (if swap then minSortUp s1 (p div 2) else Inr (False, s1))"
      using True s1(1) by (subst minSortUp.simps) simp
    have spec: "sift_up (\<le>) (up s) p =
        (if swap then sift_up (\<le>) (exchange (up s) p (p div 2)) (p div 2) else (up s, False))"
      using True by (subst sift_up.simps) (simp add: swap_def)
    show ?thesis
    proof (cases swap)
      case swapped: True
      have key: "up s1 = exchange (up s) p (p div 2)" "\<forall>n > 0. down s1 n = down s n"
        using key_exchange_up [of s1 s p "p div 2"] s1(3) swapped by auto
      have "\<exists>g b s'. sift_up (\<le>) (up s1) (p div 2) = (g, b) \<and> minSortUp s1 (p div 2) = Inr (b, s') \<and>
          rearranged s1 s' \<and> up s' = g \<and> (\<forall>n > 0. down s' n = down s1 n)"
        using rearranged_ok [OF s1(2)] swapped 1(3) by (intro 1(1) [OF True s1(1) refl]) auto
      then show ?thesis
        using step spec swapped key rearranged_trans [OF s1(2)] by auto
    next
      case False
      then have "up s1 = up s" "down s1 = down s"
        using s1(3) by (auto simp: up_def down_def)
      then show ?thesis
        using step spec False s1(2) by auto
    qed
  next
    case False
    then show ?thesis
      using 1(2) rearranged_refl by (subst minSortUp.simps) (auto simp: sift_up.simps)
  qed
qed

lemma maxSortUp_sifts:
  "rm_ok s \<Longrightarrow> p \<le> rm_maxCt s \<Longrightarrow> \<exists>g b s'. sift_up reverse_le (down s) p = (g, b) \<and> maxSortUp s p = Inr (b, s') \<and>
    rearranged s s' \<and> down s' = g \<and> (\<forall>n > 0. up s' n = up s n)"
proof (induction s p rule: maxSortUp.induct)
  case (1 s p)
  show ?case
  proof (cases "0 < p")
    case True
    have half: "p div 2 \<le> rm_maxCt s"
      using 1(3) by simp
    define swap where "swap \<longleftrightarrow> \<not> reverse_le (down s (p div 2)) (down s p)"
    obtain s1 where s1: "mmCmpExch s (- int (p div 2)) (- int p) = Inr (swap, s1)"
      "rearranged s s1" "key s1 = (if swap then exchange (key s) (- int (p div 2)) (- int p) else key s)"
      using mmCmpExch_key [OF 1(2) active_down active_down, OF half 1(3)]
      unfolding swap_def down_def reverse_le_def not_le by blast
    have step: "maxSortUp s p = (if swap then maxSortUp s1 (p div 2) else Inr (False, s1))"
      using True s1(1) by (subst maxSortUp.simps) simp
    have spec: "sift_up reverse_le (down s) p =
        (if swap then sift_up reverse_le (exchange (down s) p (p div 2)) (p div 2) else (down s, False))"
      using True by (subst sift_up.simps) (simp add: swap_def)
    show ?thesis
    proof (cases swap)
      case swapped: True
      have key: "down s1 = exchange (down s) p (p div 2)" "\<forall>n > 0. up s1 n = up s n"
        using key_exchange_down [of s1 s "p div 2" p] s1(3) swapped by auto
      have "\<exists>g b s'. sift_up reverse_le (down s1) (p div 2) = (g, b) \<and> maxSortUp s1 (p div 2) = Inr (b, s') \<and>
          rearranged s1 s' \<and> down s' = g \<and> (\<forall>n > 0. up s' n = up s1 n)"
        using rearranged_ok [OF s1(2)] swapped 1(3) by (intro 1(1) [OF True s1(1) refl]) auto
      then show ?thesis
        using step spec swapped key rearranged_trans [OF s1(2)] by auto
    next
      case False
      then have "up s1 = up s" "down s1 = down s"
        using s1(3) by (auto simp: up_def down_def)
      then show ?thesis
        using step spec False s1(2) by auto
    qed
  next
    case False
    then show ?thesis
      using 1(2) rearranged_refl by (subst maxSortUp.simps) (auto simp: sift_up.simps)
  qed
qed

section \<open>The two heaps in order\<close>

definition balanced :: "rolling_median_t \<Rightarrow> bool" where
  "balanced s \<longleftrightarrow> heap_on (\<le>) (rm_minCt s) (up s) \<and> heap_on reverse_le (rm_maxCt s) (down s)"

lemma same_from_root:
  fixes f :: "nat \<Rightarrow> 'a"
  assumes "f 0 = g 0" "\<forall>n > 0. f n = g n"
  shows "f = g"
proof
  fix n :: nat
  show "f n = g n"
    using assms by (cases "n = 0") auto
qed

lemma minSortDown_heap:
  assumes "rm_ok s" "0 < p" "open_below (\<le>) (rm_minCt s) p (up s)"
  obtains s' where "minSortDown s p = Inr s'" "rearranged s s'"
    "heap_on (\<le>) (rm_minCt s) (up s')" "down s' = down s"
proof -
  obtain s' where s': "minSortDown s p = Inr s'" "rearranged s s'"
    "up s' = sift_down (\<le>) (rm_minCt s) (up s) (2 * p)" "\<forall>n > 0. down s' n = down s n"
    using minSortDown_loop_sifts [OF assms(1), of "p * 2"] assms(2) by (auto simp: minSortDown_def mult.commute)
  have "up s' 0 = up s 0"
    using s'(3) sift_down_outside [OF assms(2), of 0] assms(2) by simp
  then have "down s' = down s"
    using s'(4) by (intro same_from_root) (simp_all flip: up_down_root)
  then show ?thesis
    using that s' upper.sift_down_heap [OF assms(2,3)] by simp
qed

lemma maxSortDown_heap:
  assumes "rm_ok s" "0 < p" "open_below reverse_le (rm_maxCt s) p (down s)"
  obtains s' where "maxSortDown s p = Inr s'" "rearranged s s'"
    "heap_on reverse_le (rm_maxCt s) (down s')" "up s' = up s"
proof -
  obtain s' where s': "maxSortDown s p = Inr s'" "rearranged s s'"
    "down s' = sift_down reverse_le (rm_maxCt s) (down s) (2 * p)" "\<forall>n > 0. up s' n = up s n"
    using maxSortDown_loop_sifts [OF assms(1), of "p * 2"] assms(2) by (auto simp: maxSortDown_def mult.commute)
  have "down s' 0 = down s 0"
    using s'(3) sift_down_outside [OF assms(2), of 0] assms(2) by simp
  then have "up s' = up s"
    using s'(4) by (intro same_from_root) (simp_all add: up_down_root)
  then show ?thesis
    using that s' lower.sift_down_heap [OF assms(2,3)] by simp
qed

text \<open>
  A root that is out of order on one side only is exchanged with the top of that side,
  which then sinks; \<open>m\<close> is a root for which the side was in order.
\<close>

definition fix_max :: "rolling_median_t \<Rightarrow> rolling_median_t result" where
  "fix_max s = and_then (mmCmpExch s 0 (- 1)) (\<lambda>(swapped, s). if swapped then maxSortDown s 1 else Inr s)"

definition fix_min :: "rolling_median_t \<Rightarrow> rolling_median_t result" where
  "fix_min s = and_then (mmCmpExch s 1 0) (\<lambda>(swapped, s). if swapped then minSortDown s 1 else Inr s)"

lemma heap_on_root_edges: "heap_on le n (f(0 := m)) \<longleftrightarrow>
    (0 < n \<longrightarrow> le m (f 1)) \<and> (\<forall>j. 1 < j \<longrightarrow> j \<le> n \<longrightarrow> le (f (j div 2)) (f j))"
proof -
  have edge: "(f(0 := m)) (j div 2) = (if j = 1 then m else f (j div 2))" "(f(0 := m)) j = f j"
    if "0 < j" for j
    using that by auto
  show ?thesis
  proof
    assume h: "heap_on le n (f(0 := m))"
    show "(0 < n \<longrightarrow> le m (f 1)) \<and> (\<forall>j. 1 < j \<longrightarrow> j \<le> n \<longrightarrow> le (f (j div 2)) (f j))"
    proof (intro conjI allI impI)
      show "le m (f 1)" if "0 < n"
        using heap_onD [OF h, of 1] that by (simp add: edge)
      show "le (f (j div 2)) (f j)" if "1 < j" "j \<le> n" for j
        using heap_onD [OF h, of j] that edge [of j] by simp
    qed
  next
    assume r: "(0 < n \<longrightarrow> le m (f 1)) \<and> (\<forall>j. 1 < j \<longrightarrow> j \<le> n \<longrightarrow> le (f (j div 2)) (f j))"
    show "heap_on le n (f(0 := m))"
    proof (rule heap_onI)
      fix j assume j: "0 < j" "j \<le> n"
      then show "le ((f(0 := m)) (j div 2)) ((f(0 := m)) j)"
        unfolding edge [OF j(1)] using r by (cases "j = 1") auto
    qed
  qed
qed

lemma open_below_top:
  assumes "heap_on le n (f(0 := m))" "g 0 = f 1" "le (f 1) (g 1)" "\<forall>j > 1. g j = f j"
  shows "open_below le n 1 g"
proof -
  have edge: "le (f (j div 2)) (f j)" if "1 < j" "j \<le> n" for j
    using assms(1) that by (simp add: heap_on_root_edges)
  have "le (g (j div 2)) (g j)" if "0 < j" "j \<le> n" "j div 2 \<noteq> 1" for j
  proof (cases "j = 1")
    case False
    then have "1 < j div 2" "1 < j"
      using that by auto
    then show ?thesis
      using edge [of j] that assms(4) by simp
  qed (use assms in simp)
  moreover have "le (g 0) (g j)" if "j \<le> n" "j div 2 = 1" for j
    using edge [of j] that assms(2,4) by (cases "j > 1") auto
  ultimately show ?thesis
    by (simp add: open_below_def)
qed

lemma fix_max_heap:
  assumes s: "rm_ok s" and ct: "0 < rm_maxCt s" and m: "heap_on reverse_le (rm_maxCt s) ((down s)(0 := m))"
  obtains s' where "fix_max s = Inr s'" "rearranged s s'" "heap_on reverse_le (rm_maxCt s) (down s')"
    "\<forall>n > 0. up s' n = up s n" "up s' 0 = max (up s 0) (down s 1)"
    "\<not> up s 0 < down s 1 \<longrightarrow> down s' = down s"
proof -
  have "active s 0" "active s (- 1)" and val: "key s 0 = up s 0" "key s (- 1) = down s 1"
    using ct by (simp_all add: active_def up_def down_def)
  then obtain s1 where s1: "mmCmpExch s 0 (- 1) = Inr (up s 0 < down s 1, s1)" "rearranged s s1"
    "key s1 = (if up s 0 < down s 1 then exchange (key s) 0 (- 1) else key s)"
    using mmCmpExch_key [OF s] by (metis val)
  show ?thesis
  proof (cases "up s 0 < down s 1")
    case True
    have key: "down s1 = exchange (down s) 1 0" "\<forall>n > 0. up s1 n = up s n"
      using key_exchange_down [of s1 s 0 1] s1(3) True by auto
    have "open_below reverse_le (rm_maxCt s1) 1 (down s1)"
      using open_below_top [OF m, of "down s1"] key(1) True rearranged_ok [OF s1(2)]
      by (simp add: exchange_apply reverse_le_def up_down_root)
    then obtain s' where "maxSortDown s1 1 = Inr s'" "rearranged s1 s'"
      "heap_on reverse_le (rm_maxCt s1) (down s')" "up s' = up s1"
      using maxSortDown_heap [of s1 1] rearranged_ok [OF s1(2)] by auto
    moreover have "up s1 0 = down s 1"
      using key(1) by (simp add: up_down_root exchange_apply)
    ultimately show ?thesis
      using that [of s'] s1 True key(2) rearranged_trans [OF s1(2)] rearranged_ok [OF s1(2)]
      by (simp add: fix_max_def)
  next
    case False
    then have key: "up s1 = up s" "down s1 = down s"
      using s1(3) by (auto simp: up_def down_def)
    have "heap_on reverse_le (rm_maxCt s) ((down s)(0 := down s 0))"
      using m False ct unfolding heap_on_root_edges by (simp add: reverse_le_def up_down_root)
    moreover have "fix_max s = Inr s1"
      using s1(1) False by (simp add: fix_max_def)
    ultimately show ?thesis
      using that [of s1] s1(2) False key by simp
  qed
qed

lemma fix_min_heap:
  assumes s: "rm_ok s" and ct: "0 < rm_minCt s" and m: "heap_on (\<le>) (rm_minCt s) ((up s)(0 := m))"
  obtains s' where "fix_min s = Inr s'" "rearranged s s'" "heap_on (\<le>) (rm_minCt s) (up s')"
    "\<forall>n > 0. down s' n = down s n" "down s' 0 = min (down s 0) (up s 1)"
    "\<not> up s 1 < down s 0 \<longrightarrow> up s' = up s"
proof -
  have "active s 1" "active s 0" and val: "key s 1 = up s 1" "key s 0 = down s 0"
    using ct by (simp_all add: active_def up_def down_def)
  then obtain s1 where s1: "mmCmpExch s 1 0 = Inr (up s 1 < down s 0, s1)" "rearranged s s1"
    "key s1 = (if up s 1 < down s 0 then exchange (key s) 1 0 else key s)"
    using mmCmpExch_key [OF s] by (metis val)
  show ?thesis
  proof (cases "up s 1 < down s 0")
    case True
    have key: "up s1 = exchange (up s) 1 0" "\<forall>n > 0. down s1 n = down s n"
      using key_exchange_up [of s1 s 1 0] s1(3) True by auto
    have "open_below (\<le>) (rm_minCt s1) 1 (up s1)"
      using open_below_top [OF m, of "up s1"] key(1) True rearranged_ok [OF s1(2)]
      by (simp add: exchange_apply up_down_root)
    then obtain s' where "minSortDown s1 1 = Inr s'" "rearranged s1 s'"
      "heap_on (\<le>) (rm_minCt s1) (up s')" "down s' = down s1"
      using minSortDown_heap [of s1 1] rearranged_ok [OF s1(2)] by auto
    moreover have "down s1 0 = up s 1"
      using key(1) by (simp add: exchange_apply flip: up_down_root)
    ultimately show ?thesis
      using that [of s'] s1 True key(2) rearranged_trans [OF s1(2)] rearranged_ok [OF s1(2)]
      by (simp add: fix_min_def)
  next
    case False
    then have key: "up s1 = up s" "down s1 = down s"
      using s1(3) by (auto simp: up_def down_def)
    have "heap_on (\<le>) (rm_minCt s) ((up s)(0 := up s 0))"
      using m False ct unfolding heap_on_root_edges by (simp add: up_down_root)
    moreover have "fix_min s = Inr s1"
      using s1(1) False by (simp add: fix_min_def)
    ultimately show ?thesis
      using that [of s1] s1(2) False key by simp
  qed
qed

lemma heap_on_new_root:
  assumes "heap_on le n f" "\<forall>j > 0. g j = f j" "0 < n \<Longrightarrow> le (g 0) (g 1)"
  shows "heap_on le n g"
proof -
  have "heap_on le n (f(0 := f 0))"
    using assms(1) by simp
  then have "heap_on le n (g(0 := g 0))"
    unfolding heap_on_root_edges using assms(2,3) by auto
  then show ?thesis
    by simp
qed

lemma rise_in_min_fix:
  "rise_in_min s p = and_then (minSortUp s p) (\<lambda>(top, s). if top then fix_max s else Inr s)"
  unfolding rise_in_min_def fix_max_def ..

lemma rise_in_max_fix:
  "rise_in_max s p = and_then (maxSortUp s p) (\<lambda>(top, s). if top \<and> 0 < rm_minCt s then fix_min s else Inr s)"
  unfolding rise_in_max_def fix_min_def ..

lemma rise_in_min_balanced:
  assumes s: "rm_ok s" and p: "0 < p" "p \<le> rm_minCt s" and ct: "0 < rm_maxCt s"
    and above: "open_above (\<le>) (rm_minCt s) p (up s)" and lo: "heap_on reverse_le (rm_maxCt s) (down s)"
  shows "\<exists>s'. rise_in_min s p = Inr s' \<and> rearranged s s' \<and> balanced s'"
proof -
  obtain g b s1 where sift: "sift_up (\<le>) (up s) p = (g, b)" and s1: "minSortUp s p = Inr (b, s1)"
    "rearranged s s1" "up s1 = g" "\<forall>n > 0. down s1 n = down s n"
    using minSortUp_sifts [OF s p(2)] by blast
  have hi: "heap_on (\<le>) (rm_minCt s) (up s1)"
    using upper.sift_up_heap [OF p(2) above] sift s1(3) by simp
  note root = sift_up_root [OF p(1) sift]
  note ok1 = rearranged_ok [OF s1(2)]
  show ?thesis
  proof (cases b)
    case True
    then have root: "up s1 1 = down s 0" "up s1 0 = up s p" "\<not> up s 0 \<le> up s p"
      using root s1(3) by (simp_all add: up_down_root)
    have "(down s1)(0 := down s 0) = down s"
      using s1(4) by (intro same_from_root) auto
    then have "heap_on reverse_le (rm_maxCt s1) ((down s1)(0 := down s 0))"
      using lo ok1 by simp
    then obtain s' where s': "fix_max s1 = Inr s'" "rearranged s1 s'"
      "heap_on reverse_le (rm_maxCt s1) (down s')" "\<forall>n > 0. up s' n = up s1 n"
      "up s' 0 = max (up s1 0) (down s1 1)"
      using fix_max_heap [of s1 "down s 0"] ok1 ct by auto
    have "down s1 1 \<le> down s 0"
      using s1(4) heap_onD [OF lo, of 1] ct by (simp add: reverse_le_def)
    then have "up s' 0 \<le> up s' 1"
      using s' root by (auto simp: up_down_root)
    then have "balanced s'"
      using heap_on_new_root [OF hi s'(4)] s'(3) ok1 rearranged_ok [OF s'(2)] by (simp add: balanced_def)
    then show ?thesis
      using rise_in_min_fix s1 True s'(1) rearranged_trans [OF s1(2) s'(2)] by simp
  next
    case False
    then have "down s1 = down s"
      using root s1(3,4) by (intro same_from_root) (simp_all flip: up_down_root)
    then have "balanced s1"
      using hi lo ok1 by (simp add: balanced_def)
    then show ?thesis
      using rise_in_min_fix s1 False by simp
  qed
qed

lemma rise_in_max_balanced:
  assumes s: "rm_ok s" and p: "0 < p" "p \<le> rm_maxCt s"
    and above: "open_above reverse_le (rm_maxCt s) p (down s)" and hi: "heap_on (\<le>) (rm_minCt s) (up s)"
  shows "\<exists>s'. rise_in_max s p = Inr s' \<and> rearranged s s' \<and> balanced s'"
proof -
  obtain g b s1 where sift: "sift_up reverse_le (down s) p = (g, b)" and s1: "maxSortUp s p = Inr (b, s1)"
    "rearranged s s1" "down s1 = g" "\<forall>n > 0. up s1 n = up s n"
    using maxSortUp_sifts [OF s p(2)] by blast
  have lo: "heap_on reverse_le (rm_maxCt s) (down s1)"
    using lower.sift_up_heap [OF p(2) above] sift s1(3) by simp
  note root = sift_up_root [OF p(1) sift]
  note ok1 = rearranged_ok [OF s1(2)]
  consider "b" "0 < rm_minCt s" | "b" "rm_minCt s = 0" | "\<not> b"
    by blast
  then show ?thesis
  proof cases
    case 1
    then have root: "down s1 1 = up s 0" "down s1 0 = down s p"
      using root s1(3) by (simp_all add: up_down_root)
    have "(up s1)(0 := up s 0) = up s"
      using s1(4) by (intro same_from_root) auto
    then have "heap_on (\<le>) (rm_minCt s1) ((up s1)(0 := up s 0))"
      using hi ok1 by simp
    then obtain s' where s': "fix_min s1 = Inr s'" "rearranged s1 s'"
      "heap_on (\<le>) (rm_minCt s1) (up s')" "\<forall>n > 0. down s' n = down s1 n"
      "down s' 0 = min (down s1 0) (up s1 1)"
      using fix_min_heap [of s1 "up s 0"] ok1 1 by auto
    have "up s 0 \<le> up s1 1"
      using s1(4) heap_onD [OF hi, of 1] 1 by simp
    moreover have "down s1 1 \<le> down s1 0"
      using heap_onD [OF lo, of 1] p by (simp add: reverse_le_def)
    ultimately have "reverse_le (down s' 0) (down s' 1)"
      using s' root by (auto simp: reverse_le_def)
    then have "balanced s'"
      using heap_on_new_root [OF lo s'(4)] s'(3) ok1 rearranged_ok [OF s'(2)] by (simp add: balanced_def)
    then show ?thesis
      using rise_in_max_fix s1 1 ok1 s'(1) rearranged_trans [OF s1(2) s'(2)] by simp
  next
    case 2
    then have "balanced s1"
      using lo ok1 by (simp add: balanced_def)
    then show ?thesis
      using rise_in_max_fix s1 2 ok1 by simp
  next
    case 3
    then have "up s1 = up s"
      using root s1(3,4) by (intro same_from_root) (simp_all add: up_down_root)
    then have "balanced s1"
      using hi lo ok1 by (simp add: balanced_def)
    then show ?thesis
      using rise_in_max_fix s1 3 by simp
  qed
qed

lemma settle_median_fix:
  "settle_median s = and_then (if 0 < rm_maxCt s then fix_max s else Inr s)
    (\<lambda>s. if 0 < rm_minCt s then fix_min s else Inr s)"
proof -
  have lower: "and_then (maxSortUp s 1) (\<lambda>(top, s). if top then maxSortDown s 1 else Inr s) = fix_max s" for s
    by (cases "mmCmpExch s 0 (- 1)") (auto simp: fix_max_def maxSortUp.simps)
  have upper: "and_then (minSortUp s 1) (\<lambda>(top, s). if top then minSortDown s 1 else Inr s) = fix_min s" for s
    by (cases "mmCmpExch s 1 0") (auto simp: fix_min_def minSortUp.simps)
  show ?thesis
    unfolding settle_median_def lower upper ..
qed

lemma settle_median_balanced:
  assumes s: "rm_ok s" and hi: "heap_on (\<le>) (rm_minCt s) ((up s)(0 := m))"
    and lo: "heap_on reverse_le (rm_maxCt s) ((down s)(0 := m))"
  shows "\<exists>s'. settle_median s = Inr s' \<and> rearranged s s' \<and> balanced s'"
proof -
  obtain s1 where s1: "(if 0 < rm_maxCt s then fix_max s else Inr s) = Inr s1" "rearranged s s1"
    "heap_on reverse_le (rm_maxCt s) (down s1)" "\<forall>n > 0. up s1 n = up s n"
    "0 < rm_maxCt s \<Longrightarrow> down s1 1 \<le> m"
  proof (cases "0 < rm_maxCt s")
    case True
    obtain s1 where s1: "fix_max s = Inr s1" "rearranged s s1" "heap_on reverse_le (rm_maxCt s) (down s1)"
      "\<forall>n > 0. up s1 n = up s n" "up s1 0 = max (up s 0) (down s 1)" "\<not> up s 0 < down s 1 \<longrightarrow> down s1 = down s"
      using fix_max_heap [OF s True lo] .
    have "down s 1 \<le> m"
      using lo True by (simp add: heap_on_root_edges reverse_le_def)
    moreover have "down s1 1 \<le> down s1 0"
      using heap_onD [OF s1(3), of 1] True by (simp add: reverse_le_def)
    ultimately have "down s1 1 \<le> m"
      using s1(5,6) by (cases "up s 0 < down s 1") (auto simp: up_down_root)
    then show ?thesis
      using that [of s1] s1 True by simp
  next
    case False
    then show ?thesis
      using that [of s] s rearranged_refl by simp
  qed
  note ok1 = rearranged_ok [OF s1(2)]
  show ?thesis
  proof (cases "0 < rm_minCt s")
    case True
    have "heap_on (\<le>) (rm_minCt s1) ((up s1)(0 := m))"
      using hi s1(4) ok1 by (simp add: heap_on_root_edges)
    then obtain s2 where s2: "fix_min s1 = Inr s2" "rearranged s1 s2" "heap_on (\<le>) (rm_minCt s1) (up s2)"
      "\<forall>n > 0. down s2 n = down s1 n" "down s2 0 = min (down s1 0) (up s1 1)"
      using fix_min_heap [of s1 m] ok1 True by auto
    have "m \<le> up s1 1"
      using hi True s1(4) by (simp add: heap_on_root_edges)
    then have "reverse_le (down s2 0) (down s2 1)" if "0 < rm_maxCt s"
      using that s2(4,5) s1(5) heap_onD [OF s1(3), of 1] by (auto simp: reverse_le_def)
    then have "balanced s2"
      using heap_on_new_root [OF s1(3) s2(4)] s2(3) ok1 rearranged_ok [OF s2(2)] by (simp add: balanced_def)
    then show ?thesis
      using settle_median_fix [of s] s1(1) s2(1) True ok1 rearranged_trans [OF s1(2) s2(2)] by simp
  next
    case False
    then have "balanced s1"
      using s1(3) ok1 by (simp add: balanced_def)
    then show ?thesis
      using settle_median_fix [of s] s1(1,2) False ok1 by simp
  qed
qed

end
