(* ===== verification/Rolling_Window.thy ===== *)
theory Rolling_Window
  imports Rolling_Median
begin

text \<open>
  What the rolling median computes: after any sequence of insertions the structure holds the
  last \<open>N\<close> values, and its median is exactly the median that
  \<open>epee::misc_utils::median\<close> computes by sorting these values.
\<close>

section \<open>The window of values\<close>

text \<open>
  \<open>holds s xs\<close>: the structure is in order after \<open>xs\<close> was inserted. Slots not yet used
  keep their initial position, and the value inserted as number \<open>j\<close>, if it is among the
  last \<open>N\<close>, is in slot \<open>j mod N\<close>.
\<close>

definition holds :: "rolling_median_t \<Rightarrow> u64 list \<Rightarrow> bool" where
  "holds s xs \<longleftrightarrow> rm_ok s \<and> rm_sz s = min (length xs) (rm_N s) \<and> rm_idx s = length xs mod rm_N s \<and>
    rm_maxCt s = rm_sz s div 2 \<and> rm_minCt s = (rm_sz s - 1) div 2 \<and>
    (\<forall>k. rm_sz s \<le> k \<longrightarrow> k < rm_N s \<longrightarrow> rm_pos s k = initial_pos k) \<and>
    (\<forall>j < length xs. length xs \<le> j + rm_N s \<longrightarrow> rm_data s (j mod rm_N s) = xs ! j) \<and>
    balanced s"

lemma initial_pos_index: "k < rm_N s \<Longrightarrow> heap_index s (initial_pos k)"
  by (auto simp: initial_pos_def heap_index_def elim!: oddE)

lemma initial_pos_onto:
  assumes "heap_index s i"
  obtains k where "k < rm_N s" "initial_pos k = i"
proof (cases "i < 0")
  case True
  then show ?thesis
    using that [of "2 * nat (- i) - 1"] assms by (auto simp: initial_pos_def heap_index_def)
next
  case False
  then show ?thesis
    using that [of "2 * nat i"] assms by (auto simp: initial_pos_def heap_index_def)
qed

lemma initial_pos_inject: "initial_pos k = initial_pos l \<longleftrightarrow> k = l"
  by (auto simp: initial_pos_def split: if_splits; presburger)

lemma clear_loop_sets:
  assumes "n \<le> rm_N s"
  shows "\<exists>s'. clear_loop n s = Inr s' \<and> s' = s\<lparr>rm_pos := rm_pos s', rm_heap := rm_heap s'\<rparr> \<and>
    (\<forall>k. rm_pos s' k = (if k < n then initial_pos k else rm_pos s k)) \<and>
    (\<forall>k. rm_heap s' (initial_pos k) = (if k < n then k else rm_heap s (initial_pos k)))"
  using assms
proof (induction n arbitrary: s)
  case (Suc n)
  define s1 where "s1 = s\<lparr>rm_pos := (rm_pos s)(n := initial_pos n), rm_heap := (rm_heap s)(initial_pos n := n)\<rparr>"
  have step: "clear_loop (Suc n) s = clear_loop n s1"
    using Suc.prems initial_pos_index [of n s]
    by (simp add: set_pos_def pos_at_def set_heap_def heap_index_def s1_def)
  obtain s' where s': "clear_loop n s1 = Inr s'" "s' = s1\<lparr>rm_pos := rm_pos s', rm_heap := rm_heap s'\<rparr>"
    "\<forall>k. rm_pos s' k = (if k < n then initial_pos k else rm_pos s1 k)"
    "\<forall>k. rm_heap s' (initial_pos k) = (if k < n then k else rm_heap s1 (initial_pos k))"
    using Suc.IH [of s1] Suc.prems by (auto simp: s1_def)
  have "s' = s\<lparr>rm_pos := rm_pos s', rm_heap := rm_heap s'\<rparr>"
    using s'(2) by (simp add: s1_def)
  then show ?case
    using s' step by (auto simp: s1_def initial_pos_inject less_Suc_eq)
qed simp

lemma rm_clear_holds:
  assumes "0 < rm_N s"
  obtains s' where "rm_clear s = Inr s'" "rm_N s' = rm_N s" "holds s' []"
proof -
  define s0 where "s0 = s\<lparr>rm_idx := 0, rm_minCt := 0, rm_maxCt := 0, rm_sz := 0\<rparr>"
  obtain s' where s': "clear_loop (rm_N s0) s0 = Inr s'" "s' = s0\<lparr>rm_pos := rm_pos s', rm_heap := rm_heap s'\<rparr>"
    "\<forall>k. rm_pos s' k = (if k < rm_N s0 then initial_pos k else rm_pos s0 k)"
    "\<forall>k. rm_heap s' (initial_pos k) = (if k < rm_N s0 then k else rm_heap s0 (initial_pos k))"
    using clear_loop_sets [of "rm_N s0" s0] by auto
  have [simp]: "rm_N s0 = rm_N s"
    by (simp add: s0_def)
  have eq: "rm_N s' = rm_N s" "rm_idx s' = 0" "rm_minCt s' = 0" "rm_maxCt s' = 0" "rm_sz s' = 0"
    by (subst s'(2), simp add: s0_def)+
  have "rm_heap s' i < rm_N s' \<and> rm_pos s' (rm_heap s' i) = i" if i: "heap_index s' i" for i
  proof -
    obtain k where "k < rm_N s'" "initial_pos k = i"
      using initial_pos_onto [OF i] .
    then show ?thesis
      using s'(3,4) eq by auto
  qed
  moreover have "heap_index s' (rm_pos s' k) \<and> rm_heap s' (rm_pos s' k) = k" if "k < rm_N s'" for k
    using that s'(3,4) eq initial_pos_index [of k s'] by simp
  ultimately have "rm_ok s'"
    using assms eq by (simp add: rm_ok_def)
  then have "holds s' []"
    using s'(3) eq by (simp add: holds_def balanced_def)
  then show ?thesis
    using that s'(1) eq by (simp add: rm_clear_def s0_def)
qed

lemma unused_inactive:
  assumes "0 < rm_sz s" "rm_maxCt s = rm_sz s div 2" "rm_minCt s = (rm_sz s - 1) div 2" "rm_sz s \<le> k"
  shows "\<not> active s (initial_pos k)"
proof (cases "odd k")
  case True
  then have "rm_sz s div 2 < (k + 1) div 2"
    using assms(4) by presburger
  then show ?thesis
    using True assms by (simp add: active_def initial_pos_def)
next
  case False
  then have "(rm_sz s - 1) div 2 < (k + 1) div 2"
    using assms(1,4) by presburger
  then show ?thesis
    using False assms by (simp add: active_def initial_pos_def)
qed

lemma slot_differs:
  fixes j n N :: nat
  assumes "j < n" "n < j + N"
  shows "j mod N \<noteq> n mod N"
proof
  assume "j mod N = n mod N"
  then have "N dvd n - j"
    using assms(1) mod_eq_dvd_iff_nat [of j n N] by simp
  moreover have "0 < n - j" "n - j < N"
    using assms by auto
  ultimately show False
    using nat_dvd_not_less by blast
qed

text \<open>
  The state in which the value is written and the counts are those of one more insertion,
  but the heaps may be out of order; putting them in order completes the insertion.
\<close>

definition prepared :: "rolling_median_t \<Rightarrow> u64 \<Rightarrow> rolling_median_t \<Rightarrow> bool" where
  "prepared s v s1 \<longleftrightarrow> rm_data s1 = (rm_data s)(rm_idx s := v) \<and> rm_pos s1 = rm_pos s \<and>
    rm_heap s1 = rm_heap s \<and> rm_N s1 = rm_N s \<and> rm_idx s1 = (rm_idx s + 1) mod rm_N s \<and>
    rm_sz s1 = min (rm_sz s + 1) (rm_N s) \<and>
    rm_maxCt s1 = rm_sz s1 div 2 \<and> rm_minCt s1 = (rm_sz s1 - 1) div 2"

lemma holds_snoc:
  assumes xs: "holds s xs" and prep: "prepared s v s1" and s': "rearranged s1 s'" "balanced s'"
  shows "holds s' (xs @ [v])"
proof -
  have s1: "rm_data s1 = (rm_data s)(rm_idx s := v)" "rm_pos s1 = rm_pos s" "rm_heap s1 = rm_heap s"
    "rm_N s1 = rm_N s" "rm_idx s1 = (rm_idx s + 1) mod rm_N s" "rm_sz s1 = min (rm_sz s + 1) (rm_N s)"
    "rm_maxCt s1 = rm_sz s1 div 2" "rm_minCt s1 = (rm_sz s1 - 1) div 2"
    using prep by (simp_all add: prepared_def)
  have eq: "rm_ok s" "rm_sz s = min (length xs) (rm_N s)" "rm_idx s = length xs mod rm_N s"
    using xs by (simp_all add: holds_def)
  have eq': "rm_N s' = rm_N s" "rm_idx s' = rm_idx s1" "rm_sz s' = rm_sz s1" "rm_minCt s' = rm_minCt s1" "rm_maxCt s' = rm_maxCt s1"
    "rm_data s' = rm_data s1" "rm_ok s'"
    using s'(1) s1(4) by (simp_all add: rearranged_def)
  note eq = eq eq'
  have N: "0 < rm_N s"
    using eq(1) by (simp add: rm_ok_def)
  have "rm_pos s' k = initial_pos k" if k: "rm_sz s' \<le> k" "k < rm_N s'" for k
  proof -
    have "0 < rm_sz s1"
      using s1(6) N by simp
    then have "\<not> active s1 (initial_pos k)"
      using unused_inactive [of s1 k] s1(7,8) eq(6) k(1) by simp
    then have "rm_heap s' (initial_pos k) = rm_heap s (initial_pos k)"
      using s'(1) s1(3) by (simp add: rearranged_def)
    moreover have "initial_pos k = rm_pos s k"
      using xs k eq(4,6) s1(6) by (simp add: holds_def)
    moreover have "rm_heap s (rm_pos s k) = k"
      using eq(1,4) k by (simp add: rm_ok_def)
    ultimately have "rm_heap s' (initial_pos k) = k"
      by simp
    then show ?thesis
      using eq(10) initial_pos_index [OF k(2)] by (auto simp: rm_ok_def)
  qed
  moreover have "rm_data s' (j mod rm_N s') = (xs @ [v]) ! j"
    if j: "j < length (xs @ [v])" "length (xs @ [v]) \<le> j + rm_N s'" for j
  proof (cases "j = length xs")
    case True
    then show ?thesis
      by (simp add: eq(3,4,9) s1(1))
  next
    case False
    then have less: "j < length xs" "length xs < j + rm_N s"
      using j eq(4) by auto
    then have "j mod rm_N s \<noteq> length xs mod rm_N s"
      using slot_differs by blast
    moreover have "rm_data s (j mod rm_N s) = xs ! j"
      using xs less by (simp add: holds_def)
    ultimately show ?thesis
      using less(1) by (simp add: eq(3,4,9) s1(1) nth_append)
  qed
  moreover have "rm_idx s' = length (xs @ [v]) mod rm_N s'"
    unfolding eq(5) s1(5) eq(3,4) by (simp add: mod_Suc_eq)
  moreover have "rm_sz s' = min (length (xs @ [v])) (rm_N s')"
    unfolding eq(6) s1(6) eq(2,4) by simp
  moreover have "rm_maxCt s' = rm_sz s' div 2" "rm_minCt s' = (rm_sz s' - 1) div 2"
    unfolding eq(6-8) s1(7,8) by (rule refl)+
  ultimately show ?thesis
    unfolding holds_def using eq(10) s'(2) by (intro conjI allI impI)
qed

text \<open>
  The state once the new value is written, with the counts it will have. At every position of
  the array the value is the old one, but at the position \<open>p\<close> of the slot.
\<close>

definition written :: "rolling_median_t \<Rightarrow> u64 \<Rightarrow> rolling_median_t" where
  "written s v = s\<lparr>rm_data := (rm_data s)(rm_idx s := v), rm_idx := (rm_idx s + 1) mod rm_N s,
    rm_sz := min (rm_sz s + 1) (rm_N s)\<rparr>"

lemma written_select [simp]:
  "rm_data (written s v) = (rm_data s)(rm_idx s := v)" "rm_pos (written s v) = rm_pos s"
  "rm_heap (written s v) = rm_heap s" "rm_N (written s v) = rm_N s" "rm_minCt (written s v) = rm_minCt s"
  "rm_maxCt (written s v) = rm_maxCt s" "rm_sz (written s v) = min (rm_sz s + 1) (rm_N s)"
  "rm_idx (written s v) = (rm_idx s + 1) mod rm_N s"
  by (simp_all add: written_def)

lemma rm_ok_counts:
  "rm_ok s \<Longrightarrow> rm_pos s1 = rm_pos s \<Longrightarrow> rm_heap s1 = rm_heap s \<Longrightarrow> rm_N s1 = rm_N s \<Longrightarrow>
    rm_minCt s1 \<le> (rm_N s - 1) div 2 \<Longrightarrow> rm_maxCt s1 \<le> rm_N s div 2 \<Longrightarrow> rm_ok s1"
  by (simp add: rm_ok_def heap_index_def)

lemma key_written:
  assumes "rm_ok s" "rm_idx s < rm_N s" "rm_data s1 = rm_data (written s v)" "rm_heap s1 = rm_heap s" "heap_index s i"
  shows "key s1 i = (if i = rm_pos s (rm_idx s) then v else key s i)"
  using assms by (auto simp: key_def rm_ok_def)

lemma rm_insert_written:
  assumes "rm_idx s < rm_N s"
  shows "rm_insert s v = (let p = rm_pos s (rm_idx s); s1 = written s v in
    if 0 < p then
      if rm_minCt s < (rm_N s - 1) div 2 then rise_in_min (s1\<lparr>rm_minCt := rm_minCt s + 1\<rparr>) (nat p)
      else if rm_data s (rm_idx s) < v then minSortDown s1 (nat p) else rise_in_min s1 (nat p)
    else if p < 0 then
      if rm_maxCt s < rm_N s div 2 then rise_in_max (s1\<lparr>rm_maxCt := rm_maxCt s + 1\<rparr>) (nat (- p))
      else if v < rm_data s (rm_idx s) then maxSortDown s1 (nat (- p)) else rise_in_max s1 (nat (- p))
    else settle_median s1)"
  using assms unfolding rm_insert_def written_def [symmetric] by (simp add: pos_at_def data_at_def Let_def)

lemma balanced_heaps:
  "balanced s \<Longrightarrow> heap_on (\<le>) (rm_minCt s) (up s)" "balanced s \<Longrightarrow> heap_on reverse_le (rm_maxCt s) (down s)"
  by (simp_all add: balanced_def)

text \<open>The two halves after the value is written, for a slot on either side and for the root.\<close>

lemma halves_written:
  assumes "rm_ok s" "rm_idx s < rm_N s" "rm_data s1 = rm_data (written s v)" "rm_heap s1 = rm_heap s"
  shows "j \<le> rm_minCt s \<Longrightarrow> up s1 j = (if int j = rm_pos s (rm_idx s) then v else up s j)"
    and "j \<le> rm_maxCt s \<Longrightarrow> down s1 j = (if - int j = rm_pos s (rm_idx s) then v else down s j)"
  unfolding up_def down_def
  using key_written [OF assms] active_index [OF assms(1)] active_up active_down by metis+

text \<open>While the window fills up: the new slot is the next one of its side.\<close>

lemma insert_filling:
  assumes xs: "holds s xs" and fill: "length xs < rm_N s"
  shows "\<exists>s1 s'. rm_insert s v = Inr s' \<and> prepared s v s1 \<and> rearranged s1 s' \<and> balanced s'"
proof -
  define n where "n = length xs"
  have ok: "rm_ok s" and bal: "balanced s" and sz: "rm_sz s = n" "rm_idx s = n" "rm_idx s < rm_N s" "n < rm_N s"
    and ct: "rm_maxCt s = n div 2" "rm_minCt s = (n - 1) div 2" and p: "rm_pos s n = initial_pos n"
    using xs fill by (simp_all add: holds_def n_def)
  note insert = rm_insert_written [OF sz(3), of v, unfolded sz(2) p]
  consider "n = 0" | k where "n = 2 * Suc k" | k where "n = 2 * k + 1"
    by (metis Suc_eq_plus1 evenE not0_implies_Suc mult_zero_right oddE)
  then show ?thesis
  proof cases
    case 1
    have ok1: "rm_ok (written s v)"
      using ok ct 1 by (intro rm_ok_counts [OF ok]) simp_all
    have "\<exists>s'. settle_median (written s v) = Inr s' \<and> rearranged (written s v) s' \<and> balanced s'"
      using ct 1 by (intro settle_median_balanced [OF ok1]) simp_all
    moreover have "rm_insert s v = settle_median (written s v)" "prepared s v (written s v)"
      using insert 1 ct sz by (simp_all add: initial_pos_def prepared_def)
    ultimately show ?thesis
      by auto
  next
    case 2
    define s1 where "s1 = (written s v)\<lparr>rm_minCt := Suc k\<rparr>"
    have pos: "initial_pos n = int (Suc k)" and room: "Suc k \<le> (rm_N s - 1) div 2" "Suc k \<le> rm_N s div 2"
      and ct': "rm_minCt s = k" "rm_maxCt s = Suc k"
      using 2 sz(4) ct by (auto simp: initial_pos_def)
    have half: "j \<le> k \<Longrightarrow> up s1 j = up s j" "j \<le> Suc k \<Longrightarrow> down s1 j = down s j" for j
      using halves_written [OF ok sz(3), of s1 v j] ct' pos p by (auto simp: s1_def sz(2))
    have "\<exists>s'. rise_in_min s1 (Suc k) = Inr s' \<and> rearranged s1 s' \<and> balanced s'"
    proof (rule rise_in_min_balanced)
      show "rm_ok s1"
        using room ct' by (intro rm_ok_counts [OF ok]) (simp_all add: s1_def)
      show "open_above (\<le>) (rm_minCt s1) (Suc k) (up s1)"
        using new_entry [OF balanced_heaps(1) [OF bal], of "up s1"] half(1) ct' by (simp add: s1_def)
      show "heap_on reverse_le (rm_maxCt s1) (down s1)"
        using balanced_heaps(2) [OF bal] half(2) ct' heap_on_cong [of "Suc k" "down s1" "down s" reverse_le]
        by (simp add: s1_def)
    qed (use ct' in \<open>simp_all add: s1_def\<close>)
    then obtain s' where "rise_in_min s1 (Suc k) = Inr s'" "rearranged s1 s'" "balanced s'"
      by blast
    moreover have "rm_insert s v = rise_in_min s1 (Suc k)"
      using insert room pos ct' by (simp add: Let_def s1_def del: of_nat_Suc)
    moreover have "prepared s v s1"
      using ct' 2 sz by (simp add: s1_def prepared_def)
    ultimately show ?thesis
      by auto
  next
    case 3
    define s1 where "s1 = (written s v)\<lparr>rm_maxCt := Suc k\<rparr>"
    have pos: "initial_pos n = - int (Suc k)" and room: "Suc k \<le> rm_N s div 2"
      and ct': "rm_minCt s = k" "rm_maxCt s = k"
      using 3 sz(4) ct by (auto simp: initial_pos_def)
    have half: "j \<le> k \<Longrightarrow> up s1 j = up s j" "j \<le> k \<Longrightarrow> down s1 j = down s j" for j
      using halves_written [OF ok sz(3), of s1 v j] ct' pos p by (auto simp: s1_def sz(2))
    have "\<exists>s'. rise_in_max s1 (Suc k) = Inr s' \<and> rearranged s1 s' \<and> balanced s'"
    proof (rule rise_in_max_balanced)
      show "rm_ok s1"
        using room ct' ok by (intro rm_ok_counts [OF ok]) (simp_all add: s1_def rm_ok_def)
      show "open_above reverse_le (rm_maxCt s1) (Suc k) (down s1)"
        using new_entry [OF balanced_heaps(2) [OF bal], of "down s1"] half(2) ct' by (simp add: s1_def)
      show "heap_on (\<le>) (rm_minCt s1) (up s1)"
        using balanced_heaps(1) [OF bal] half(1) ct' heap_on_cong [of k "up s1" "up s" "(\<le>)"]
        by (simp add: s1_def)
    qed (use ct' in \<open>simp_all add: s1_def\<close>)
    then obtain s' where "rise_in_max s1 (Suc k) = Inr s'" "rearranged s1 s'" "balanced s'"
      by blast
    moreover have "rm_insert s v = rise_in_max s1 (Suc k)"
      using insert room pos ct' by (simp add: Let_def s1_def del: of_nat_Suc)
    moreover have "prepared s v s1"
      using ct' 3 sz by (simp add: s1_def prepared_def)
    ultimately show ?thesis
      by auto
  qed
qed

text \<open>Once the window is full the new value replaces the oldest one, wherever that is.\<close>

lemma insert_full:
  assumes xs: "holds s xs" and full: "rm_N s \<le> length xs"
  shows "\<exists>s1 s'. rm_insert s v = Inr s' \<and> prepared s v s1 \<and> rearranged s1 s' \<and> balanced s'"
proof -
  define p where "p = rm_pos s (rm_idx s)"
  define s1 where "s1 = written s v"
  have ok: "rm_ok s" and bal: "balanced s" and N: "0 < rm_N s"
    and ct: "rm_maxCt s = rm_N s div 2" "rm_minCt s = (rm_N s - 1) div 2" and sz: "rm_sz s = rm_N s"
    using xs full by (simp_all add: holds_def rm_ok_def)
  have idx: "rm_idx s < rm_N s"
    using xs N by (simp add: holds_def)
  have ok1: "rm_ok s1"
    using ct by (intro rm_ok_counts [OF ok]) (simp_all add: s1_def)
  have prep: "prepared s v s1"
    using ct sz N by (simp add: prepared_def s1_def)
  have ct1: "rm_minCt s1 = rm_minCt s" "rm_maxCt s1 = rm_maxCt s"
    by (simp_all add: s1_def)
  have p_range: "- int (rm_N s div 2) \<le> p" "p \<le> int ((rm_N s - 1) div 2)"
    and old: "rm_data s (rm_idx s) = key s p"
    using ok idx by (auto simp: rm_ok_def heap_index_def p_def key_def)
  note insert = rm_insert_written [OF idx, of v, folded p_def s1_def, unfolded old Let_def]
  note half = halves_written [OF ok idx, of s1 v, folded p_def]
  have up1: "j \<le> rm_minCt s1 \<Longrightarrow> up s1 j = (if int j = p then v else up s j)"
    and down1: "j \<le> rm_maxCt s1 \<Longrightarrow> down s1 j = (if - int j = p then v else down s j)" for j
    using half [of j] by (simp_all add: s1_def)
  note hi = balanced_heaps(1) [OF bal, folded ct1] and lo = balanced_heaps(2) [OF bal, folded ct1]
  consider q where "p = int q" "0 < q" | q where "p = - int q" "0 < q" | "p = 0"
    by (cases p rule: int_cases3) auto
  then have "\<exists>s'. rm_insert s v = Inr s' \<and> rearranged s1 s' \<and> balanced s'"
  proof cases
    case 1
    have q: "q \<le> rm_minCt s1" "0 < rm_maxCt s1" and key: "key s p = up s q"
      using p_range 1 ct ct1 by (auto simp: up_def)
    have up1: "up s1 j = (if j = q then v else up s j)" if "j \<le> rm_minCt s1" for j
      using up1 [OF that] 1 by simp
    have lo: "heap_on reverse_le (rm_maxCt s1) (down s1)"
      using lo down1 1 heap_on_cong [of "rm_maxCt s1" "down s1" "down s" reverse_le] by simp
    show ?thesis
    proof (cases "up s q < v")
      case True
      then have "open_below (\<le>) (rm_minCt s1) q (up s1)"
        using upper.raise_entry [OF hi 1(2) q(1) _ up1] by simp
      then obtain s' where "minSortDown s1 q = Inr s'" "rearranged s1 s'"
        "heap_on (\<le>) (rm_minCt s1) (up s')" "down s' = down s1"
        using minSortDown_heap [OF ok1 1(2)] by blast
      then show ?thesis
        using insert 1 ct key True lo rearranged_ok [of s1 s'] by (simp add: balanced_def)
    next
      case False
      then have "open_above (\<le>) (rm_minCt s1) q (up s1)"
        using upper.lower_entry [OF hi 1(2) q(1) _ up1] by simp
      then show ?thesis
        using rise_in_min_balanced [OF ok1 1(2) q _ lo] insert 1 ct key False by simp
    qed
  next
    case 2
    have q: "q \<le> rm_maxCt s1" and key: "key s p = down s q"
      using p_range 2 ct ct1 by (auto simp: down_def)
    have down1: "down s1 j = (if j = q then v else down s j)" if "j \<le> rm_maxCt s1" for j
      using down1 [OF that] 2 by simp
    have hi: "heap_on (\<le>) (rm_minCt s1) (up s1)"
      using hi up1 2 heap_on_cong [of "rm_minCt s1" "up s1" "up s" "(\<le>)"] by simp
    show ?thesis
    proof (cases "v < down s q")
      case True
      then have "open_below reverse_le (rm_maxCt s1) q (down s1)"
        using lower.raise_entry [OF lo 2(2) q(1) _ down1] by (simp add: reverse_le_def)
      then obtain s' where "maxSortDown s1 q = Inr s'" "rearranged s1 s'"
        "heap_on reverse_le (rm_maxCt s1) (down s')" "up s' = up s1"
        using maxSortDown_heap [OF ok1 2(2)] by blast
      then show ?thesis
        using insert 2 ct key True hi rearranged_ok [of s1 s'] by (simp add: balanced_def)
    next
      case False
      then have "open_above reverse_le (rm_maxCt s1) q (down s1)"
        using lower.lower_entry [OF lo 2(2) q(1) _ down1] by (simp add: reverse_le_def)
      then show ?thesis
        using rise_in_max_balanced [OF ok1 2(2) q _ hi] insert 2 ct key False by simp
    qed
  next
    case 3
    have "heap_on (\<le>) (rm_minCt s1) ((up s1)(0 := up s 0))"
      using hi up1 3 heap_on_cong [of "rm_minCt s1" "(up s1)(0 := up s 0)" "up s" "(\<le>)"] by simp
    moreover have "heap_on reverse_le (rm_maxCt s1) ((down s1)(0 := up s 0))"
      using lo down1 3 heap_on_cong [of "rm_maxCt s1" "(down s1)(0 := up s 0)" "down s" reverse_le]
      by (simp add: up_down_root)
    ultimately show ?thesis
      using settle_median_balanced [OF ok1] insert 3 by simp
  qed
  then show ?thesis
    using prep by blast
qed

theorem rm_insert_holds:
  assumes "holds s xs"
  obtains s' where "rm_insert s v = Inr s'" "holds s' (xs @ [v])" "rm_N s' = rm_N s"
proof -
  obtain s1 s' where "rm_insert s v = Inr s'" "prepared s v s1" "rearranged s1 s'" "balanced s'"
    using insert_filling [OF assms] insert_full [OF assms] by (meson not_le)
  then show ?thesis
    using that holds_snoc [OF assms] by (simp add: prepared_def rearranged_def)
qed

lemma insert_all_holds:
  "holds s xs \<Longrightarrow> \<exists>s'. insert_all s ys = Inr s' \<and> holds s' (xs @ ys) \<and> rm_N s' = rm_N s"
proof (induction ys arbitrary: s xs)
  case (Cons y ys)
  obtain s' where "rm_insert s y = Inr s'" "holds s' (xs @ [y])" "rm_N s' = rm_N s"
    using rm_insert_holds [OF Cons.prems] .
  then show ?case
    using Cons.IH [of s' "xs @ [y]"] by simp
qed simp

section \<open>The median\<close>

lemma sort_around:
  assumes "mset xs = mset (as @ m # bs)" "\<forall>a \<in> set as. a \<le> m" "\<forall>b \<in> set bs. m \<le> b"
  shows "sort xs = sort as @ m # sort bs"
  using assms by (intro properties_for_sort) (auto simp: sorted_append intro: order_trans [of _ m])

lemma last_sort:
  assumes "x \<in> set as" "\<forall>a \<in> set as. a \<le> x"
  shows "sort as ! (length as - 1) = x"
proof -
  have ne: "sort as \<noteq> []"
    using assms(1) by (metis empty_iff list.set(1) set_sort)
  then have "last (sort as) \<le> x"
    using assms(2) last_in_set [OF ne] by simp
  moreover have "x \<le> last (sort as)"
  proof -
    obtain i where "i < length (sort as)" "sort as ! i = x"
      using assms(1) by (metis in_set_conv_nth set_sort)
    then show ?thesis
      using ne sorted_nth_mono [OF sorted_sort, of i "length (sort as) - 1" as] by (simp add: last_conv_nth)
  qed
  ultimately show ?thesis
    using ne by (simp add: last_conv_nth)
qed

text \<open>The last \<open>n\<close> values of a list, and what the circular array holds of them.\<close>

definition last_n :: "nat \<Rightarrow> 'a list \<Rightarrow> 'a list" where
  "last_n n xs = drop (length xs - n) xs"

lemma length_last_n: "length (last_n n xs) = min (length xs) n"
  by (simp add: last_n_def)

lemma slots_of_window:
  fixes N :: nat
  assumes "0 < N"
  shows "bij_betw (\<lambda>j. j mod N) {n..<n + N} {..<N}"
proof (rule bij_betw_imageI)
  show inj: "inj_on (\<lambda>j. j mod N) {n..<n + N}"
  proof (rule linorder_inj_onI)
    fix i j assume "i < j" "i \<in> {n..<n + N}" "j \<in> {n..<n + N}"
    then show "i mod N \<noteq> j mod N"
      using slot_differs [of i j N] by auto
  qed auto
  show "(\<lambda>j. j mod N) ` {n..<n + N} = {..<N}"
  proof (rule card_subset_eq)
    show "(\<lambda>j. j mod N) ` {n..<n + N} \<subseteq> {..<N}"
      using assms by auto
    show "card ((\<lambda>j. j mod N) ` {n..<n + N}) = card {..<N}"
      using card_image [OF inj] by simp
  qed simp
qed

lemma holds_values:
  assumes "holds s xs"
  shows "image_mset (rm_data s) (mset_set {..<rm_sz s}) = mset (last_n (rm_N s) xs)"
proof -
  define N n where "N = rm_N s" and "n = length xs - rm_N s"
  have N: "0 < N" and sz: "rm_sz s = min (length xs) N"
    and val: "\<And>j. j < length xs \<Longrightarrow> length xs \<le> j + N \<Longrightarrow> rm_data s (j mod N) = xs ! j"
    using assms by (simp_all add: holds_def rm_ok_def N_def)
  have "bij_betw (\<lambda>j. j mod N) {n..<length xs} {..<rm_sz s}"
  proof (cases "N \<le> length xs")
    case True
    then have "length xs = n + N" "rm_sz s = N"
      using sz by (simp_all add: n_def N_def)
    then show ?thesis
      using slots_of_window [OF N, of n] by simp
  next
    case False
    then have "n = 0" "rm_sz s = length xs"
      using sz by (simp_all add: n_def N_def)
    then show ?thesis
      using False by (auto simp: bij_betw_def inj_on_def)
  qed
  then have "mset_set {..<rm_sz s} = image_mset (\<lambda>j. j mod N) (mset_set {n..<length xs})"
    using image_mset_mset_set [of "\<lambda>j. j mod N" "{n..<length xs}"] by (simp add: bij_betw_def)
  then have "image_mset (rm_data s) (mset_set {..<rm_sz s}) = image_mset (\<lambda>j. xs ! j) (mset_set {n..<length xs})"
    using val by (auto simp: multiset.map_comp n_def N_def intro!: image_mset_cong)
  also have "\<dots> = mset (map (\<lambda>j. xs ! j) [n..<length xs])"
    by simp
  also have "map (\<lambda>j. xs ! j) [n..<length xs] = last_n N xs"
    by (rule nth_equalityI) (auto simp: last_n_def n_def N_def)
  finally show ?thesis
    by (simp add: N_def)
qed

text \<open>The positions in use are those of the slots in use.\<close>

lemma used_active:
  assumes "rm_maxCt s = rm_sz s div 2" "rm_minCt s = (rm_sz s - 1) div 2" "k < rm_sz s"
  shows "active s (initial_pos k)"
proof (cases "odd k")
  case True
  then have "(k + 1) div 2 \<le> rm_sz s div 2"
    using assms(3) by presburger
  then show ?thesis
    using True assms by (simp add: active_def initial_pos_def)
next
  case False
  then have "(k + 1) div 2 \<le> (rm_sz s - 1) div 2"
    using assms(3) by presburger
  then show ?thesis
    using False assms by (simp add: active_def initial_pos_def)
qed

lemma slots_in_use:
  assumes xs: "holds s xs" and ne: "xs \<noteq> []"
  shows "bij_betw (rm_heap s) {i. active s i} {..<rm_sz s}"
proof (rule bij_betw_byWitness [where f' = "rm_pos s"])
  have ok: "rm_ok s" and ct: "rm_maxCt s = rm_sz s div 2" "rm_minCt s = (rm_sz s - 1) div 2"
    and unused: "\<And>k. rm_sz s \<le> k \<Longrightarrow> k < rm_N s \<Longrightarrow> rm_pos s k = initial_pos k"
    and sz: "rm_sz s = min (length xs) (rm_N s)"
    using xs by (simp_all add: holds_def)
  have pos: "0 < rm_sz s" "rm_sz s \<le> rm_N s"
    using sz ne ok by (auto simp: rm_ok_def)
  have heap: "rm_heap s i < rm_N s" "rm_pos s (rm_heap s i) = i" if "active s i" for i
    using ok active_index [OF ok that] by (auto simp: rm_ok_def)
  show "\<forall>i \<in> {i. active s i}. rm_pos s (rm_heap s i) = i"
    using heap by simp
  show "\<forall>k \<in> {..<rm_sz s}. rm_heap s (rm_pos s k) = k"
    using ok pos by (simp add: rm_ok_def)
  have "rm_heap s i < rm_sz s" if i: "active s i" for i
  proof (rule ccontr)
    assume k: "\<not> rm_heap s i < rm_sz s"
    then have "initial_pos (rm_heap s i) = i"
      using unused [of "rm_heap s i"] heap [OF i] by simp
    then show False
      using unused_inactive [OF pos(1) ct, of "rm_heap s i"] i k by simp
  qed
  then show "rm_heap s ` {i. active s i} \<subseteq> {..<rm_sz s}"
    by auto
  show "rm_pos s ` {..<rm_sz s} \<subseteq> {i. active s i}"
  proof safe
    fix k assume k: "k < rm_sz s"
    then have "heap_index s (rm_pos s k)" "rm_heap s (rm_pos s k) = k"
      using ok pos by (auto simp: rm_ok_def)
    then obtain l where l: "l < rm_N s" "initial_pos l = rm_pos s k"
      using initial_pos_onto by blast
    have "l < rm_sz s"
    proof (rule ccontr)
      assume "\<not> l < rm_sz s"
      then have "rm_heap s (rm_pos s k) = l"
        using unused [of l] l ok by (auto simp: rm_ok_def)
      then show False
        using \<open>\<not> l < rm_sz s\<close> \<open>rm_heap s (rm_pos s k) = k\<close> k by simp
    qed
    then show "active s (rm_pos s k)"
      using used_active [OF ct] l(2) by metis
  qed
qed

lemma holds_halves:
  assumes "holds s xs" "xs \<noteq> []"
  shows "mset (last_n (rm_N s) xs) =
    mset (map (down s) [1..<Suc (rm_maxCt s)] @ up s 0 # map (up s) [1..<Suc (rm_minCt s)])"
proof -
  have set: "{i. active s i} = (\<lambda>n. - int n) ` {1..<Suc (rm_maxCt s)} \<union> insert 0 (int ` {1..<Suc (rm_minCt s)})"
  proof (intro equalityI subsetI)
    fix i assume "i \<in> {i. active s i}"
    then show "i \<in> (\<lambda>n. - int n) ` {1..<Suc (rm_maxCt s)} \<union> insert 0 (int ` {1..<Suc (rm_minCt s)})"
      by (cases i rule: int_cases3) (auto simp: active_def)
  qed (auto simp: active_def)
  have "mset (last_n (rm_N s) xs) = image_mset (rm_data s) (image_mset (rm_heap s) (mset_set {i. active s i}))"
    using holds_values [OF assms(1)] slots_in_use [OF assms]
    by (simp add: image_mset_mset_set bij_betw_def)
  also have "\<dots> = image_mset (key s) (mset_set {i. active s i})"
    by (simp add: multiset.map_comp key_def [abs_def] comp_def)
  also have "mset_set {i. active s i} = image_mset (\<lambda>n. - int n) (mset_set {1..<Suc (rm_maxCt s)}) +
      add_mset 0 (image_mset int (mset_set {1..<Suc (rm_minCt s)}))"
  proof -
    have "mset_set (insert 0 (int ` {1..<Suc (rm_minCt s)})) = add_mset 0 (mset_set (int ` {1..<Suc (rm_minCt s)}))"
      by (rule mset_set.insert) auto
    then show ?thesis
      unfolding set by (subst mset_set_Union) (auto simp: image_mset_mset_set inj_on_def)
  qed
  finally show ?thesis
    by (simp add: multiset.map_comp comp_def up_def [abs_def] down_def [abs_def] del: upt_Suc)
qed

lemma median_sort:
  "w \<noteq> [] \<Longrightarrow> median w = (if odd (length w) then sort w ! (length w div 2)
    else (sort w ! (length w div 2 - 1) + sort w ! (length w div 2)) div 2)"
  by (cases w; cases "tl w") (simp_all add: median_def Let_def odd_iff_mod_2_eq_one)

lemma holds_median:
  assumes "holds s xs" "xs \<noteq> []"
  shows "rm_median s = Inr (median (last_n (rm_N s) xs))"
proof -
  define as bs where "as = map (down s) [1..<Suc (rm_maxCt s)]" and "bs = map (up s) [1..<Suc (rm_minCt s)]"
  define w where "w = last_n (rm_N s) xs"
  have ok: "rm_ok s" and bal: "balanced s"
    and ct: "rm_maxCt s = length w div 2" "rm_minCt s = (length w - 1) div 2"
    using assms(1) by (simp_all add: holds_def w_def length_last_n)
  have "0 < rm_N s"
    using ok by (simp add: rm_ok_def)
  then have "0 < length w"
    using assms(2) by (simp add: w_def length_last_n)
  then have len: "w \<noteq> []" "length (sort as) = length w div 2"
    using ct(1) by (auto simp: as_def)
  note hi = balanced_heaps(1) [OF bal] and lo = balanced_heaps(2) [OF bal]
  have "\<forall>a \<in> set as. a \<le> up s 0" "\<forall>b \<in> set bs. up s 0 \<le> b"
    using lower.root_first [OF lo] upper.root_first [OF hi]
    by (auto simp: as_def bs_def reverse_le_def up_down_root)
  moreover have "mset w = mset (as @ up s 0 # bs)"
    using holds_halves [OF assms] unfolding w_def as_def bs_def .
  ultimately have sort: "sort w = sort as @ up s 0 # sort bs"
    by (intro sort_around)
  have mid: "sort w ! (length w div 2) = up s 0"
    unfolding sort nth_append len(2) by simp
  have root: "heap_index s 0" "rm_data s (rm_heap s 0) = up s 0"
    using active_index [OF ok, of 0] by (auto simp: active_def up_def key_def)
  show ?thesis
  proof (cases "even (length w)")
    case True
    have low: "rm_minCt s < rm_maxCt s" "0 < rm_maxCt s"
      unfolding ct using True \<open>0 < length w\<close> by presburger+
    then have top: "heap_index s (- 1)" "rm_data s (rm_heap s (- 1)) = down s 1"
      using active_index [OF ok, of "- 1"] by (auto simp: active_def down_def key_def)
    have "sort as ! (length as - 1) = down s 1"
    proof (rule last_sort)
      show "down s 1 \<in> set as"
        using low(2) by (simp add: as_def del: upt_Suc)
      show "\<forall>a \<in> set as. a \<le> down s 1"
        using lower.top_first [OF lo] by (auto simp: as_def reverse_le_def)
    qed
    then have "sort w ! (length w div 2 - 1) = down s 1"
      using low(2) len(2) ct(1) unfolding sort nth_append by simp
    then show ?thesis
      using root top low(1) rm_ok_heap [OF ok] median_sort [OF len(1)] True mid
      by (simp add: rm_median_def heap_at_def data_at_def add.commute flip: w_def)
  next
    case False
    then have "\<not> rm_minCt s < rm_maxCt s"
      using ct by presburger
    then show ?thesis
      using root rm_ok_heap [OF ok] median_sort [OF len(1)] False mid
      by (simp add: rm_median_def heap_at_def data_at_def flip: w_def)
  qed
qed

lemma last_n_snoc: "0 < n \<Longrightarrow> last_n n (xs @ [x]) = last_n n (last_n n xs @ [x])"
  by (cases "n \<le> length xs") (auto simp: last_n_def Suc_diff_le)

text \<open>
  C3. After \<open>clear\<close>, whatever the memory held before (a fresh allocation included), any
  sequence of insertions returns without touching an index outside the arrays; the size is
  the number of values, up to \<open>N\<close>, and \<open>median\<close> returns exactly what
  \<open>epee::misc_utils::median\<close> returns for the last \<open>N\<close> values inserted, the average of the
  two middle values with its wrap-around included.
\<close>

theorem rolling_median_correct:
  assumes "0 < rm_N s"
  shows "\<exists>s'. and_then (rm_clear s) (\<lambda>s. insert_all s xs) = Inr s' \<and>
    rm_size s' = min (length xs) (rm_N s) \<and>
    (xs \<noteq> [] \<longrightarrow> rm_median s' = Inr (median (last_n (rm_N s) xs)))"
proof -
  obtain s0 where "rm_clear s = Inr s0" "rm_N s0 = rm_N s" "holds s0 []"
    using rm_clear_holds [OF assms] .
  moreover obtain s' where "insert_all s0 xs = Inr s'" "holds s' xs" "rm_N s' = rm_N s0"
    using insert_all_holds [OF \<open>holds s0 []\<close>, of xs] by auto
  ultimately show ?thesis
    using holds_median [of s' xs] by (auto simp: rm_size_def holds_def)
qed

definition sample_memory :: rolling_median_t where
  "sample_memory = \<lparr>rm_data = (\<lambda>_. 7), rm_pos = (\<lambda>_. 0), rm_heap = (\<lambda>_. 0), rm_N = 3, rm_idx = 2,
    rm_minCt = 9, rm_maxCt = 9, rm_sz = 1\<rparr>"

theorem rolling_median_correct_witness:
  "\<exists>s'. and_then (rm_clear sample_memory) (\<lambda>s. insert_all s [5, 1, 9, 8]) = Inr s' \<and>
    rm_size s' = 3 \<and> rm_median s' = Inr 8"
proof -
  have "median (last_n 3 [5, 1, 9, 8]) = 8"
    by code_simp
  moreover have "rm_N sample_memory = 3"
    by (simp add: sample_memory_def)
  ultimately show ?thesis
    using rolling_median_correct [of sample_memory "[5, 1, 9, 8]"]
    by (simp add: eval_nat_numeral del: insert_all.simps)
qed

end
