(* ===== verification/Block_Weight.thy ===== *)
theory Block_Weight
  imports Rolling_Window Money
begin

text \<open>
  The limit on the weight of the next block (\<open>cryptonote_core/blockchain.cpp\<close>): the median
  of the long-term weights of the last blocks, kept in a rolling median that is reused as
  long as the window ends at the block it was computed for, the long-term weight that a new
  block is stored with, and the limit derived from the two medians. The theorems compare
  this with a definition that has no cache and reads the chain only.
\<close>

section \<open>The weights in the database\<close>

text \<open>
  What \<open>blockchain_db/lmdb/db_lmdb.cpp\<close> keeps of each block, by height, and the property
  \<open>max_block_size\<close>. Heights are counts of blocks and are kept as natural numbers.
\<close>

record block_info =
  bi_hash :: blob
  bi_weight :: u64
  bi_long_term :: u64

record weight_db =
  wd_blocks :: "block_info list"
  wd_max_block_size :: "u64 option"
  wd_read_only :: bool

definition wd_height :: "weight_db \<Rightarrow> nat" where
  "wd_height db = length (wd_blocks db)"

definition get_block_info :: "(block_info \<Rightarrow> 'a) \<Rightarrow> weight_db \<Rightarrow> nat \<Rightarrow> 'a result" where
  "get_block_info field db height =
    (if height < wd_height db then Inr (field (wd_blocks db ! height)) else Inl Block_does_not_exist)"

definition get_block_hash_from_height :: "weight_db \<Rightarrow> nat \<Rightarrow> blob result" where
  "get_block_hash_from_height = get_block_info bi_hash"

definition get_block_weight :: "weight_db \<Rightarrow> nat \<Rightarrow> u64 result" where
  "get_block_weight = get_block_info bi_weight"

definition get_block_long_term_weight :: "weight_db \<Rightarrow> nat \<Rightarrow> u64 result" where
  "get_block_long_term_weight = get_block_info bi_long_term"

definition get_block_info_64bit_fields :: "(block_info \<Rightarrow> u64) \<Rightarrow> weight_db \<Rightarrow> nat \<Rightarrow> nat \<Rightarrow> u64 list result" where
  "get_block_info_64bit_fields field db start_height nblocks =
    (if wd_height db \<le> start_height then Inl Db_error
     else Inr (map field (take nblocks (drop start_height (wd_blocks db)))))"

definition get_block_weights :: "weight_db \<Rightarrow> nat \<Rightarrow> nat \<Rightarrow> u64 list result" where
  "get_block_weights = get_block_info_64bit_fields bi_weight"

definition get_long_term_block_weights :: "weight_db \<Rightarrow> nat \<Rightarrow> nat \<Rightarrow> u64 list result" where
  "get_long_term_block_weights = get_block_info_64bit_fields bi_long_term"

definition get_max_block_size :: "weight_db \<Rightarrow> u64" where
  "get_max_block_size db = (case wd_max_block_size db of None \<Rightarrow> - 1 | Some sz \<Rightarrow> sz)"

definition add_max_block_size :: "u64 \<Rightarrow> weight_db \<Rightarrow> weight_db" where
  "add_max_block_size sz db =
    (let max_block_size = (case wd_max_block_size db of None \<Rightarrow> 0 | Some m \<Rightarrow> m)
     in db\<lparr>wd_max_block_size := Some (if max_block_size < sz then sz else max_block_size)\<rparr>)"

section \<open>The members of the chain\<close>

record weight_state =
  m_long_term_block_weights_window :: nat
  m_long_term_effective_median_block_weight :: u64
  m_long_term_block_weights_cache_tip_hash :: blob
  m_long_term_block_weights_cache_rolling_median :: rolling_median_t
  m_current_block_cumul_weight_limit :: u64
  m_current_block_cumul_weight_median :: u64

definition null_hash :: blob where
  "null_hash = replicate 32 0"

definition HF_VERSION_LONG_TERM_BLOCK_WEIGHT :: u8 where
  "HF_VERSION_LONG_TERM_BLOCK_WEIGHT = 10"

definition CRYPTONOTE_BLOCK_GRANTED_FULL_REWARD_ZONE_V5 :: u64 where
  "CRYPTONOTE_BLOCK_GRANTED_FULL_REWARD_ZONE_V5 = 300000"

definition CRYPTONOTE_REWARD_BLOCKS_WINDOW :: nat where
  "CRYPTONOTE_REWARD_BLOCKS_WINDOW = 100"

definition CRYPTONOTE_SHORT_TERM_BLOCK_WEIGHT_SURGE_FACTOR :: u64 where
  "CRYPTONOTE_SHORT_TERM_BLOCK_WEIGHT_SURGE_FACTOR = 50"

definition get_last_n_blocks_weights :: "weight_db \<Rightarrow> nat \<Rightarrow> u64 list result" where
  "get_last_n_blocks_weights db nblocks =
    (let h = wd_height db
     in if h = 0 then Inr [] else get_block_weights db (h - min h nblocks) nblocks)"

definition get_long_term_block_weight_median ::
  "weight_db \<Rightarrow> weight_state \<Rightarrow> nat \<Rightarrow> nat \<Rightarrow> (u64 \<times> weight_state) result" where
  "get_long_term_block_weight_median db st start_height nblocks =
    (if nblocks = 0 then Inl Assertion_failed
     else let blockchain_height = wd_height db;
              tip_height = start_height + nblocks - 1;
              rm = m_long_term_block_weights_cache_rolling_median st;
              same = (tip_height < blockchain_height \<and> nblocks = rm_size rm)
       in and_then (if same then get_block_hash_from_height db tip_height else Inr null_hash) (\<lambda>tip_hash.
          if same \<and> tip_hash = m_long_term_block_weights_cache_tip_hash st
          then and_then (rm_median rm) (\<lambda>m. Inr (m, st))
          else and_then (if 0 < tip_height \<and> same
              then and_then (get_block_hash_from_height db (tip_height - 1))
                (\<lambda>old_tip_hash. Inr (old_tip_hash = m_long_term_block_weights_cache_tip_hash st))
              else Inr False) (\<lambda>incremental.
            if incremental
            then and_then (get_block_long_term_weight db tip_height) (\<lambda>w.
              and_then (rm_insert rm w) (\<lambda>rm. and_then (rm_median rm) (\<lambda>m.
              Inr (m, st\<lparr>m_long_term_block_weights_cache_tip_hash := tip_hash,
                         m_long_term_block_weights_cache_rolling_median := rm\<rparr>))))
            else and_then (get_long_term_block_weights db start_height nblocks) (\<lambda>weights.
              and_then (rm_clear rm) (\<lambda>rm. and_then (insert_all rm weights) (\<lambda>rm.
              and_then (rm_median rm) (\<lambda>m.
              Inr (m, st\<lparr>m_long_term_block_weights_cache_tip_hash := tip_hash,
                         m_long_term_block_weights_cache_rolling_median := rm\<rparr>))))))))"

text \<open>The bound that the long-term median puts on the weight a block is stored with.\<close>

definition constrained_weight :: "u64 \<Rightarrow> u64 \<Rightarrow> u64" where
  "constrained_weight effective_median block_weight =
    (let short_term_constraint = effective_median + effective_median * 2 div 5
     in min block_weight short_term_constraint)"

definition get_next_long_term_block_weight ::
  "weight_db \<Rightarrow> weight_state \<Rightarrow> u8 \<Rightarrow> u64 \<Rightarrow> (u64 \<times> weight_state) result" where
  "get_next_long_term_block_weight db st hf_version block_weight =
    (let db_height = wd_height db;
         nblocks = min (m_long_term_block_weights_window st) db_height
     in if hf_version < HF_VERSION_LONG_TERM_BLOCK_WEIGHT then Inr (block_weight, st)
        else and_then (get_long_term_block_weight_median db st (db_height - nblocks) nblocks) (\<lambda>(long_term_median, st).
          Inr (constrained_weight (max CRYPTONOTE_BLOCK_GRANTED_FULL_REWARD_ZONE_V5 long_term_median) block_weight, st)))"

text \<open>
  The update after a change of the chain, in the order of the source: the long-term part
  with its two uses of the cache, the short-term median, the floor, and the record in the
  database.
\<close>

definition update_long_term :: "weight_db \<Rightarrow> weight_state \<Rightarrow> weight_state result" where
  "update_long_term db st =
    (let db_height = wd_height db in
     and_then (get_block_weight db (db_height - 1)) (\<lambda>block_weight.
     and_then (if db_height = 1 then Inr (CRYPTONOTE_BLOCK_GRANTED_FULL_REWARD_ZONE_V5, st)
       else let nblocks = min (m_long_term_block_weights_window st) db_height;
                nblocks = (if nblocks = db_height then nblocks - 1 else nblocks)
         in get_long_term_block_weight_median db st (db_height - nblocks - 1) nblocks) (\<lambda>(long_term_median, st).
     let effective = max CRYPTONOTE_BLOCK_GRANTED_FULL_REWARD_ZONE_V5 long_term_median;
         long_term_block_weight = constrained_weight effective block_weight
     in and_then (if db_height = 1 then Inr (long_term_block_weight, st)
          else and_then (get_block_hash_from_height db (db_height - 1)) (\<lambda>tip_hash.
            and_then (rm_insert (m_long_term_block_weights_cache_rolling_median st) long_term_block_weight) (\<lambda>rm.
            and_then (rm_median rm) (\<lambda>m.
            Inr (m, st\<lparr>m_long_term_block_weights_cache_tip_hash := tip_hash,
                       m_long_term_block_weights_cache_rolling_median := rm\<rparr>))))) (\<lambda>(long_term_median, st).
     Inr (st\<lparr>m_long_term_effective_median_block_weight :=
       max CRYPTONOTE_BLOCK_GRANTED_FULL_REWARD_ZONE_V5 long_term_median\<rparr>)))))"

definition update_next_cumulative_weight_limit ::
  "weight_db \<Rightarrow> weight_state \<Rightarrow> u8 \<Rightarrow> (weight_db \<times> weight_state) result" where
  "update_next_cumulative_weight_limit db st hf_version =
    (let full_reward_zone = get_min_block_weight hf_version in
     and_then (if hf_version < HF_VERSION_LONG_TERM_BLOCK_WEIGHT
       then and_then (get_last_n_blocks_weights db CRYPTONOTE_REWARD_BLOCKS_WINDOW) (\<lambda>weights. Inr (median weights, st))
       else and_then (update_long_term db st) (\<lambda>st.
         and_then (get_last_n_blocks_weights db CRYPTONOTE_REWARD_BLOCKS_WINDOW) (\<lambda>weights.
         Inr (min (max CRYPTONOTE_BLOCK_GRANTED_FULL_REWARD_ZONE_V5 (median weights))
           (CRYPTONOTE_SHORT_TERM_BLOCK_WEIGHT_SURGE_FACTOR * m_long_term_effective_median_block_weight st), st))))
     (\<lambda>(cumul_weight_median, st).
     let cumul_weight_median = (if cumul_weight_median \<le> full_reward_zone then full_reward_zone else cumul_weight_median);
         limit = cumul_weight_median * 2
     in Inr (if wd_read_only db then db else add_max_block_size limit db,
          st\<lparr>m_current_block_cumul_weight_median := cumul_weight_median,
             m_current_block_cumul_weight_limit := limit\<rparr>)))"

section \<open>The weights without a cache\<close>

text \<open>
  The same values as functions of the chain and the fork version alone: \<open>ltws\<close> are the
  stored long-term weights.
\<close>

definition effective_long_term_median :: "nat \<Rightarrow> u64 list \<Rightarrow> u64" where
  "effective_long_term_median window ltws =
    max CRYPTONOTE_BLOCK_GRANTED_FULL_REWARD_ZONE_V5 (median (last_n window ltws))"

definition next_long_term_weight :: "nat \<Rightarrow> u8 \<Rightarrow> u64 list \<Rightarrow> u64 \<Rightarrow> u64" where
  "next_long_term_weight window hf_version ltws block_weight =
    (if hf_version < HF_VERSION_LONG_TERM_BLOCK_WEIGHT then block_weight
     else constrained_weight (effective_long_term_median window ltws) block_weight)"

definition weight_median_of_chain :: "nat \<Rightarrow> u8 \<Rightarrow> block_info list \<Rightarrow> u64" where
  "weight_median_of_chain window hf_version blocks =
    (let short = median (last_n CRYPTONOTE_REWARD_BLOCKS_WINDOW (map bi_weight blocks));
         m = (if hf_version < HF_VERSION_LONG_TERM_BLOCK_WEIGHT then short
              else min (max CRYPTONOTE_BLOCK_GRANTED_FULL_REWARD_ZONE_V5 short)
                (CRYPTONOTE_SHORT_TERM_BLOCK_WEIGHT_SURGE_FACTOR *
                 effective_long_term_median window (map bi_long_term blocks)))
     in max (get_min_block_weight hf_version) m)"

section \<open>The cache is transparent\<close>

definition chain_ok :: "block_info list \<Rightarrow> bool" where
  "chain_ok blocks \<longleftrightarrow> distinct (map bi_hash blocks) \<and> null_hash \<notin> bi_hash ` set blocks"

text \<open>
  The rolling median is in order; when the tip it is recorded for is a block of the chain, it
  holds the window of long-term weights that ends there.
\<close>

definition cache_ok :: "block_info list \<Rightarrow> weight_state \<Rightarrow> bool" where
  "cache_ok blocks st \<longleftrightarrow> (\<exists>xs.
    holds (m_long_term_block_weights_cache_rolling_median st) xs \<and>
    rm_N (m_long_term_block_weights_cache_rolling_median st) = m_long_term_block_weights_window st \<and>
    (\<forall>t < length blocks. bi_hash (blocks ! t) = m_long_term_block_weights_cache_tip_hash st \<longrightarrow>
      last_n (m_long_term_block_weights_window st) xs =
      last_n (m_long_term_block_weights_window st) (map bi_long_term (take (Suc t) blocks))))"

lemma chain_ok_hash:
  "chain_ok blocks \<Longrightarrow> i < length blocks \<Longrightarrow> j < length blocks \<Longrightarrow> bi_hash (blocks ! i) = bi_hash (blocks ! j) \<longleftrightarrow> i = j"
  by (auto simp: chain_ok_def distinct_conv_nth)

lemma chain_ok_not_null: "chain_ok blocks \<Longrightarrow> i < length blocks \<Longrightarrow> bi_hash (blocks ! i) \<noteq> null_hash"
  by (auto simp: chain_ok_def image_iff) (metis nth_mem)

lemma cache_ok_window: "cache_ok blocks st \<Longrightarrow> 0 < m_long_term_block_weights_window st"
  by (auto simp: cache_ok_def holds_def rm_ok_def)

lemma last_n_window:
  assumes "length xs = s + k" "k = min n (s + k)"
  shows "last_n n xs = drop s xs"
  using assms by (auto simp: last_n_def min_def split: if_splits)

definition window_cached :: "u64 list \<Rightarrow> weight_state \<Rightarrow> bool" where
  "window_cached ws st \<longleftrightarrow> (\<exists>xs.
    holds (m_long_term_block_weights_cache_rolling_median st) xs \<and>
    rm_N (m_long_term_block_weights_cache_rolling_median st) = m_long_term_block_weights_window st \<and>
    last_n (m_long_term_block_weights_window st) xs = last_n (m_long_term_block_weights_window st) ws)"

definition same_but_cache :: "weight_state \<Rightarrow> weight_state \<Rightarrow> bool" where
  "same_but_cache st st' \<longleftrightarrow> (\<exists>h rm. st' = st\<lparr>m_long_term_block_weights_cache_tip_hash := h,
    m_long_term_block_weights_cache_rolling_median := rm\<rparr>)"

lemma same_but_cache_window:
  "same_but_cache st st' \<Longrightarrow> m_long_term_block_weights_window st' = m_long_term_block_weights_window st"
  by (auto simp: same_but_cache_def)

lemma cache_okI:
  assumes "chain_ok blocks" "window_cached (map bi_long_term (take (Suc t) blocks)) st" "t < length blocks"
    "m_long_term_block_weights_cache_tip_hash st \<in> {null_hash, bi_hash (blocks ! t)}"
  shows "cache_ok blocks st"
proof -
  have "i = t" if "i < length blocks" "bi_hash (blocks ! i) = m_long_term_block_weights_cache_tip_hash st" for i
    using that assms(3,4) chain_ok_not_null [OF assms(1) that(1)] chain_ok_hash [OF assms(1) that(1) assms(3)] by auto
  then show ?thesis
    using assms(2) unfolding window_cached_def cache_ok_def by blast
qed

lemma window_cached_insert:
  assumes "window_cached ws st"
  obtains rm where "rm_insert (m_long_term_block_weights_cache_rolling_median st) w = Inr rm"
    "rm_median rm = Inr (median (last_n (m_long_term_block_weights_window st) (ws @ [w])))"
    "window_cached (ws @ [w]) (st\<lparr>m_long_term_block_weights_cache_tip_hash := h,
       m_long_term_block_weights_cache_rolling_median := rm\<rparr>)"
proof -
  define N where "N = m_long_term_block_weights_window st"
  obtain xs where xs: "holds (m_long_term_block_weights_cache_rolling_median st) xs"
    "rm_N (m_long_term_block_weights_cache_rolling_median st) = N" "last_n N xs = last_n N ws"
    using assms by (auto simp: window_cached_def N_def)
  obtain rm where rm: "rm_insert (m_long_term_block_weights_cache_rolling_median st) w = Inr rm"
    "holds rm (xs @ [w])" "rm_N rm = N"
    using rm_insert_holds [OF xs(1), of w] xs(2) by auto
  have "0 < N"
    using xs by (auto simp: holds_def rm_ok_def)
  then have "last_n N (xs @ [w]) = last_n N (ws @ [w])"
    using last_n_snoc [of N xs w] last_n_snoc [of N ws w] xs(3) by simp
  then show ?thesis
    using that [of rm] rm holds_median [OF rm(2)] by (auto simp: window_cached_def N_def)
qed

lemma window_cached_load:
  assumes "0 < length ws" "length ws \<le> rm_N rm" "0 < rm_N rm"
    "rm_N rm = m_long_term_block_weights_window st"
  obtains rm1 rm2 where "rm_clear rm = Inr rm1" "insert_all rm1 ws = Inr rm2"
    "rm_median rm2 = Inr (median (last_n (m_long_term_block_weights_window st) ws))"
    "window_cached ws (st\<lparr>m_long_term_block_weights_cache_tip_hash := h,
       m_long_term_block_weights_cache_rolling_median := rm2\<rparr>)"
proof -
  obtain rm1 where rm1: "rm_clear rm = Inr rm1" "rm_N rm1 = rm_N rm" "holds rm1 []"
    using rm_clear_holds [OF assms(3)] .
  obtain rm2 where "insert_all rm1 ws = Inr rm2" "holds rm2 ws" "rm_N rm2 = rm_N rm1"
    using insert_all_holds [OF rm1(3), of ws] by auto
  then show ?thesis
    using that [of rm1 rm2] rm1 assms holds_median [of rm2 ws] by (auto simp: window_cached_def)
qed

lemma get_long_term_median_correct:
  assumes chain: "chain_ok (wd_blocks db)" and cache: "cache_ok (wd_blocks db) st"
    and n: "0 < n" "start + n \<le> wd_height db" "n = min (m_long_term_block_weights_window st) (start + n)"
    and ws: "ws = map bi_long_term (take (start + n) (wd_blocks db))"
  obtains st' where "get_long_term_block_weight_median db st start n =
      Inr (median (last_n (m_long_term_block_weights_window st) ws), st')"
    "window_cached ws st'" "same_but_cache st st'" "cache_ok (wd_blocks db) st'"
    "m_long_term_block_weights_cache_tip_hash st' \<in> {null_hash, bi_hash (wd_blocks db ! (start + n - 1))}"
proof -
  define N where "N = m_long_term_block_weights_window st"
  define rm where "rm = m_long_term_block_weights_cache_rolling_median st"
  define tip where "tip = start + n - 1"
  define blocks where "blocks = wd_blocks db"
  have tip: "tip < length blocks" "Suc tip = start + n"
    using n by (simp_all add: tip_def blocks_def wd_height_def)
  obtain xs where xs: "holds rm xs" "rm_N rm = N"
    "\<And>t. t < length blocks \<Longrightarrow> bi_hash (blocks ! t) = m_long_term_block_weights_cache_tip_hash st \<Longrightarrow>
      last_n N xs = last_n N (map bi_long_term (take (Suc t) blocks))"
    using cache unfolding cache_ok_def rm_def N_def blocks_def by blast
  have N: "0 < N"
    using xs by (auto simp: holds_def rm_ok_def)
  define same where "same \<longleftrightarrow> n = rm_size rm"
  define h where "h = (if same then bi_hash (blocks ! tip) else null_hash)"
  have hash: "get_block_hash_from_height db t = Inr (bi_hash (blocks ! t))" if "t \<le> tip" for t
    using that tip by (simp add: get_block_hash_from_height_def get_block_info_def wd_height_def blocks_def)
  have ws': "ws = map bi_long_term (take (Suc tip) blocks)"
    using ws tip by (simp add: blocks_def)
  define put where "put rm' = st\<lparr>m_long_term_block_weights_cache_tip_hash := h,
    m_long_term_block_weights_cache_rolling_median := rm'\<rparr>" for rm'
  have load: "get_long_term_block_weights db start n = Inr (map bi_long_term (take n (drop start blocks)))"
    "get_block_long_term_weight db tip = Inr (bi_long_term (blocks ! tip))" "tip < wd_height db"
    using n tip by (simp_all add: get_long_term_block_weights_def get_block_info_64bit_fields_def
        get_block_long_term_weight_def get_block_info_def wd_height_def blocks_def)
  have body: "get_long_term_block_weight_median db st start n =
    (if same \<and> h = m_long_term_block_weights_cache_tip_hash st then and_then (rm_median rm) (\<lambda>m. Inr (m, st))
     else if 0 < tip \<and> same \<and> bi_hash (blocks ! (tip - 1)) = m_long_term_block_weights_cache_tip_hash st
     then and_then (rm_insert rm (bi_long_term (blocks ! tip))) (\<lambda>rm. and_then (rm_median rm) (\<lambda>m. Inr (m, put rm)))
     else and_then (rm_clear rm) (\<lambda>rm. and_then (insert_all rm (map bi_long_term (take n (drop start blocks))))
       (\<lambda>rm. and_then (rm_median rm) (\<lambda>m. Inr (m, put rm)))))"
  proof -
    have same: "(tip < wd_height db \<and> n = rm_size rm) = same"
      using load(3) by (simp add: same_def)
    show ?thesis
      unfolding get_long_term_block_weight_median_def Let_def tip_def [symmetric] rm_def [symmetric] put_def same
      using n(1) load(1,2) hash [of tip] hash [of "tip - 1"] by (cases same) (simp_all add: h_def)
  qed
  have put: "same_but_cache st (put rm')" "m_long_term_block_weights_window (put rm') = N"
    "m_long_term_block_weights_cache_tip_hash (put rm') = h" for rm'
    by (auto simp: same_but_cache_def put_def N_def)
  have h: "h \<in> {null_hash, bi_hash (blocks ! tip)}"
    by (simp add: h_def)
  note result = that
  have finish: thesis
    if eq: "get_long_term_block_weight_median db st start n = Inr (median (last_n N ws), put rm')"
      and cached: "window_cached ws (put rm')" for rm'
  proof (rule result)
    show "cache_ok (wd_blocks db) (put rm')"
      using cache_okI [OF chain, of tip "put rm'"] cached ws' tip(1) h put(3) by (simp add: blocks_def)
    show "m_long_term_block_weights_cache_tip_hash (put rm') \<in> {null_hash, bi_hash (wd_blocks db ! (start + n - 1))}"
      using h put(3) by (simp add: blocks_def tip_def)
  qed (use eq cached put in \<open>simp_all add: N_def\<close>)
  consider (cached) "same" "h = m_long_term_block_weights_cache_tip_hash st"
    | (incremental) "\<not> (same \<and> h = m_long_term_block_weights_cache_tip_hash st)" "0 < tip" "same"
      "bi_hash (blocks ! (tip - 1)) = m_long_term_block_weights_cache_tip_hash st"
    | (fresh) "\<not> (same \<and> h = m_long_term_block_weights_cache_tip_hash st)"
      "\<not> (0 < tip \<and> same \<and> bi_hash (blocks ! (tip - 1)) = m_long_term_block_weights_cache_tip_hash st)"
    by blast
  then show ?thesis
  proof cases
    case cached
    then have eq: "last_n N xs = last_n N ws"
      using xs(3) [OF tip(1)] ws' by (simp add: h_def)
    moreover have "xs \<noteq> []"
      using cached(1) n(1) xs(1) by (auto simp: same_def rm_size_def holds_def)
    ultimately have "get_long_term_block_weight_median db st start n = Inr (median (last_n N ws), st)"
      using body cached holds_median [OF xs(1)] xs(2) by simp
    moreover have "window_cached ws st"
      using xs(1,2) eq unfolding window_cached_def rm_def N_def by blast
    moreover have "same_but_cache st st"
      unfolding same_but_cache_def
      by (intro exI [of _ "m_long_term_block_weights_cache_tip_hash st"] exI [of _ rm]) (simp add: rm_def)
    moreover have "m_long_term_block_weights_cache_tip_hash st \<in> {null_hash, bi_hash (wd_blocks db ! (start + n - 1))}"
      using cached h by (simp add: blocks_def tip_def)
    ultimately show ?thesis
      using that cache by (simp add: N_def)
  next
    case incremental
    define vs where "vs = map bi_long_term (take tip blocks)"
    have "last_n N xs = last_n N vs"
      using xs(3) [of "tip - 1"] incremental tip(1) by (simp add: vs_def)
    then have "window_cached vs st"
      using xs(1,2) unfolding window_cached_def rm_def N_def by blast
    moreover have "vs @ [bi_long_term (blocks ! tip)] = ws"
      using tip(1) by (simp add: ws' vs_def take_Suc_conv_app_nth)
    ultimately obtain rm' where "rm_insert rm (bi_long_term (blocks ! tip)) = Inr rm'"
      "rm_median rm' = Inr (median (last_n N ws))" "window_cached ws (put rm')"
      using window_cached_insert [of vs st "bi_long_term (blocks ! tip)" h] unfolding put_def rm_def N_def by metis
    then show ?thesis
      using finish body incremental by simp
  next
    case fresh
    define vs where "vs = map bi_long_term (take n (drop start blocks))"
    have vs: "length vs = n" "n \<le> N" "last_n N ws = vs"
      using n last_n_window [of ws start n N]
      by (auto simp: vs_def ws N_def blocks_def wd_height_def drop_take drop_map)
    then have "last_n N vs = vs"
      by (simp add: last_n_def)
    then have "window_cached vs (put rm') \<longleftrightarrow> window_cached ws (put rm')" for rm'
      using vs(3) put(2) by (simp add: window_cached_def)
    moreover obtain rm1 rm2 where "rm_clear rm = Inr rm1" "insert_all rm1 vs = Inr rm2"
      "rm_median rm2 = Inr (median (last_n N vs))" "window_cached vs (put rm2)"
      using window_cached_load [of vs rm st h] vs n(1) N xs(2) unfolding put_def N_def by auto
    moreover have "get_long_term_block_weight_median db st start n = and_then (rm_clear rm) (\<lambda>rm.
        and_then (insert_all rm vs) (\<lambda>rm. and_then (rm_median rm) (\<lambda>m. Inr (m, put rm))))"
      unfolding body if_not_P [OF fresh(1)] if_not_P [OF fresh(2)] vs_def ..
    ultimately show ?thesis
      using finish [of rm2] \<open>last_n N vs = vs\<close> vs(3) by simp
  qed
qed

lemma get_next_long_term_correct:
  assumes chain: "chain_ok (wd_blocks db)" and cache: "cache_ok (wd_blocks db) st" and ne: "wd_blocks db \<noteq> []"
    and v: "HF_VERSION_LONG_TERM_BLOCK_WEIGHT \<le> v" and N: "N = m_long_term_block_weights_window st"
  obtains st' where "get_next_long_term_block_weight db st v w =
      Inr (next_long_term_weight N v (map bi_long_term (wd_blocks db)) w, st')"
    "same_but_cache st st'" "cache_ok (wd_blocks db) st'"
    "m_long_term_block_weights_cache_tip_hash st' \<in> {null_hash, bi_hash (last (wd_blocks db))}"
proof -
  define n where "n = min N (wd_height db)"
  have n: "0 < n" "wd_height db - n + n = wd_height db" "n = min N (wd_height db - n + n)"
    using cache_ok_window [OF cache] ne by (auto simp: n_def N wd_height_def)
  obtain st' where st': "get_long_term_block_weight_median db st (wd_height db - n) n =
      Inr (median (last_n N (map bi_long_term (wd_blocks db))), st')"
    "same_but_cache st st'" "cache_ok (wd_blocks db) st'"
    "m_long_term_block_weights_cache_tip_hash st' \<in> {null_hash, bi_hash (last (wd_blocks db))}"
    using get_long_term_median_correct [OF chain cache n(1), of "wd_height db - n"] n N ne
    by (auto simp: wd_height_def last_conv_nth)
  moreover have "get_next_long_term_block_weight db st v w =
      Inr (next_long_term_weight N v (map bi_long_term (wd_blocks db)) w, st')"
    unfolding get_next_long_term_block_weight_def Let_def N [symmetric] n_def [symmetric]
    using leD [OF v] st'(1) by (simp add: next_long_term_weight_def effective_long_term_median_def)
  ultimately show ?thesis
    using that by blast
qed

text \<open>Above the first block, the cache is the one of the top block and has the median of the window.\<close>

definition top_cached :: "nat \<Rightarrow> block_info list \<Rightarrow> weight_state \<Rightarrow> bool" where
  "top_cached N blocks st \<longleftrightarrow> (1 < length blocks \<longrightarrow>
    m_long_term_block_weights_cache_tip_hash st = bi_hash (last blocks) \<and>
    rm_median (m_long_term_block_weights_cache_rolling_median st) = Inr (median (last_n N (map bi_long_term blocks))))"

text \<open>The last block is stored with the weight that the rule for its predecessors gives.\<close>

definition weighed_top :: "nat \<Rightarrow> block_info list \<Rightarrow> bool" where
  "weighed_top N blocks \<longleftrightarrow> bi_long_term (last blocks) =
    constrained_weight (effective_long_term_median N (map bi_long_term (butlast blocks))) (bi_weight (last blocks))"

text \<open>
  The update above a window \<open>ws\<close> of long-term weights that the cache delivers for the
  predecessors of the top block, whether or not they are the stored ones.
\<close>

lemma update_long_term_above:
  assumes blocks: "wd_blocks db = bs @ [b]" "bs \<noteq> []" and N: "N = m_long_term_block_weights_window st" "0 < N"
    and n: "n = min N (length bs)"
    and lookup: "get_long_term_block_weight_median db st (length bs - n) n = Inr (median (last_n N ws), st1)"
      "window_cached ws st1" "same_but_cache st st1"
    and c: "c = constrained_weight (effective_long_term_median N ws) (bi_weight b)"
  obtains st' where "update_long_term db st = Inr st'" "window_cached (ws @ [c]) st'"
    "m_long_term_block_weights_cache_tip_hash st' = bi_hash b" "m_long_term_block_weights_window st' = N"
    "m_long_term_effective_median_block_weight st' = effective_long_term_median N (ws @ [c])"
    "rm_median (m_long_term_block_weights_cache_rolling_median st') = Inr (median (last_n N (ws @ [c])))"
proof -
  have h: "wd_height db = Suc (length bs)"
    by (simp add: blocks wd_height_def)
  have info: "get_block_weight db (length bs) = Inr (bi_weight b)"
    "get_block_hash_from_height db (length bs) = Inr (bi_hash b)"
    by (simp_all add: get_block_weight_def get_block_hash_from_height_def get_block_info_def h blocks)
  have m: "(if min N (wd_height db) = wd_height db then min N (wd_height db) - 1 else min N (wd_height db)) = n"
      "wd_height db - n - 1 = length bs - n"
    using N(2) h by (auto simp: n)
  have N1: "m_long_term_block_weights_window st1 = N"
    using same_but_cache_window [OF lookup(3)] N by simp
  obtain rm where rm: "rm_insert (m_long_term_block_weights_cache_rolling_median st1) c = Inr rm"
    "rm_median rm = Inr (median (last_n N (ws @ [c])))"
    "window_cached (ws @ [c]) (st1\<lparr>m_long_term_block_weights_cache_tip_hash := bi_hash b,
       m_long_term_block_weights_cache_rolling_median := rm\<rparr>)"
    using window_cached_insert [OF lookup(2), of c "bi_hash b"] N1 by auto
  define st' where "st' = st1\<lparr>m_long_term_block_weights_cache_tip_hash := bi_hash b,
    m_long_term_block_weights_cache_rolling_median := rm,
    m_long_term_effective_median_block_weight := effective_long_term_median N (ws @ [c])\<rparr>"
  have "update_long_term db st = Inr st'"
    unfolding update_long_term_def Let_def N(1) [symmetric] m
    using h blocks(2) info lookup(1) rm(1,2) c by (simp add: effective_long_term_median_def st'_def)
  moreover have "window_cached (ws @ [c]) st'"
    using rm(3) by (simp add: st'_def window_cached_def)
  ultimately show ?thesis
    using that N1 rm(2) by (simp add: st'_def)
qed

lemma update_long_term_correct:
  assumes chain: "chain_ok (wd_blocks db)" and cache: "cache_ok (wd_blocks db) st" and ne: "wd_blocks db \<noteq> []"
    and N: "N = m_long_term_block_weights_window st" and top: "weighed_top N (wd_blocks db)"
  obtains st' where "update_long_term db st = Inr st'" "cache_ok (wd_blocks db) st'"
    "m_long_term_block_weights_window st' = N"
    "m_long_term_effective_median_block_weight st' = effective_long_term_median N (map bi_long_term (wd_blocks db))"
    "top_cached N (wd_blocks db) st'"
proof -
  define bs b where "bs = butlast (wd_blocks db)" and "b = last (wd_blocks db)"
  have blocks: "wd_blocks db = bs @ [b]" and h: "wd_height db = Suc (length bs)"
    using ne by (simp_all add: bs_def b_def wd_height_def)
  have info: "get_block_weight db (length bs) = Inr (bi_weight b)"
    "get_block_hash_from_height db (length bs) = Inr (bi_hash b)"
    by (simp_all add: get_block_weight_def get_block_hash_from_height_def get_block_info_def h blocks)
  have lt: "bi_long_term b = constrained_weight (effective_long_term_median N (map bi_long_term bs)) (bi_weight b)"
    using top by (simp add: weighed_top_def blocks)
  show ?thesis
  proof (cases "bs = []")
    case True
    define st' where "st' = st\<lparr>m_long_term_effective_median_block_weight :=
      max CRYPTONOTE_BLOCK_GRANTED_FULL_REWARD_ZONE_V5 (bi_long_term b)\<rparr>"
    have eff: "effective_long_term_median N [] = CRYPTONOTE_BLOCK_GRANTED_FULL_REWARD_ZONE_V5"
      "effective_long_term_median N [w] = max CRYPTONOTE_BLOCK_GRANTED_FULL_REWARD_ZONE_V5 w" for w
      using cache_ok_window [OF cache] N
      by (simp_all add: effective_long_term_median_def last_n_def median_def CRYPTONOTE_BLOCK_GRANTED_FULL_REWARD_ZONE_V5_def)
    have "update_long_term db st = Inr st'"
      "m_long_term_effective_median_block_weight st' = effective_long_term_median N (map bi_long_term (wd_blocks db))"
      using True info lt by (simp_all add: update_long_term_def h blocks st'_def eff)
    moreover have "cache_ok (wd_blocks db) st'"
      using cache by (simp add: cache_ok_def st'_def)
    ultimately show ?thesis
      using that N True by (simp add: st'_def top_cached_def blocks)
  next
    case False
    define n where "n = min N (length bs)"
    have n: "0 < n" "length bs - n + n = length bs" "n = min N (length bs - n + n)"
      using cache_ok_window [OF cache] False N by (auto simp: n_def)
    obtain st1 where st1: "get_long_term_block_weight_median db st (length bs - n) n =
        Inr (median (last_n N (map bi_long_term bs)), st1)"
      "window_cached (map bi_long_term bs) st1" "same_but_cache st st1"
      using get_long_term_median_correct [OF chain cache n(1), of "length bs - n" "map bi_long_term bs"] n(2,3) N h
      by (auto simp: blocks)
    obtain st' where st': "update_long_term db st = Inr st'" "window_cached (map bi_long_term bs @ [bi_long_term b]) st'"
      "m_long_term_block_weights_cache_tip_hash st' = bi_hash b" "m_long_term_block_weights_window st' = N"
      "m_long_term_effective_median_block_weight st' = effective_long_term_median N (map bi_long_term bs @ [bi_long_term b])"
      "rm_median (m_long_term_block_weights_cache_rolling_median st') =
        Inr (median (last_n N (map bi_long_term bs @ [bi_long_term b])))"
      using update_long_term_above [OF blocks False N cache_ok_window [OF cache, folded N] n_def st1 lt] .
    have "cache_ok (wd_blocks db) st'"
      using cache_okI [OF chain, of "length bs" st'] st'(2,3) by (simp add: blocks)
    then show ?thesis
      using that st' by (simp add: blocks top_cached_def)
  qed
qed

lemma last_n_blocks_weights:
  "0 < n \<Longrightarrow> get_last_n_blocks_weights db n = Inr (last_n n (map bi_weight (wd_blocks db)))"
proof (cases "wd_blocks db = []")
  case True
  then show ?thesis
    by (auto simp: get_last_n_blocks_weights_def last_n_def wd_height_def get_block_weights_def
        get_block_info_64bit_fields_def Let_def)
next
  case False
  assume "0 < n"
  then have "wd_height db - min (wd_height db) n = wd_height db - n" "wd_height db - n < wd_height db"
    using False by (auto simp: wd_height_def)
  then show ?thesis
    using False by (simp add: get_last_n_blocks_weights_def last_n_def get_block_weights_def Let_def
        get_block_info_64bit_fields_def drop_map) (simp add: wd_height_def)
qed

lemma update_correct:
  assumes chain: "chain_ok (wd_blocks db)" and cache: "cache_ok (wd_blocks db) st" and ne: "wd_blocks db \<noteq> []"
    and N: "N = m_long_term_block_weights_window st" and top: "weighed_top N (wd_blocks db)"
    and v: "HF_VERSION_LONG_TERM_BLOCK_WEIGHT \<le> v"
  obtains db' st' where "update_next_cumulative_weight_limit db st v = Inr (db', st')"
    "wd_blocks db' = wd_blocks db" "cache_ok (wd_blocks db) st'" "m_long_term_block_weights_window st' = N"
    "m_long_term_effective_median_block_weight st' = effective_long_term_median N (map bi_long_term (wd_blocks db))"
    "m_current_block_cumul_weight_median st' = weight_median_of_chain N v (wd_blocks db)"
    "m_current_block_cumul_weight_limit st' = 2 * weight_median_of_chain N v (wd_blocks db)"
    "top_cached N (wd_blocks db) st'"
proof -
  obtain st1 where st1: "update_long_term db st = Inr st1" "cache_ok (wd_blocks db) st1"
    "m_long_term_block_weights_window st1 = N"
    "m_long_term_effective_median_block_weight st1 = effective_long_term_median N (map bi_long_term (wd_blocks db))"
    "top_cached N (wd_blocks db) st1"
    using update_long_term_correct [OF chain cache ne N top] .
  define m where "m = weight_median_of_chain N v (wd_blocks db)"
  define db' where "db' = (if wd_read_only db then db else add_max_block_size (m * 2) db)"
  define st' where "st' = st1\<lparr>m_current_block_cumul_weight_median := m, m_current_block_cumul_weight_limit := m * 2\<rparr>"
  have floor: "(if x \<le> y then y else x) = max y x" for x y :: u64
    by (metis linear max.absorb1 max.absorb2)
  have "update_next_cumulative_weight_limit db st v = Inr (db', st')"
    using v st1(1,4) by (simp add: update_next_cumulative_weight_limit_def last_n_blocks_weights not_less
        CRYPTONOTE_REWARD_BLOCKS_WINDOW_def Let_def floor st'_def db'_def m_def weight_median_of_chain_def)
  moreover have "wd_blocks db' = wd_blocks db"
    by (simp add: db'_def add_max_block_size_def Let_def)
  moreover have "cache_ok (wd_blocks db) st'"
    using st1(2) by (simp add: cache_ok_def st'_def)
  ultimately show ?thesis
    using that [of db' st'] st1(3-5) by (simp add: st'_def m_def mult.commute top_cached_def)
qed

section \<open>Histories\<close>

text \<open>
  The constructor: an empty rolling median of the size of the window (in memory \<open>fresh\<close>) and
  no tip.
\<close>

definition new_weight_state :: "rolling_median_t \<Rightarrow> nat \<Rightarrow> weight_state result" where
  "new_weight_state fresh window =
    and_then (rolling_median_new fresh window) (\<lambda>rm.
    Inr \<lparr>m_long_term_block_weights_window = window, m_long_term_effective_median_block_weight = 0,
      m_long_term_block_weights_cache_tip_hash = null_hash, m_long_term_block_weights_cache_rolling_median = rm,
      m_current_block_cumul_weight_limit = 0, m_current_block_cumul_weight_median = 0\<rparr>)"

text \<open>
  The ways in which the weights change once the long-term rule is in force
  (\<open>v \<ge> HF_VERSION_LONG_TERM_BLOCK_WEIGHT\<close>), each followed by the update of the limit: the node starts or
  restarts on a stored chain whose blocks from height \<open>F\<close> on were stored under the rule, a
  block with a new hash is weighed and added to the main chain, or the top block is popped, down to
  the block at height \<open>F\<close>. The version may change from step to step.
\<close>

definition weighed :: "nat \<Rightarrow> nat \<Rightarrow> block_info list \<Rightarrow> bool" where
  "weighed N F blocks \<longleftrightarrow> F < length blocks \<and> (\<forall>i < length blocks. F \<le> i \<longrightarrow> weighed_top N (take (Suc i) blocks))"

inductive weights_reach :: "nat \<Rightarrow> nat \<Rightarrow> weight_db \<Rightarrow> u8 \<Rightarrow> weight_state \<Rightarrow> bool" for N F where
  start: "weights_reach N F db' v st'"
    if "chain_ok (wd_blocks db)" and "weighed N F (wd_blocks db)"
      and "HF_VERSION_LONG_TERM_BLOCK_WEIGHT \<le> v" and "new_weight_state fresh N = Inr st"
      and "update_next_cumulative_weight_limit db st v = Inr (db', st')"
| add: "weights_reach N F db' v' st'"
    if "weights_reach N F db v st" and "bi_hash b \<notin> insert null_hash (bi_hash ` set (wd_blocks db))"
      and "get_next_long_term_block_weight db st v (bi_weight b) = Inr (bi_long_term b, st1)"
      and "HF_VERSION_LONG_TERM_BLOCK_WEIGHT \<le> v'"
      and "update_next_cumulative_weight_limit (db\<lparr>wd_blocks := wd_blocks db @ [b]\<rparr>) st1 v' = Inr (db', st')"
| pop: "weights_reach N F db' v' st'"
    if "weights_reach N F db v st" and "Suc F < wd_height db"
      and "HF_VERSION_LONG_TERM_BLOCK_WEIGHT \<le> v'"
      and "update_next_cumulative_weight_limit (db\<lparr>wd_blocks := butlast (wd_blocks db)\<rparr>) st v' = Inr (db', st')"

lemma weighed_last:
  assumes "weighed N F blocks"
  shows "weighed_top N blocks"
proof -
  have len: "length blocks - 1 < length blocks" "F \<le> length blocks - 1" "Suc (length blocks - 1) = length blocks"
    using assms by (auto simp: weighed_def)
  then have "weighed_top N (take (Suc (length blocks - 1)) blocks)"
    using assms unfolding weighed_def by blast
  then show ?thesis
    by (simp add: len(3))
qed

lemma weighed_snoc: "weighed N F blocks \<Longrightarrow> weighed_top N (blocks @ [b]) \<Longrightarrow> weighed N F (blocks @ [b])"
  by (auto simp: weighed_def less_Suc_eq)

lemma weighed_butlast:
  assumes "weighed N F blocks" "Suc F < length blocks"
  shows "weighed N F (butlast blocks)"
proof -
  have "take (Suc i) (butlast blocks) = take (Suc i) blocks" if "i < length blocks - 1" for i
    using that by (simp add: butlast_conv_take min_def)
  then show ?thesis
    using assms by (auto simp: weighed_def)
qed

lemma new_weight_state_ok:
  assumes "new_weight_state fresh N = Inr st" "0 < N" "chain_ok blocks"
  shows "cache_ok blocks st \<and> m_long_term_block_weights_window st = N"
proof -
  obtain rm where rm: "rm_clear (fresh\<lparr>rm_N := N\<rparr>) = Inr rm" "rm_N rm = N" "holds rm []"
    using rm_clear_holds [of "fresh\<lparr>rm_N := N\<rparr>"] assms(2) by auto
  then show ?thesis
    using assms(1) chain_ok_not_null [OF assms(3)]
    by (auto simp: new_weight_state_def rolling_median_new_def cache_ok_def Let_def split: if_splits)
qed

lemma new_weight_state_returns:
  assumes "0 < N" "N < 2 ^ 27"
  shows "\<exists>st. new_weight_state fresh N = Inr st"
proof -
  have "0 < rm_N (fresh\<lparr>rm_N := N\<rparr>)"
    using assms by simp
  then obtain rm where "rm_clear (fresh\<lparr>rm_N := N\<rparr>) = Inr rm"
    by (rule rm_clear_holds)
  then show ?thesis
    using assms(2) by (simp add: new_weight_state_def rolling_median_new_def)
qed

lemma cache_ok_prefix:
  assumes "cache_ok (blocks @ bs) st"
  shows "cache_ok blocks st"
proof -
  have "take (Suc t) (blocks @ bs) = take (Suc t) blocks" "(blocks @ bs) ! t = blocks ! t" if "t < length blocks" for t
    using that by (simp_all add: nth_append)
  moreover have "t < length (blocks @ bs)" if "t < length blocks" for t
    using that by simp
  ultimately show ?thesis
    using assms unfolding cache_ok_def by metis
qed

lemma cache_ok_snoc:
  assumes "cache_ok blocks st" "bi_hash b \<noteq> m_long_term_block_weights_cache_tip_hash st"
  shows "cache_ok (blocks @ [b]) st"
proof -
  have "t < length blocks" "take (Suc t) (blocks @ [b]) = take (Suc t) blocks"
    if "t < length (blocks @ [b])" "bi_hash ((blocks @ [b]) ! t) = m_long_term_block_weights_cache_tip_hash st" for t
    using that assms(2) by (auto simp: nth_append less_Suc_eq split: if_splits)
  then show ?thesis
    using assms(1) unfolding cache_ok_def by (metis nth_append)
qed

definition weights_inv :: "nat \<Rightarrow> nat \<Rightarrow> weight_db \<Rightarrow> u8 \<Rightarrow> weight_state \<Rightarrow> bool" where
  "weights_inv N F db v st \<longleftrightarrow> chain_ok (wd_blocks db) \<and> weighed N F (wd_blocks db) \<and> cache_ok (wd_blocks db) st \<and>
    m_long_term_block_weights_window st = N \<and> HF_VERSION_LONG_TERM_BLOCK_WEIGHT \<le> v \<and>
    m_long_term_effective_median_block_weight st = effective_long_term_median N (map bi_long_term (wd_blocks db)) \<and>
    m_current_block_cumul_weight_median st = weight_median_of_chain N v (wd_blocks db) \<and>
    m_current_block_cumul_weight_limit st = 2 * weight_median_of_chain N v (wd_blocks db) \<and>
    top_cached N (wd_blocks db) st"

lemma weights_inv_nonempty: "weights_inv N F db v st \<Longrightarrow> wd_blocks db \<noteq> []"
  by (auto simp: weights_inv_def weighed_def)

lemma update_inv:
  assumes "chain_ok (wd_blocks db)" "cache_ok (wd_blocks db) st"
    "N = m_long_term_block_weights_window st" "weighed N F (wd_blocks db)"
    "HF_VERSION_LONG_TERM_BLOCK_WEIGHT \<le> v" "update_next_cumulative_weight_limit db st v = Inr (db', st')"
  shows "weights_inv N F db' v st'"
proof -
  have ne: "wd_blocks db \<noteq> []"
    using assms(4) by (auto simp: weighed_def)
  obtain db1 st1 where up: "update_next_cumulative_weight_limit db st v = Inr (db1, st1)"
    "wd_blocks db1 = wd_blocks db" "cache_ok (wd_blocks db) st1" "m_long_term_block_weights_window st1 = N"
    "m_long_term_effective_median_block_weight st1 = effective_long_term_median N (map bi_long_term (wd_blocks db))"
    "m_current_block_cumul_weight_median st1 = weight_median_of_chain N v (wd_blocks db)"
    "m_current_block_cumul_weight_limit st1 = 2 * weight_median_of_chain N v (wd_blocks db)"
    "top_cached N (wd_blocks db) st1"
    using update_correct [OF assms(1,2) ne assms(3) weighed_last [OF assms(4)] assms(5)] .
  then have "db1 = db'" "st1 = st'"
    using assms(6) by simp_all
  then show ?thesis
    using up(2-) assms(1,4,5) by (simp add: weights_inv_def)
qed

lemma weights_reach_inv:
  assumes "weights_reach N F db v st" "0 < N"
  shows "weights_inv N F db v st"
  using assms(1)
proof (induction rule: weights_reach.induct)
  case (start db v fresh st db' st')
  then show ?case
    using new_weight_state_ok [OF start(4) assms(2) start(1)] by (intro update_inv [of db st]) auto
next
  case (add db v st b st1 v' db' st')
  have inv: "chain_ok (wd_blocks db)" "cache_ok (wd_blocks db) st" "wd_blocks db \<noteq> []"
    "HF_VERSION_LONG_TERM_BLOCK_WEIGHT \<le> v" "N = m_long_term_block_weights_window st" "weighed N F (wd_blocks db)"
    using add.IH weights_inv_nonempty [OF add.IH] by (simp_all add: weights_inv_def)
  obtain st2 where st2: "get_next_long_term_block_weight db st v (bi_weight b) =
      Inr (next_long_term_weight N v (map bi_long_term (wd_blocks db)) (bi_weight b), st2)"
    "same_but_cache st st2" "cache_ok (wd_blocks db) st2"
    "m_long_term_block_weights_cache_tip_hash st2 \<in> {null_hash, bi_hash (last (wd_blocks db))}"
    using get_next_long_term_correct [OF inv(1-5)] .
  have b: "bi_long_term b = next_long_term_weight N v (map bi_long_term (wd_blocks db)) (bi_weight b)" "st1 = st2"
    using st2(1) add(3) by auto
  show ?case
  proof (rule update_inv [OF _ _ _ _ add(4,5)])
    show "chain_ok (wd_blocks (db\<lparr>wd_blocks := wd_blocks db @ [b]\<rparr>))"
      using inv(1) add(2) by (auto simp: chain_ok_def)
    have "bi_hash b \<noteq> m_long_term_block_weights_cache_tip_hash st1"
      using st2(4) add(2) inv(3) b(2) last_in_set [OF inv(3)] by auto
    then show "cache_ok (wd_blocks (db\<lparr>wd_blocks := wd_blocks db @ [b]\<rparr>)) st1"
      using cache_ok_snoc st2(3) b(2) by simp
    show "N = m_long_term_block_weights_window st1"
      using same_but_cache_window [OF st2(2)] inv(5) b(2) by simp
    have "weighed_top N (wd_blocks db @ [b])"
      using b(1) leD [OF inv(4)] by (simp add: weighed_top_def next_long_term_weight_def)
    then show "weighed N F (wd_blocks (db\<lparr>wd_blocks := wd_blocks db @ [b]\<rparr>))"
      using weighed_snoc [OF inv(6)] by simp
  qed
next
  case (pop db v st v' db' st')
  have inv: "chain_ok (wd_blocks db)" "cache_ok (wd_blocks db) st" "N = m_long_term_block_weights_window st"
    "weighed N F (wd_blocks db)"
    using pop.IH by (simp_all add: weights_inv_def)
  have blocks: "wd_blocks db = butlast (wd_blocks db) @ [last (wd_blocks db)]"
    using weights_inv_nonempty [OF pop.IH] by simp
  show ?case
  proof (rule update_inv [OF _ _ _ _ pop(3,4)])
    show "chain_ok (wd_blocks (db\<lparr>wd_blocks := butlast (wd_blocks db)\<rparr>))"
      using inv(1) by (auto simp: chain_ok_def map_butlast distinct_butlast dest: in_set_butlastD)
    show "cache_ok (wd_blocks (db\<lparr>wd_blocks := butlast (wd_blocks db)\<rparr>)) st"
      using inv(2) cache_ok_prefix [of "butlast (wd_blocks db)" "[last (wd_blocks db)]"] blocks by simp
    show "weighed N F (wd_blocks (db\<lparr>wd_blocks := butlast (wd_blocks db)\<rparr>))"
      using weighed_butlast [OF inv(4)] pop(2) by (simp add: wd_height_def)
  qed (use inv in simp)
qed

text \<open>
  C4. However the chain grew, shrank and was reloaded while the long-term rule was in force (versions from
  10 on, hashes of blocks distinct and not zero, and no block at or below height \<open>F\<close> popped, where the stored chain
  follows the rule from \<open>F\<close> on), the cached rolling median has no influence: the median and the limit of the next block, the effective
  long-term median and the weight with which any next block would be stored are the values
  computed from the stored chain alone, and weighing the next block never fails. Above the first block the
  cache is marked with the hash of the top block and has the median of the window that ends there.
\<close>

theorem weight_limit_cache_transparent:
  assumes "weights_reach N F db v st" "0 < N"
  shows "m_current_block_cumul_weight_median st = weight_median_of_chain N v (wd_blocks db) \<and>
    m_current_block_cumul_weight_limit st = 2 * weight_median_of_chain N v (wd_blocks db) \<and>
    m_long_term_effective_median_block_weight st =
      effective_long_term_median N (map bi_long_term (wd_blocks db)) \<and>
    (\<exists>st'. get_next_long_term_block_weight db st v w =
      Inr (next_long_term_weight N v (map bi_long_term (wd_blocks db)) w, st')) \<and>
    (1 < wd_height db \<longrightarrow>
      m_long_term_block_weights_cache_tip_hash st = bi_hash (last (wd_blocks db)) \<and>
      rm_median (m_long_term_block_weights_cache_rolling_median st) =
        Inr (median (last_n N (map bi_long_term (wd_blocks db)))))"
proof -
  have inv: "weights_inv N F db v st"
    using weights_reach_inv [OF assms] .
  then obtain st' where "get_next_long_term_block_weight db st v w =
      Inr (next_long_term_weight N v (map bi_long_term (wd_blocks db)) w, st')"
    using get_next_long_term_correct [of db st v N w] weights_inv_nonempty [OF inv] by (auto simp: weights_inv_def)
  then show ?thesis
    using inv by (simp add: weights_inv_def top_cached_def wd_height_def)
qed

definition sample_chain :: weight_db where
  "sample_chain = \<lparr>wd_blocks = [\<lparr>bi_hash = [1], bi_weight = 80, bi_long_term = 80\<rparr>],
    wd_max_block_size = None, wd_read_only = False\<rparr>"

theorem weight_limit_cache_transparent_witness:
  "\<exists>db st. weights_reach 2 0 db 10 st \<and> m_current_block_cumul_weight_limit st = 600000"
proof -
  obtain st0 where st0: "new_weight_state sample_memory 2 = Inr st0"
    using new_weight_state_returns [of 2 sample_memory] by auto
  have "null_hash \<noteq> [1]"
    by code_simp
  then have chain: "chain_ok (wd_blocks sample_chain)" "wd_blocks sample_chain \<noteq> []"
    by (simp_all add: chain_ok_def sample_chain_def)
  have top: "weighed_top 2 (wd_blocks sample_chain)"
    by (simp add: weighed_top_def sample_chain_def constrained_weight_def effective_long_term_median_def
        last_n_def median_def CRYPTONOTE_BLOCK_GRANTED_FULL_REWARD_ZONE_V5_def)
  have v: "HF_VERSION_LONG_TERM_BLOCK_WEIGHT \<le> 10"
    by (simp add: HF_VERSION_LONG_TERM_BLOCK_WEIGHT_def)
  have lim: "2 * weight_median_of_chain 2 10 (wd_blocks sample_chain) = 600000"
    by (simp add: weight_median_of_chain_def sample_chain_def effective_long_term_median_def get_min_block_weight_def
        last_n_def median_def CRYPTONOTE_BLOCK_GRANTED_FULL_REWARD_ZONE_V5_def CRYPTONOTE_REWARD_BLOCKS_WINDOW_def
        CRYPTONOTE_SHORT_TERM_BLOCK_WEIGHT_SURGE_FACTOR_def HF_VERSION_LONG_TERM_BLOCK_WEIGHT_def)
  have st0_ok: "cache_ok (wd_blocks sample_chain) st0" "2 = m_long_term_block_weights_window st0"
    using new_weight_state_ok [OF st0 _ chain(1)] by simp_all
  obtain db st where up: "update_next_cumulative_weight_limit sample_chain st0 10 = Inr (db, st)"
    "wd_blocks db = wd_blocks sample_chain"
    by (rule update_correct [OF chain(1) st0_ok(1) chain(2) st0_ok(2) top v])
  have "weighed 2 0 (wd_blocks sample_chain)"
    using top by (simp add: weighed_def sample_chain_def)
  then have reach: "weights_reach 2 0 db 10 st"
    using weights_reach.start [OF chain(1) _ v st0 up(1)] by blast
  have "m_current_block_cumul_weight_limit st = 600000"
    using weight_limit_cache_transparent [OF reach] up(2) lim by simp
  with reach show ?thesis
    by blast
qed

section \<open>The block at the fork\<close>

text \<open>A look-up that the cache answers: it holds a window \<open>ws\<close> of this length, marked with this tip.\<close>

lemma median_cached:
  assumes "window_cached ws st" "N = m_long_term_block_weights_window st" "n = min N (length ws)" "0 < n"
    "start + n \<le> wd_height db" "m_long_term_block_weights_cache_tip_hash st = bi_hash (wd_blocks db ! (start + n - 1))"
  shows "get_long_term_block_weight_median db st start n = Inr (median (last_n N ws), st)"
proof -
  define rm where "rm = m_long_term_block_weights_cache_rolling_median st"
  obtain xs where xs: "holds rm xs" "rm_N rm = N" "last_n N xs = last_n N ws"
    using assms(1,2) by (auto simp: window_cached_def rm_def)
  have "min N (length xs) = min N (length ws)"
    using arg_cong [OF xs(3), of length] by (simp add: length_last_n)
  then have "rm_size rm = n"
    using xs(1,2) assms(3) by (simp add: rm_size_def holds_def min.commute)
  moreover have "xs \<noteq> []"
    using \<open>min N (length xs) = min N (length ws)\<close> assms(3,4) by (auto simp: min_def split: if_splits)
  ultimately have size: "rm_size rm = n" "xs \<noteq> []"
    by simp_all
  have "get_block_hash_from_height db (start + n - 1) = Inr (m_long_term_block_weights_cache_tip_hash st)"
    using assms(4-6) by (simp add: get_block_hash_from_height_def get_block_info_def wd_height_def)
  moreover have "rm_median rm = Inr (median (last_n N ws))"
    using holds_median [OF xs(1) size(2)] xs(2,3) by simp
  moreover have "start + n - 1 < wd_height db"
    using assms(4,5) by simp
  ultimately show ?thesis
    using assms(4) size(1) unfolding get_long_term_block_weight_median_def Let_def rm_def [symmetric]
    by simp
qed

lemma next_weight_cached:
  assumes "window_cached ws st" "N = m_long_term_block_weights_window st" "0 < N" "length ws = wd_height db"
    "wd_blocks db \<noteq> []" "m_long_term_block_weights_cache_tip_hash st = bi_hash (last (wd_blocks db))"
    "HF_VERSION_LONG_TERM_BLOCK_WEIGHT \<le> v"
  shows "get_next_long_term_block_weight db st v w = Inr (constrained_weight (effective_long_term_median N ws) w, st)"
proof -
  define n where "n = min N (wd_height db)"
  have n: "0 < n" "wd_height db - n + n = wd_height db"
    using assms(3,5) by (auto simp: n_def wd_height_def)
  have "get_long_term_block_weight_median db st (wd_height db - n) n = Inr (median (last_n N ws), st)"
    using assms(1,2,4,5,6) n by (intro median_cached) (simp_all add: n_def wd_height_def last_conv_nth)
  then show ?thesis
    unfolding get_next_long_term_block_weight_def Let_def assms(2) [symmetric] n_def [symmetric]
    using leD [OF assms(7)] by (simp add: effective_long_term_median_def)
qed

lemma update_next_above:
  assumes v: "HF_VERSION_LONG_TERM_BLOCK_WEIGHT \<le> v"
    and up: "update_next_cumulative_weight_limit db st v = Inr (db', st')"
    and blocks: "wd_blocks db = bs @ [b]" "bs \<noteq> []" and N: "N = m_long_term_block_weights_window st" "0 < N"
    and n: "n = min N (length bs)"
    and lookup: "get_long_term_block_weight_median db st (length bs - n) n = Inr (median (last_n N ws), st1)"
      "window_cached ws st1" "same_but_cache st st1"
    and c: "c = constrained_weight (effective_long_term_median N ws) (bi_weight b)"
  shows "wd_blocks db' = bs @ [b] \<and> window_cached (ws @ [c]) st' \<and>
    m_long_term_block_weights_cache_tip_hash st' = bi_hash b \<and> m_long_term_block_weights_window st' = N \<and>
    m_long_term_effective_median_block_weight st' = effective_long_term_median N (ws @ [c])"
proof -
  obtain st2 where st2: "update_long_term db st = Inr st2" "window_cached (ws @ [c]) st2"
    "m_long_term_block_weights_cache_tip_hash st2 = bi_hash b" "m_long_term_block_weights_window st2 = N"
    "m_long_term_effective_median_block_weight st2 = effective_long_term_median N (ws @ [c])"
    by (rule update_long_term_above [OF blocks N n lookup c])
  have "\<exists>m l. st' = st2\<lparr>m_current_block_cumul_weight_median := m, m_current_block_cumul_weight_limit := l\<rparr>"
    "wd_blocks db' = wd_blocks db"
    using leD [OF v] up st2(1) by (auto simp: update_next_cumulative_weight_limit_def last_n_blocks_weights Let_def
        CRYPTONOTE_REWARD_BLOCKS_WINDOW_def add_max_block_size_def)
  then show ?thesis
    using st2 blocks(1) by (auto simp: window_cached_def)
qed

text \<open>The same, when the cache is in order for the stored chain, and when it holds a window of its own.\<close>

lemma update_next_stored:
  assumes "HF_VERSION_LONG_TERM_BLOCK_WEIGHT \<le> v" "update_next_cumulative_weight_limit db st v = Inr (db', st')"
    "wd_blocks db = bs @ [b]" "bs \<noteq> []" "N = m_long_term_block_weights_window st"
    and chain: "chain_ok (wd_blocks db)" and cache: "cache_ok (wd_blocks db) st"
    and c: "c = constrained_weight (effective_long_term_median N (map bi_long_term bs)) (bi_weight b)"
  shows "wd_blocks db' = bs @ [b] \<and> window_cached (map bi_long_term bs @ [c]) st' \<and>
    m_long_term_block_weights_cache_tip_hash st' = bi_hash b \<and> m_long_term_block_weights_window st' = N \<and>
    m_long_term_effective_median_block_weight st' = effective_long_term_median N (map bi_long_term bs @ [c])"
proof -
  define n where "n = min N (length bs)"
  have N: "0 < N"
    using cache_ok_window [OF cache] assms(5) by simp
  have n: "0 < n" "length bs - n + n = length bs" "n = min N (length bs - n + n)"
    using N assms(4) by (auto simp: n_def)
  obtain st1 where st1: "get_long_term_block_weight_median db st (length bs - n) n =
      Inr (median (last_n N (map bi_long_term bs)), st1)" "window_cached (map bi_long_term bs) st1" "same_but_cache st st1"
    using get_long_term_median_correct [OF chain cache n(1), of "length bs - n" "map bi_long_term bs"] n(2,3) assms(3,5)
    by (auto simp: wd_height_def)
  show ?thesis
    by (rule update_next_above [OF assms(1-5) N n_def st1 c])
qed

lemma update_next_cached:
  assumes "HF_VERSION_LONG_TERM_BLOCK_WEIGHT \<le> v" "update_next_cumulative_weight_limit db st v = Inr (db', st')"
    "wd_blocks db = bs @ [b]" "bs \<noteq> []" "N = m_long_term_block_weights_window st" "0 < N"
    and ws: "window_cached ws st" "length ws = length bs" "m_long_term_block_weights_cache_tip_hash st = bi_hash (last bs)"
    and c: "c = constrained_weight (effective_long_term_median N ws) (bi_weight b)"
  shows "wd_blocks db' = bs @ [b] \<and>
    m_long_term_effective_median_block_weight st' = effective_long_term_median N (ws @ [c])"
proof -
  define n where "n = min N (length bs)"
  have n: "0 < n" "length bs - n + n = length bs"
    using assms(4,6) by (auto simp: n_def)
  have "get_long_term_block_weight_median db st (length bs - n) n = Inr (median (last_n N ws), st)"
    using assms(4) n ws by (intro median_cached assms(5))
      (simp_all add: n_def assms(3) wd_height_def last_conv_nth nth_append)
  moreover have "same_but_cache st st"
    unfolding same_but_cache_def by (intro exI [of _ "m_long_term_block_weights_cache_tip_hash st"]
        exI [of _ "m_long_term_block_weights_cache_rolling_median st"]) simp
  ultimately show ?thesis
    using update_next_above [OF assms(1-6) n_def _ ws(1) _ c] by simp
qed

text \<open>
  C16. The cache is not transparent at the fork itself. The block \<open>b\<close> whose votes activate version 10 is
  weighed under a version \<open>v0\<close> below 10 and stored with its plain weight; the update that follows runs under
  version \<open>v\<close> from 10 on and puts the constrained weight into the cache instead. After the next block \<open>b2\<close> a
  node that kept running has the long-term median of the chain in which \<open>b\<close> counts with its constrained
  weight, and a node that reloads the same stored chain the one in which it counts with its plain weight.
  This holds for every chain with distinct and nonzero hashes, every window and every pair of block weights.
\<close>

theorem fork_block_cache_diverges:
  assumes chain: "chain_ok (bs @ [b, b2])" "bs \<noteq> []" and db: "wd_blocks db = bs"
    and st: "cache_ok (bs @ [b]) st" "N = m_long_term_block_weights_window st"
    and v: "v0 < HF_VERSION_LONG_TERM_BLOCK_WEIGHT" "HF_VERSION_LONG_TERM_BLOCK_WEIGHT \<le> v"
    and b: "get_next_long_term_block_weight db st v0 (bi_weight b) = Inr (bi_long_term b, st)"
      "update_next_cumulative_weight_limit (db\<lparr>wd_blocks := bs @ [b]\<rparr>) st v = Inr (db1, st1)"
    and b2: "get_next_long_term_block_weight db1 st1 v (bi_weight b2) = Inr (bi_long_term b2, st2)"
      "update_next_cumulative_weight_limit (db1\<lparr>wd_blocks := bs @ [b, b2]\<rparr>) st2 v = Inr (db2, running)"
    and reload: "new_weight_state fresh N = Inr st0"
      "update_next_cumulative_weight_limit db2 st0 v = Inr (db3, reloaded)"
    and c: "c = constrained_weight (effective_long_term_median N (map bi_long_term bs)) (bi_weight b)"
  shows "wd_blocks db3 = wd_blocks db2 \<and> bi_long_term b = bi_weight b \<and>
    m_long_term_effective_median_block_weight running = effective_long_term_median N (map bi_long_term bs @
      [c, constrained_weight (effective_long_term_median N (map bi_long_term bs @ [c])) (bi_weight b2)]) \<and>
    m_long_term_effective_median_block_weight reloaded = effective_long_term_median N (map bi_long_term bs @
      [bi_weight b, constrained_weight (effective_long_term_median N (map bi_long_term bs @ [bi_weight b])) (bi_weight b2)])"
proof -
  have N: "0 < N"
    using cache_ok_window [OF st(1)] st(2) by simp
  have lt: "bi_long_term b = bi_weight b"
    using b(1) v(1) by (simp add: get_next_long_term_block_weight_def)
  have "chain_ok (bs @ [b])"
    using chain(1) by (simp add: chain_ok_def)
  then have st1: "wd_blocks db1 = bs @ [b]" "window_cached (map bi_long_term bs @ [c]) st1"
    "m_long_term_block_weights_cache_tip_hash st1 = bi_hash b" "m_long_term_block_weights_window st1 = N"
    using update_next_stored [OF v(2) b(2) _ chain(2) st(2) _ _ c] st(1) by simp_all
  have "get_next_long_term_block_weight db1 st1 v (bi_weight b2) =
      Inr (constrained_weight (effective_long_term_median N (map bi_long_term bs @ [c])) (bi_weight b2), st1)"
    using st1 by (intro next_weight_cached N v(2)) (simp_all add: wd_height_def)
  then have "st2 = st1"
    using b2(1) by simp
  have blocks2: "wd_blocks (db1\<lparr>wd_blocks := bs @ [b, b2]\<rparr>) = (bs @ [b]) @ [b2]"
    by simp
  have running: "wd_blocks db2 = (bs @ [b]) @ [b2] \<and>
      m_long_term_effective_median_block_weight running = effective_long_term_median N ((map bi_long_term bs @ [c]) @
      [constrained_weight (effective_long_term_median N (map bi_long_term bs @ [c])) (bi_weight b2)])"
    using st1 \<open>st2 = st1\<close> by (intro update_next_cached [OF v(2) b2(2) blocks2 _ _ N _ _ _ refl]) simp_all
  then have db2: "wd_blocks db2 = (bs @ [b]) @ [b2]"
    by blast
  have st0: "cache_ok (wd_blocks db2) st0" "m_long_term_block_weights_window st0 = N"
    using new_weight_state_ok [OF reload(1) N, of "wd_blocks db2"] chain(1) db2 by simp_all
  have "wd_blocks db3 = wd_blocks db2 \<and>
      m_long_term_effective_median_block_weight reloaded = effective_long_term_median N (map bi_long_term (bs @ [b]) @
        [constrained_weight (effective_long_term_median N (map bi_long_term (bs @ [b]))) (bi_weight b2)])"
    using update_next_stored [OF v(2) reload(2) db2 _ st0(2) [symmetric] _ st0(1) refl] chain(1) db2 by simp
  then show ?thesis
    using running lt by simp
qed

definition sample_block :: "byte \<Rightarrow> u64 \<Rightarrow> block_info" where
  "sample_block h l = \<lparr>bi_hash = [h], bi_weight = 600000, bi_long_term = l\<rparr>"

lemma sample_fork_run:
  "and_then (new_weight_state sample_memory 2) (\<lambda>st.
   and_then (update_next_cumulative_weight_limit
     (sample_chain\<lparr>wd_blocks := wd_blocks sample_chain @ [sample_block 2 600000]\<rparr>) st 10) (\<lambda>(db1, st1).
   and_then (get_next_long_term_block_weight db1 st1 10 600000) (\<lambda>(l, st2).
   and_then (update_next_cumulative_weight_limit
     (db1\<lparr>wd_blocks := wd_blocks sample_chain @ [sample_block 2 600000, sample_block 3 l]\<rparr>) st2 10) (\<lambda>(db2, running).
   and_then (update_next_cumulative_weight_limit db2 st 10) (\<lambda>(db3, reloaded).
   Inr (m_long_term_effective_median_block_weight running, m_long_term_effective_median_block_weight reloaded)))))) =
   Inr (420000, 510028)"
  by code_simp

theorem fork_block_cache_diverges_witness:
  "\<exists>db1 st2 db2 running st db3 reloaded. update_next_cumulative_weight_limit db1 st2 10 = Inr (db2, running) \<and>
    new_weight_state sample_memory 2 = Inr st \<and>
    update_next_cumulative_weight_limit db2 st 10 = Inr (db3, reloaded) \<and> wd_blocks db3 = wd_blocks db2 \<and>
    m_long_term_effective_median_block_weight running = effective_long_term_median 2 [80, 420000, 420000] \<and>
    m_long_term_effective_median_block_weight reloaded = effective_long_term_median 2 [80, 600000, 420056] \<and>
    m_long_term_effective_median_block_weight running \<noteq> m_long_term_effective_median_block_weight reloaded"
proof -
  obtain st db1 st1 l st2 db2 running db3 reloaded where st: "new_weight_state sample_memory 2 = Inr st"
    and b: "update_next_cumulative_weight_limit
      (sample_chain\<lparr>wd_blocks := wd_blocks sample_chain @ [sample_block 2 600000]\<rparr>) st 10 = Inr (db1, st1)"
    and b2: "get_next_long_term_block_weight db1 st1 10 600000 = Inr (l, st2)"
      "update_next_cumulative_weight_limit
        (db1\<lparr>wd_blocks := wd_blocks sample_chain @ [sample_block 2 600000, sample_block 3 l]\<rparr>) st2 10 = Inr (db2, running)"
    and reload: "update_next_cumulative_weight_limit db2 st 10 = Inr (db3, reloaded)"
    and medians: "m_long_term_effective_median_block_weight running = 420000"
      "m_long_term_effective_median_block_weight reloaded = 510028"
    using sample_fork_run unfolding and_then_Inr split_paired_Ex prod.case by blast
  have "null_hash \<noteq> [1]" "null_hash \<noteq> [2]" "null_hash \<noteq> [3]"
    by code_simp+
  then have chain: "chain_ok (wd_blocks sample_chain @ [sample_block 2 600000, sample_block 3 l])"
    "chain_ok (wd_blocks sample_chain @ [sample_block 2 600000])" "wd_blocks sample_chain \<noteq> []"
    by (simp_all add: chain_ok_def sample_chain_def sample_block_def)
  have v: "9 < HF_VERSION_LONG_TERM_BLOCK_WEIGHT" "HF_VERSION_LONG_TERM_BLOCK_WEIGHT \<le> 10"
    by (simp_all add: HF_VERSION_LONG_TERM_BLOCK_WEIGHT_def)
  have st_ok: "cache_ok (wd_blocks sample_chain @ [sample_block 2 600000]) st" "2 = m_long_term_block_weights_window st"
    using new_weight_state_ok [OF st _ chain(2)] by simp_all
  have plain: "get_next_long_term_block_weight sample_chain st 9 (bi_weight (sample_block 2 600000)) =
      Inr (bi_long_term (sample_block 2 600000), st)"
    using v(1) by (simp add: get_next_long_term_block_weight_def sample_block_def)
  have l: "get_next_long_term_block_weight db1 st1 10 (bi_weight (sample_block 3 l)) = Inr (bi_long_term (sample_block 3 l), st2)"
    using b2(1) by (simp add: sample_block_def)
  have nums: "map bi_long_term (wd_blocks sample_chain) = [80]" "bi_weight (sample_block h x) = 600000"
    "constrained_weight (effective_long_term_median 2 [80]) 600000 = 420000"
    "constrained_weight (effective_long_term_median 2 [80, 420000]) 600000 = 420000"
    "constrained_weight (effective_long_term_median 2 [80, 600000]) 600000 = 420056" for h x
    by (simp add: sample_chain_def sample_block_def | code_simp)+
  have "wd_blocks db3 = wd_blocks db2 \<and>
      m_long_term_effective_median_block_weight running = effective_long_term_median 2 [80, 420000, 420000] \<and>
      m_long_term_effective_median_block_weight reloaded = effective_long_term_median 2 [80, 600000, 420056]"
    using fork_block_cache_diverges [OF chain(1,3) refl st_ok v plain b l b2(2) st reload refl] by (simp add: nums)
  moreover have "m_long_term_effective_median_block_weight running \<noteq> m_long_term_effective_median_block_weight reloaded"
    using medians by simp
  ultimately show ?thesis
    using st reload b2(2) by blast
qed

end
