(* ===== verification/Fees.thy ===== *)
theory Fees
  imports Block_Weight
begin

text \<open>
  The fee that a transaction needs (\<open>cryptonote_core/blockchain.cpp\<close>): the base fee from the
  block reward and the median weight, the rounding up to eight decimals, the check with its
  buffer of two percent and the estimate offered to wallets, under every version of the rules.
\<close>

section \<open>Definitions\<close>

definition PER_KB_FEE_QUANTIZATION_DECIMALS :: nat where
  "PER_KB_FEE_QUANTIZATION_DECIMALS = 8"

definition HF_VERSION_DYNAMIC_FEE :: u8 where
  "HF_VERSION_DYNAMIC_FEE = 4"

definition HF_VERSION_PER_BYTE_FEE :: u8 where
  "HF_VERSION_PER_BYTE_FEE = 8"

definition FEE_PER_KB :: u64 where
  "FEE_PER_KB = 2000000000"

definition DYNAMIC_FEE_PER_KB_BASE_FEE :: u64 where
  "DYNAMIC_FEE_PER_KB_BASE_FEE = 2000000000"

definition DYNAMIC_FEE_PER_KB_BASE_FEE_V5 :: u64 where
  "DYNAMIC_FEE_PER_KB_BASE_FEE_V5 = 2000000000 * 60000 div 300000"

definition DYNAMIC_FEE_PER_KB_BASE_BLOCK_REWARD :: u64 where
  "DYNAMIC_FEE_PER_KB_BASE_BLOCK_REWARD = 10000000000000"

definition DYNAMIC_FEE_REFERENCE_TRANSACTION_WEIGHT :: u64 where
  "DYNAMIC_FEE_REFERENCE_TRANSACTION_WEIGHT = 3000"

definition BLOCK_REWARD_OVERESTIMATE :: u64 where
  "BLOCK_REWARD_OVERESTIMATE = 10 * 1000000000000"

text \<open>
  The mask is kept in a static variable, zero until the first call; \<open>decimal_point\<close> is the
  number of decimals the coin is configured with.
\<close>

function mask_loop :: "nat \<Rightarrow> nat \<Rightarrow> u64 \<Rightarrow> u64" where
  "mask_loop decimal_point n factor = (if n < decimal_point then mask_loop decimal_point (n + 1) (factor * 10) else factor)"
  by pat_completeness auto

termination by (relation "measure (\<lambda>(d, n, m). d - n)") auto

declare mask_loop.simps [simp del]

definition get_fee_quantization_mask :: "nat \<Rightarrow> u64 \<Rightarrow> u64" where
  "get_fee_quantization_mask decimal_point static_mask =
    (if static_mask = 0 then mask_loop decimal_point PER_KB_FEE_QUANTIZATION_DECIMALS 1 else static_mask)"

text \<open>Rounding up to a multiple of the mask, as both fees do it.\<close>

definition quantize :: "u64 \<Rightarrow> u64 \<Rightarrow> u64 result" where
  "quantize factor fee = (if factor = 0 then Inl Division_by_zero else Inr ((fee + factor - 1) div factor * factor))"

definition get_dynamic_base_fee ::
  "(u128 \<Rightarrow> u128 \<Rightarrow> u128 \<times> u128) \<Rightarrow> u64 \<Rightarrow> u64 \<Rightarrow> u64 \<Rightarrow> u8 \<Rightarrow> u64 result" where
  "get_dynamic_base_fee divide_qr factor block_reward median_block_weight version =
    (let min_block_weight = get_min_block_weight version;
         median_block_weight = (if median_block_weight < min_block_weight then min_block_weight else median_block_weight)
     in if HF_VERSION_PER_BYTE_FEE \<le> version
        then let (hi, lo) = mul128 block_reward DYNAMIC_FEE_REFERENCE_TRANSACTION_WEIGHT;
                 ((hi, lo), _) = div128_64 divide_qr hi lo min_block_weight;
                 ((hi, lo), _) = div128_64 divide_qr hi lo median_block_weight
             in if hi \<noteq> 0 then Inl Assertion_failed else Inr (lo div 5)
        else let fee_base = (if 5 \<le> version then DYNAMIC_FEE_PER_KB_BASE_FEE_V5 else DYNAMIC_FEE_PER_KB_BASE_FEE);
                 unscaled_fee_base = fee_base * min_block_weight div median_block_weight;
                 (hi, lo) = mul128 unscaled_fee_base block_reward;
                 ((hi, lo), _) = div128_64 divide_qr hi lo DYNAMIC_FEE_PER_KB_BASE_BLOCK_REWARD
             in if hi \<noteq> 0 then Inl Assertion_failed else quantize factor lo)"

text \<open>
  The parts of the node a fee depends on: the state of the weights, the height and the coins
  generated so far, which the database keeps for the top block.
\<close>

record fee_context =
  fc_ops :: u256_ops
  fc_divide_qr :: "u128 \<Rightarrow> u128 \<Rightarrow> u128 \<times> u128"
  fc_config :: cn_config
  fc_decimal_point :: nat
  fc_static_mask :: u64
  fc_height :: u64
  fc_already_generated_coins :: u64
  fc_weights :: weight_state

definition fee_mask :: "fee_context \<Rightarrow> u64" where
  "fee_mask c = get_fee_quantization_mask (fc_decimal_point c) (fc_static_mask c)"

definition base_reward_for_fee :: "fee_context \<Rightarrow> u64 \<Rightarrow> u8 \<Rightarrow> u64 option result" where
  "base_reward_for_fee c median_weight version =
    get_block_reward (fc_ops c) (fc_divide_qr c) (fc_config c) (fc_height c) median_weight 1
      (if fc_height c = 0 then 0 else fc_already_generated_coins c) version"

definition needed_fee :: "fee_context \<Rightarrow> u8 \<Rightarrow> u64 \<Rightarrow> u64 \<Rightarrow> u64 \<Rightarrow> u64 result" where
  "needed_fee c version median_weight reward tx_weight =
    (if HF_VERSION_PER_BYTE_FEE \<le> version
     then let median_weight = (if HF_VERSION_LONG_TERM_BLOCK_WEIGHT \<le> version
            then min median_weight (m_long_term_effective_median_block_weight (fc_weights c)) else median_weight)
       in and_then (get_dynamic_base_fee (fc_divide_qr c) (fee_mask c) reward median_weight version) (\<lambda>fee_per_byte.
          quantize (fee_mask c) (tx_weight * fee_per_byte))
     else and_then (if version < HF_VERSION_DYNAMIC_FEE then Inr FEE_PER_KB
         else get_dynamic_base_fee (fc_divide_qr c) (fee_mask c) reward median_weight version) (\<lambda>fee_per_kb.
       let needed_fee = tx_weight div 1024;
           needed_fee = needed_fee + (if tx_weight mod 1024 \<noteq> 0 then 1 else 0)
       in Inr (needed_fee * fee_per_kb)))"

definition check_fee :: "fee_context \<Rightarrow> u8 \<Rightarrow> u64 \<Rightarrow> u64 \<Rightarrow> bool result" where
  "check_fee c version tx_weight fee =
    (let dynamic = (HF_VERSION_DYNAMIC_FEE \<le> version);
         median_weight = (if dynamic then m_current_block_cumul_weight_limit (fc_weights c) div 2 else 0)
     in and_then (if dynamic then base_reward_for_fee c median_weight version else Inr (Some 0)) (\<lambda>r.
        case r of None \<Rightarrow> Inr False
        | Some reward \<Rightarrow> and_then (needed_fee c version median_weight reward tx_weight) (\<lambda>needed.
            Inr (\<not> fee < needed - needed div 50))))"

definition get_dynamic_base_fee_estimate :: "fee_context \<Rightarrow> weight_db \<Rightarrow> u8 \<Rightarrow> nat \<Rightarrow> u64 result" where
  "get_dynamic_base_fee_estimate c db version grace_blocks =
    (if version < HF_VERSION_DYNAMIC_FEE then Inr FEE_PER_KB
     else let grace_blocks = (if CRYPTONOTE_REWARD_BLOCKS_WINDOW \<le> grace_blocks
                then CRYPTONOTE_REWARD_BLOCKS_WINDOW - 1 else grace_blocks);
              min_block_weight = get_min_block_weight version
       in and_then (get_last_n_blocks_weights db (CRYPTONOTE_REWARD_BLOCKS_WINDOW - grace_blocks)) (\<lambda>weights.
          let median_weight = median (weights @ replicate grace_blocks min_block_weight);
              median_weight = (if median_weight \<le> min_block_weight then min_block_weight else median_weight)
          in and_then (base_reward_for_fee c (m_current_block_cumul_weight_limit (fc_weights c) div 2) version) (\<lambda>r.
             let reward = (case r of None \<Rightarrow> BLOCK_REWARD_OVERESTIMATE | Some r \<Rightarrow> r);
                 use_median_value = (if HF_VERSION_LONG_TERM_BLOCK_WEIGHT \<le> version
                   then min median_weight (m_long_term_effective_median_block_weight (fc_weights c)) else median_weight)
             in get_dynamic_base_fee (fc_divide_qr c) (fee_mask c) reward use_median_value version)))"

section \<open>The fee as a number\<close>

definition round_up :: "nat \<Rightarrow> nat \<Rightarrow> nat" where
  "round_up q n = (n + q - 1) div q * q"

definition base_fee :: "nat \<Rightarrow> u8 \<Rightarrow> nat \<Rightarrow> nat \<Rightarrow> nat" where
  "base_fee q version reward median_weight =
    (let minimum = unat (get_min_block_weight version); m = max median_weight minimum
     in if HF_VERSION_PER_BYTE_FEE \<le> version then reward * 3000 div minimum div m div 5
        else let base = (if 5 \<le> version then 400000000 else 2000000000)
          in round_up q (base * minimum div m * reward div 10000000000000))"

definition required_fee :: "nat \<Rightarrow> u8 \<Rightarrow> nat \<Rightarrow> nat \<Rightarrow> nat \<Rightarrow> nat \<Rightarrow> nat" where
  "required_fee q version reward median_weight long_term w =
    (if HF_VERSION_PER_BYTE_FEE \<le> version
     then round_up q (w * base_fee q version reward
       (if HF_VERSION_LONG_TERM_BLOCK_WEIGHT \<le> version then min median_weight long_term else median_weight))
     else (w + 1023) div 1024 * (if version < HF_VERSION_DYNAMIC_FEE then 2000000000 else base_fee q version reward median_weight))"

lemma mask_loop_value: "mask_loop d n f = f * 10 ^ (d - n)"
proof (induction d n f rule: mask_loop.induct)
  case (1 d n f)
  show ?case
  proof (cases "n < d")
    case True
    then have "d - n = Suc (d - (n + 1))"
      by simp
    then show ?thesis
      using 1 True by (subst mask_loop.simps) (simp add: mult.assoc)
  qed (simp add: mask_loop.simps)
qed

lemma round_up_ge: "0 < q \<Longrightarrow> n \<le> round_up q n"
proof -
  assume q: "0 < q"
  have "n + q - 1 = (n + q - 1) div q * q + (n + q - 1) mod q"
    by simp
  moreover have "(n + q - 1) mod q \<le> q - 1"
    using q by (simp add: Suc_leI less_Suc_eq_le [symmetric])
  ultimately show ?thesis
    using q unfolding round_up_def by linarith
qed

lemma quantize_value:
  assumes "0 < unat f" "unat fee + unat f \<le> 2 ^ 64"
  obtains r where "quantize f fee = Inr r" "unat r = round_up (unat f) (unat fee)"
proof -
  have f: "f \<noteq> 0"
    using assms(1) by auto
  then have one: "unat (f - 1) = unat f - 1"
    by (rule unat_minus_one)
  have "unat fee + unat (f - 1) < 2 ^ LENGTH(64)"
    using assms one by simp
  then have "unat (fee + (f - 1)) = unat fee + unat (f - 1)"
    using unat_add_lem [of fee "f - 1"] by simp
  then have sum: "unat (fee + f - 1) = unat fee + unat f - 1"
    using one assms(1) by (simp add: add_diff_eq)
  have "unat ((fee + f - 1) div f) * unat f \<le> unat (fee + f - 1)"
    by (simp add: unat_div div_times_less_eq_dividend)
  then have "unat ((fee + f - 1) div f * f) = unat ((fee + f - 1) div f) * unat f"
    using unat_mult_lem [of "(fee + f - 1) div f" f] unat_u64_less [of "fee + f - 1"] by simp
  then have "unat ((fee + f - 1) div f * f) = round_up (unat f) (unat fee)"
    by (simp add: round_up_def unat_div sum)
  then show ?thesis
    using that f by (simp add: quantize_def)
qed

lemma min_block_weight_range: "3000 \<le> unat (get_min_block_weight v)" "unat (get_min_block_weight v) \<le> 300000"
  by (simp_all add: get_min_block_weight_def)

lemma unat_max_u64: "unat (if a < b then b else a :: u64) = max (unat a) (unat b)"
  by (simp add: word_less_nat_alt max_def)

lemma div128_64_small:
  assumes "div128_64 divide_qr hi lo d = ((qhi, qlo), r)" "divides_with_remainder divide_qr" "d \<noteq> 0"
    "unat hi * 2 ^ 64 + unat lo = n" "n div unat d < 2 ^ 64"
  shows "qhi = 0" "unat qlo = n div unat d"
proof -
  obtain rhi rlo where "r = (rhi, rlo)"
    by force
  then have eq: "unat qhi * 2 ^ 64 + unat qlo = n div unat d"
    using div128_64_value(1) [OF _ assms(2,3)] assms(1,4) by simp
  have "unat qhi = 0"
  proof (rule ccontr)
    assume "unat qhi \<noteq> 0"
    then have "2 ^ 64 \<le> unat qhi * 2 ^ 64"
      by simp
    then show False
      using eq assms(5) by linarith
  qed
  then show "qhi = 0" "unat qlo = n div unat d"
    using eq by (simp_all add: unat_eq_0)
qed

lemma per_byte_fee:
  assumes "divides_with_remainder divide_qr" "HF_VERSION_PER_BYTE_FEE \<le> version"
  obtains f where "get_dynamic_base_fee divide_qr factor reward m version = Inr f"
    "unat f = base_fee q version (unat reward) (unat m)"
proof -
  define w where "w = get_min_block_weight version"
  define x where "x = (if m < w then w else m)"
  have w: "3000 \<le> unat w" "w \<noteq> 0"
    using min_block_weight_range(1) [of version] by (auto simp: w_def)
  have x: "unat x = max (unat m) (unat w)"
    by (simp add: x_def unat_max_u64)
  then have "x \<noteq> 0"
    using w(1) by auto
  obtain h1 l1 where 1: "mul128 reward DYNAMIC_FEE_REFERENCE_TRANSACTION_WEIGHT = (h1, l1)"
    by force
  obtain h2 l2 r2 where 2: "div128_64 divide_qr h1 l1 w = ((h2, l2), r2)"
    by (metis surj_pair)
  obtain h3 l3 r3 where 3: "div128_64 divide_qr h2 l2 x = ((h3, l3), r3)"
    by (metis surj_pair)
  have v1: "unat h1 * 2 ^ 64 + unat l1 = unat reward * 3000"
    using mul128_value [OF 1] by (simp add: DYNAMIC_FEE_REFERENCE_TRANSACTION_WEIGHT_def)
  have b1: "unat reward * 3000 div unat w < 2 ^ 64"
  proof -
    have "unat reward * 3000 div unat w \<le> unat reward * 3000 div 3000"
      using w(1) by (intro div_le_mono2) auto
    then show ?thesis
      using unat_u64_less [of reward] by simp
  qed
  note v2 = div128_64_small [OF 2 assms(1) w(2) v1 b1]
  have b2: "unat reward * 3000 div unat w div unat x < 2 ^ 64"
    using b1 by (rule le_less_trans [OF div_le_dividend])
  have "unat h2 * 2 ^ 64 + unat l2 = unat reward * 3000 div unat w"
    using v2 by simp
  note v3 = div128_64_small [OF 3 assms(1) \<open>x \<noteq> 0\<close> this b2]
  have "get_dynamic_base_fee divide_qr factor reward m version = Inr (l3 div 5)"
    using assms(2) 1 2 3 v3(1) by (simp add: get_dynamic_base_fee_def Let_def flip: w_def x_def)
  moreover have "unat (l3 div 5) = base_fee q version (unat reward) (unat m)"
    using assms(2) by (simp add: base_fee_def Let_def unat_div v3(2) x flip: w_def)
  ultimately show ?thesis
    using that by blast
qed

lemma per_kb_fee:
  assumes "divides_with_remainder divide_qr" "\<not> HF_VERSION_PER_BYTE_FEE \<le> version"
    and q: "q = unat factor" "0 < q" "q \<le> 2 ^ 60"
  obtains f where "get_dynamic_base_fee divide_qr factor reward m version = Inr f"
    "unat f = base_fee q version (unat reward) (unat m)"
proof -
  define w where "w = get_min_block_weight version"
  define x where "x = (if m < w then w else m)"
  define b where "b = (if 5 \<le> version then DYNAMIC_FEE_PER_KB_BASE_FEE_V5 else DYNAMIC_FEE_PER_KB_BASE_FEE)"
  have w: "0 < unat w" "unat w \<le> 300000"
    using min_block_weight_range [of version] by (auto simp: w_def)
  have x: "unat x = max (unat m) (unat w)"
    by (simp add: x_def unat_max_u64)
  have b: "unat b = (if 5 \<le> version then 400000000 else 2000000000)"
    by (simp add: b_def DYNAMIC_FEE_PER_KB_BASE_FEE_V5_def DYNAMIC_FEE_PER_KB_BASE_FEE_def)
  then have "unat b * unat w \<le> 2000000000 * 300000"
    using w(2) by (intro mult_le_mono) auto
  then have u: "unat (b * w div x) = unat b * unat w div unat x"
    using unat_mult_lem [of b w] by (simp add: unat_div)
  have "unat b * unat w div unat x \<le> unat b * unat w div unat w"
    using x w(1) by (intro div_le_mono2) auto
  then have small: "unat (b * w div x) \<le> 2000000000"
    using u w(1) b by (auto split: if_splits)
  obtain h1 l1 where 1: "mul128 (b * w div x) reward = (h1, l1)"
    by force
  obtain h2 l2 r2 where 2: "div128_64 divide_qr h1 l1 DYNAMIC_FEE_PER_KB_BASE_BLOCK_REWARD = ((h2, l2), r2)"
    by (metis surj_pair)
  define n where "n = unat (b * w div x) * unat reward"
  have "n \<le> 2000000000 * 2 ^ 64"
    unfolding n_def using small unat_u64_less [of reward] by (intro mult_le_mono) auto
  then have n: "n div 10000000000000 \<le> 2000000000 * 2 ^ 64 div 10000000000000"
    by (rule div_le_mono)
  have d: "unat DYNAMIC_FEE_PER_KB_BASE_BLOCK_REWARD = 10000000000000" "DYNAMIC_FEE_PER_KB_BASE_BLOCK_REWARD \<noteq> 0"
    by (simp_all add: DYNAMIC_FEE_PER_KB_BASE_BLOCK_REWARD_def)
  have "n div unat DYNAMIC_FEE_PER_KB_BASE_BLOCK_REWARD < 2 ^ 64"
    using n d(1) by simp
  note v2 = div128_64_small [OF 2 assms(1) d(2) mul128_value [OF 1, folded n_def] this, unfolded d(1)]
  have "unat l2 + unat factor \<le> 2 ^ 64"
    using v2(2) n q by simp
  then obtain f where f: "quantize factor l2 = Inr f" "unat f = round_up (unat factor) (unat l2)"
    using quantize_value [of factor l2] q by auto
  have "get_dynamic_base_fee divide_qr factor reward m version = Inr f"
    using assms(2) 1 2 v2(1) f(1) by (simp add: get_dynamic_base_fee_def Let_def flip: w_def x_def b_def)
  moreover have "unat f = base_fee q version (unat reward) (unat m)"
    using assms(2) b by (simp add: base_fee_def Let_def f(2) v2(2) n_def u x q(1) flip: w_def)
  ultimately show ?thesis
    using that by blast
qed

lemma ceil_div:
  fixes n d :: nat
  assumes d: "0 < d"
  shows "n div d + (if n mod d \<noteq> 0 then 1 else 0) = (n + (d - 1)) div d"
proof -
  define a b where "a = n div d" and "b = n mod d"
  have n: "n = b + a * d" "b < d"
    using d by (simp_all add: a_def b_def)
  have "(n + (d - 1)) div d = (b + (d - 1) + a * d) div d"
    using n(1) by (simp add: ac_simps)
  also have "\<dots> = a + (b + (d - 1)) div d"
    using d by (intro div_mult_self1) simp
  also have "(b + (d - 1)) div d = (if b \<noteq> 0 then 1 else 0)"
    using n(2) by (auto intro!: div_nat_eqI)
  finally show ?thesis
    by (simp add: a_def b_def)
qed

lemma unat_ceil_kb: "unat (w div 1024 + (if w mod 1024 \<noteq> 0 then 1 else 0) :: u64) = (unat w + 1023) div 1024"
proof -
  define k :: u64 where "k = (if w mod 1024 \<noteq> 0 then 1 else 0)"
  have "unat (w mod 1024) = unat w mod 1024"
    by (simp add: unat_mod)
  then have "w mod 1024 = 0 \<longleftrightarrow> unat w mod 1024 = 0"
    using unat_eq_0 [of "w mod 1024"] by simp
  then have k: "unat k = (if unat w mod 1024 \<noteq> 0 then 1 else 0)"
    unfolding k_def by (simp only: if_distrib [of unat] unat_0 unat_1)
  have "unat (w div 1024) = unat w div 1024"
    by (simp add: unat_div)
  moreover have "unat w div 1024 + unat k < 2 ^ 64"
  proof -
    have "unat w div 1024 \<le> 2 ^ 64 div 1024"
      using unat_u64_less [of w] by (intro div_le_mono) simp
    then show ?thesis
      using k by simp
  qed
  ultimately have "unat (w div 1024 + k) = unat w div 1024 + unat k"
    using unat_add_lem [of "w div 1024" k] by simp
  also have "\<dots> = (unat w + 1023) div 1024"
    using ceil_div [of 1024 "unat w"] k by simp
  finally show ?thesis
    by (simp only: k_def)
qed

lemma reward_for_fee_found: "\<exists>r. base_reward_for_fee c m version = Inr (Some r)"
proof -
  define y where "y = (if m < get_min_block_weight version then get_min_block_weight version else m)"
  have "1 \<le> y"
    using min_block_weight_range(1) [of version] unat_max_u64 [of m "get_min_block_weight version"]
    unfolding y_def word_le_nat_alt by simp
  then show ?thesis
    unfolding base_reward_for_fee_def get_block_reward_def Let_def y_def [symmetric] by simp
qed

lemma needed_fee_value:
  assumes div: "divides_with_remainder (fc_divide_qr c)"
    and q: "q = unat (fee_mask c)" "0 < q" "q \<le> 2 ^ 60"
    and needed: "n = required_fee q version (unat reward) (unat m)
        (unat (m_long_term_effective_median_block_weight (fc_weights c))) (unat w)" "n + q \<le> 2 ^ 64"
  obtains r where "needed_fee c version m reward w = Inr r" "unat r = n"
proof (cases "HF_VERSION_PER_BYTE_FEE \<le> version")
  case True
  define x where "x = (if HF_VERSION_LONG_TERM_BLOCK_WEIGHT \<le> version
    then min m (m_long_term_effective_median_block_weight (fc_weights c)) else m)"
  have x: "unat x = (if HF_VERSION_LONG_TERM_BLOCK_WEIGHT \<le> version
      then min (unat m) (unat (m_long_term_effective_median_block_weight (fc_weights c))) else unat m)"
    by (simp add: x_def min_def word_le_nat_alt)
  obtain f where f: "get_dynamic_base_fee (fc_divide_qr c) (fee_mask c) reward x version = Inr f"
    "unat f = base_fee q version (unat reward) (unat x)"
    using per_byte_fee [OF div True] .
  have n: "n = round_up q (unat w * unat f)"
    using needed(1) True by (simp add: required_fee_def f(2) x)
  then have "unat w * unat f + q \<le> 2 ^ 64"
    using needed(2) round_up_ge [OF q(2), of "unat w * unat f"] by linarith
  then have prod: "unat (w * f) = unat w * unat f" "unat (w * f) + unat (fee_mask c) \<le> 2 ^ 64"
    using unat_mult_lem [of w f] q by simp_all
  obtain r where "quantize (fee_mask c) (w * f) = Inr r" "unat r = round_up q (unat w * unat f)"
    using quantize_value [OF _ prod(2)] q(1,2) prod(1) by auto
  then show ?thesis
    using that True f(1) n by (simp add: needed_fee_def Let_def flip: x_def)
next
  case False
  have "\<exists>f. (if version < HF_VERSION_DYNAMIC_FEE then Inr FEE_PER_KB
        else get_dynamic_base_fee (fc_divide_qr c) (fee_mask c) reward m version) = Inr f \<and>
      unat f = (if version < HF_VERSION_DYNAMIC_FEE then 2000000000 else base_fee q version (unat reward) (unat m))"
    using per_kb_fee [OF div False q, of reward m] by (auto simp: FEE_PER_KB_def)
  then obtain f where f: "(if version < HF_VERSION_DYNAMIC_FEE then Inr FEE_PER_KB
        else get_dynamic_base_fee (fc_divide_qr c) (fee_mask c) reward m version) = Inr f"
    "unat f = (if version < HF_VERSION_DYNAMIC_FEE then 2000000000 else base_fee q version (unat reward) (unat m))"
    by blast
  define k where "k = w div 1024 + (if w mod 1024 \<noteq> 0 then 1 else 0)"
  have k: "unat k = (unat w + 1023) div 1024"
    unfolding k_def by (rule unat_ceil_kb)
  have "n = unat k * unat f"
    using needed(1) False f(2) k by (simp add: required_fee_def)
  then have "unat (k * f) = n"
    using needed(2) q(2) unat_mult_lem [of k f] by simp
  moreover have "needed_fee c version m reward w = Inr (k * f)"
    unfolding needed_fee_def Let_def k_def [symmetric] f(1) using False by simp
  ultimately show ?thesis
    using that by blast
qed

text \<open>
  C15. \<open>check_fee\<close> decides exactly: under every version of the rules it returns, its assertions
  do not fail, and it accepts the fees that reach 98 percent (rounded up) of the required fee,
  computed on unbounded numbers. The required fee is assumed to fit, with the quantization
  step added, into 64 bits; the step itself is at most \<open>2 ^ 60\<close>, that is up to 26 decimals.
\<close>

theorem check_fee_exact:
  assumes "divides_with_remainder (fc_divide_qr c)"
    and "q = unat (fee_mask c)" "0 < q" "q \<le> 2 ^ 60"
    and "m = m_current_block_cumul_weight_limit (fc_weights c) div 2"
    and "HF_VERSION_DYNAMIC_FEE \<le> version \<longrightarrow> base_reward_for_fee c m version = Inr (Some reward)"
    and "n = required_fee q version (unat reward) (unat m)
        (unat (m_long_term_effective_median_block_weight (fc_weights c))) (unat w)" "n + q \<le> 2 ^ 64"
  shows "check_fee c version w fee = Inr (n - n div 50 \<le> unat fee)"
proof -
  have accept: "(\<not> fee < r - r div 50) \<longleftrightarrow> n - n div 50 \<le> unat fee" if "unat r = n" for r
  proof -
    have "r div 50 \<le> r"
      by (simp add: word_le_nat_alt unat_div)
    then have "unat (r - r div 50) = n - n div 50"
      using that unat_sub [of "r div 50" r] by (simp add: unat_div)
    then show ?thesis
      by (simp add: word_less_nat_alt not_less)
  qed
  show ?thesis
  proof (cases "HF_VERSION_DYNAMIC_FEE \<le> version")
    case True
    obtain r where "needed_fee c version m reward w = Inr r" "unat r = n"
      using needed_fee_value [OF assms(1-4,7,8)] .
    then show ?thesis
      using True assms(5,6) accept by (simp add: check_fee_def Let_def)
  next
    case False
    then have "\<not> HF_VERSION_PER_BYTE_FEE \<le> version"
      by (simp add: HF_VERSION_PER_BYTE_FEE_def HF_VERSION_DYNAMIC_FEE_def word_le_nat_alt)
    then have "n = required_fee q version (unat 0) (unat 0)
        (unat (m_long_term_effective_median_block_weight (fc_weights c))) (unat w)"
      using assms(7) False by (simp add: required_fee_def)
    then obtain r where "needed_fee c version 0 0 w = Inr r" "unat r = n"
      using needed_fee_value [OF assms(1-4) _ assms(8), of version 0 0] by auto
    then show ?thesis
      using False accept by (simp add: check_fee_def Let_def)
  qed
qed

definition sample_fee_context :: fee_context where
  "sample_fee_context = \<lparr>fc_ops = word_ops, fc_divide_qr = (\<lambda>x y. (x div y, x mod y)), fc_config = default_config,
    fc_decimal_point = 12, fc_static_mask = 0, fc_height = 0, fc_already_generated_coins = 0,
    fc_weights = \<lparr>m_long_term_block_weights_window = 2, m_long_term_effective_median_block_weight = 300000,
      m_long_term_block_weights_cache_tip_hash = [], m_long_term_block_weights_cache_rolling_median = sample_memory,
      m_current_block_cumul_weight_limit = 600000, m_current_block_cumul_weight_median = 300000\<rparr>\<rparr>"

theorem check_fee_exact_witness:
  "check_fee sample_fee_context 10 2000 522673200 = Inr True \<and> check_fee sample_fee_context 10 2000 522673199 = Inr False"
proof -
  have div: "divides_with_remainder (fc_divide_qr sample_fee_context)"
    by (simp add: sample_fee_context_def divides_with_remainder_def)
  have mask: "10000 = unat (fee_mask sample_fee_context)"
    by (simp add: sample_fee_context_def fee_mask_def get_fee_quantization_mask_def mask_loop_value
        PER_KB_FEE_QUANTIZATION_DECIMALS_def)
  have m: "300000 = m_current_block_cumul_weight_limit (fc_weights sample_fee_context) div 2"
    by (simp add: sample_fee_context_def)
  have "\<exists>r. base_reward_for_fee sample_fee_context 300000 10 = Inr r \<and> map_option unat r = Some 40000000000000"
    using get_block_reward_value [OF word_ops_exact, of "\<lambda>x y. (x div y, x mod y)" default_config 0 300000 1 0 10]
    by (simp add: base_reward_for_fee_def sample_fee_context_def divides_with_remainder_def config_ok_def
        default_config_def COIN_DEFAULT_def get_min_block_weight_def emission_def)
  then obtain r where r: "base_reward_for_fee sample_fee_context 300000 10 = Inr (Some r)" "unat r = 40000000000000"
    by auto
  have n: "533340000 = required_fee 10000 10 (unat r) (unat (300000 :: u64))
      (unat (m_long_term_effective_median_block_weight (fc_weights sample_fee_context))) (unat (2000 :: u64))"
    by (simp add: required_fee_def base_fee_def round_up_def r(2) sample_fee_context_def get_min_block_weight_def
        HF_VERSION_PER_BYTE_FEE_def HF_VERSION_LONG_TERM_BLOCK_WEIGHT_def)
  show ?thesis
    using check_fee_exact [OF div mask _ _ m _ n] r(1) by simp
qed

end
