(* ===== verification/Wipeable_String.thy ===== *)
theory Wipeable_String
  imports Hex
begin

unbundle bit_operations_syntax

text \<open>
  The string type that holds secrets (\<open>contrib/epee/src/wipeable_string.cpp\<close>), as the bytes of
  its buffer: appending, trimming, splitting at white space and the second hexadecimal reader
  of the sources. Wiping does not change what an operation returns and is left out.
\<close>

section \<open>Definitions\<close>

definition ws_push_back :: "blob \<Rightarrow> byte \<Rightarrow> blob" where
  "ws_push_back s c = s @ [c]"

definition ws_append :: "blob \<Rightarrow> blob \<Rightarrow> blob result" where
  "ws_append s t = (if length s < 2 ^ 64 - 1 - length t then Inr (s @ t) else Inl Runtime_error)"

definition ws_pop_back :: "blob \<Rightarrow> (byte \<times> blob) result" where
  "ws_pop_back s = (if 0 < length s then Inr (last s, butlast s) else Inl Runtime_error)"

fun prefix_loop :: "blob \<Rightarrow> nat" where
  "prefix_loop [] = 0"
| "prefix_loop (c # cs) = (if c = 32 then Suc (prefix_loop cs) else 0)"

text \<open>
  \<open>memmove\<close> shifts the text to the front of the buffer and leaves its old end behind it; the
  second loop then looks backwards from the end of the shifted text.
\<close>

function suffix_loop :: "blob \<Rightarrow> nat \<Rightarrow> nat \<Rightarrow> nat" where
  "suffix_loop buffer left suffix =
    (if suffix < left \<and> buffer ! (left - 1 - suffix) = 32 then suffix_loop buffer left (suffix + 1) else suffix)"
  by pat_completeness auto

termination by (relation "measure (\<lambda>(b, l, s). l - s)") auto

declare suffix_loop.simps [simp del]

definition ws_trim :: "blob \<Rightarrow> blob" where
  "ws_trim s =
    (let prefix = prefix_loop s;
         buffer = drop prefix s @ drop (length s - prefix) s;
         suffix = suffix_loop buffer (length s - prefix) 0
     in take (length s - prefix - suffix) buffer)"

fun split_loop :: "bool \<Rightarrow> blob \<Rightarrow> blob list \<Rightarrow> blob list" where
  "split_loop space [] fields = fields"
| "split_loop space_prev (c # cs) fields =
    (let space = isspace c
     in if space then split_loop space cs fields
        else let fields = (if space_prev then fields @ [[]] else fields)
          in split_loop space cs (butlast fields @ [ws_push_back (last fields) c]))"

definition ws_split :: "blob \<Rightarrow> blob list" where
  "ws_split s = split_loop True s []"

definition atolower :: "byte \<Rightarrow> byte" where
  "atolower c = (if 65 \<le> c \<and> c \<le> 90 then c OR 32 else c)"

text \<open>The C function \<open>strchr\<close>: the terminating zero is part of the text it searches.\<close>

fun strchr :: "blob \<Rightarrow> byte \<Rightarrow> nat option" where
  "strchr [] c = (if c = 0 then Some 0 else None)"
| "strchr (x # xs) c = (if x = c then Some 0 else map_option Suc (strchr xs c))"

fun parse_hexstr_loop :: "blob \<Rightarrow> blob \<Rightarrow> blob option" where
  "parse_hexstr_loop res (c # c2 # d) =
    (case strchr hex_digits (atolower c) of None \<Rightarrow> None
     | Some i \<Rightarrow> (case strchr hex_digits (atolower c2) of None \<Rightarrow> None
       | Some j \<Rightarrow> parse_hexstr_loop (ws_push_back res (push_bit 4 (of_nat i) OR of_nat j)) d))"
| "parse_hexstr_loop res _ = Some res"

definition parse_hexstr :: "blob \<Rightarrow> blob option" where
  "parse_hexstr s = (if length s mod 2 \<noteq> 0 then None else parse_hexstr_loop [] s)"

section \<open>Trimming\<close>

lemma prefix_loop_takeWhile: "prefix_loop s = length (takeWhile (\<lambda>c. c = 32) s)"
  by (induction s) auto

lemma suffix_loop_spaces:
  assumes "left \<le> length buffer" "suffix \<le> left"
  shows "take (left - suffix_loop buffer left suffix) buffer =
    rev (dropWhile (\<lambda>c. c = 32) (rev (take (left - suffix) buffer)))"
  using assms
proof (induction buffer left suffix rule: suffix_loop.induct)
  case (1 buffer left suffix)
  show ?case
  proof (cases "suffix < left")
    case True
    then have "take (left - suffix) buffer = take (left - Suc suffix) buffer @ [buffer ! (left - 1 - suffix)]"
      using 1(2) by (simp add: take_Suc_conv_app_nth [symmetric] Suc_diff_Suc)
    then show ?thesis
      using 1 True by (cases "buffer ! (left - 1 - suffix) = 32") (simp_all add: suffix_loop.simps [of buffer left suffix])
  qed (use 1 in \<open>simp add: suffix_loop.simps\<close>)
qed

lemma ws_trim_strips:
  "ws_trim s = rev (dropWhile (\<lambda>c. c = 32) (rev (dropWhile (\<lambda>c. c = 32) s)))"
proof -
  define p where "p = prefix_loop s"
  define b where "b = drop p s @ drop (length s - p) s"
  have p: "p \<le> length s" "drop p s = dropWhile (\<lambda>c. c = 32) s"
    by (simp_all add: p_def prefix_loop_takeWhile length_takeWhile_le dropWhile_eq_drop)
  have "ws_trim s = take (length s - p - suffix_loop b (length s - p) 0) b"
    by (simp add: ws_trim_def Let_def p_def b_def)
  also have "\<dots> = rev (dropWhile (\<lambda>c. c = 32) (rev (take (length s - p) b)))"
    using suffix_loop_spaces [of "length s - p" b 0] p(1) by (simp add: b_def)
  also have "take (length s - p) b = dropWhile (\<lambda>c. c = 32) s"
    unfolding p(2) [symmetric] by (simp add: b_def)
  finally show ?thesis .
qed

section \<open>Splitting\<close>

definition plain_word :: "blob \<Rightarrow> bool" where
  "plain_word w \<longleftrightarrow> w \<noteq> [] \<and> list_all (\<lambda>c. \<not> isspace c) w"

lemma split_loop_in_word:
  "list_all (\<lambda>c. \<not> isspace c) w \<Longrightarrow>
    split_loop False (w @ s) (fields @ [f]) = split_loop False s (fields @ [f @ w])"
  by (induction w arbitrary: f) (simp_all add: ws_push_back_def)

lemma split_loop_word:
  assumes "plain_word w"
  shows "split_loop True (w @ s) fields = split_loop False s (fields @ [w])"
proof -
  obtain c cs where w: "w = c # cs" "\<not> isspace c" "list_all (\<lambda>c. \<not> isspace c) cs"
    using assms by (cases w) (auto simp: plain_word_def)
  then show ?thesis
    using split_loop_in_word [OF w(3), of s fields "[c]"] by (simp add: ws_push_back_def)
qed

fun join_words :: "blob list \<Rightarrow> blob" where
  "join_words [] = []"
| "join_words [w] = w"
| "join_words (w # ws) = w @ 32 # join_words ws"

lemma split_loop_join: "list_all plain_word ws \<Longrightarrow> split_loop True (join_words ws) fields = fields @ ws"
proof (induction ws arbitrary: fields rule: join_words.induct)
  case (2 w)
  then show ?case
    using split_loop_word [of w "[]" fields] by simp
next
  case (3 w v ws)
  then show ?case
    using split_loop_word [of w "32 # join_words (v # ws)" fields] by (simp add: isspace_def)
qed simp

lemma ws_split_join: "list_all plain_word ws \<Longrightarrow> ws_split (join_words ws) = ws"
  by (simp add: ws_split_def split_loop_join)

section \<open>The second hexadecimal reader\<close>

lemma strchr_isx:
  assumes "c \<noteq> 0"
  shows "strchr hex_digits (atolower c) = (if isx ! unat c = 0xff then None else Some (unat (isx ! unat c)))"
proof -
  have "list_all2 (\<lambda>c t. c \<noteq> 0 \<longrightarrow> strchr hex_digits (atolower c) = (if t = 0xff then None else Some (unat t)))
      (map word_of_int [0..255]) isx"
    by code_simp
  from all_entries [OF this] assms show ?thesis
    by blast
qed

lemma parse_hexstr_loop_hex:
  "0 \<notin> set s \<Longrightarrow> parse_hexstr_loop res s = map_option ((@) res) (hex_loop s)"
proof (induction s arbitrary: res rule: hex_loop.induct)
  case (1 c c2 s)
  then show ?case
    by (auto simp: strchr_isx Let_def ws_push_back_def option.map_comp comp_def split: option.splits)
qed simp_all

text \<open>
  C27. The reader of hexadecimal text in \<open>wipeable_string\<close> agrees with \<open>from_hex\<close> on every text
  without a zero byte. A zero byte it takes for a digit, because \<open>strchr\<close> finds the terminator
  of the digit string: two zero bytes are read as the byte 16 where \<open>from_hex\<close> refuses.
\<close>

theorem parse_hexstr_agrees:
  "(0 \<notin> set s \<longrightarrow> parse_hexstr s = from_hex s) \<and> parse_hexstr [0, 0] = Some [16] \<and> from_hex [0, 0] = None"
proof -
  have "parse_hexstr [0, 0] = Some [16]" "from_hex [0, 0] = None"
    by code_simp+
  moreover have "parse_hexstr s = from_hex s" if "0 \<notin> set s"
    using parse_hexstr_loop_hex [OF that, of "[]"]
    by (cases "hex_loop s") (auto simp: parse_hexstr_def from_hex_def to_buffer_unchecked_def mod_2_eq_odd)
  ultimately show ?thesis
    by blast
qed

theorem parse_hexstr_agrees_witness: "parse_hexstr [0x42, 0x65] = from_hex [0x42, 0x65]"
  using parse_hexstr_agrees [of "[0x42, 0x65]"] by simp

end
