(* ===== verification/Mnemonics.thy ===== *)
theory Mnemonics
  imports Wipeable_String Digits
begin

unbundle bit_operations_syntax

text \<open>
  Seed words (\<open>mnemonics/electrum-words.cpp\<close>, \<open>mnemonics/language_base.h\<close>) and the canonical
  form of words (\<open>common/utf8.h\<close>): a key becomes three words for every four bytes and one more
  word as a checksum, and is read back from them. The word lists are data and stand in the
  parameter \<open>languages\<close>; \<open>towlower\<close> of the C library and the CRC of Boost are parameters.
\<close>

section \<open>Canonical words\<close>

text \<open>One character: its code point and the rest of the text, or the exception for bad UTF-8.\<close>

definition utf8_decode :: "blob \<Rightarrow> (u32 \<times> blob) result" where
  "utf8_decode s =
    (case s of [] \<Rightarrow> Inl Out_of_range
     | c # s \<Rightarrow>
       if c AND 0x80 = 0 then Inr (ucast c, s)
       else if c AND 0xe0 = 0xc0 then
         (case s of c1 # s \<Rightarrow> Inr (push_bit 6 (ucast (c AND 0x1f)) OR ucast (c1 AND 0x3f), s)
          | _ \<Rightarrow> Inl Runtime_error)
       else if c AND 0xf0 = 0xe0 then
         (case s of c1 # c2 # s \<Rightarrow>
            Inr (push_bit 12 (ucast (c AND 0xf)) OR push_bit 6 (ucast (c1 AND 0x3f)) OR ucast (c2 AND 0x3f), s)
          | _ \<Rightarrow> Inl Runtime_error)
       else if c AND 0xf8 = 0xf0 then
         (case s of c1 # c2 # c3 # s \<Rightarrow>
            Inr (push_bit 18 (ucast (c AND 0x7)) OR push_bit 12 (ucast (c1 AND 0x3f)) OR
                 push_bit 6 (ucast (c2 AND 0x3f)) OR ucast (c3 AND 0x3f), s)
          | _ \<Rightarrow> Inl Runtime_error)
       else Inl Runtime_error)"

definition utf8_encode :: "u32 \<Rightarrow> blob result" where
  "utf8_encode cp =
    (if cp \<le> 0x7f then Inr [ucast cp]
     else if cp \<le> 0x7ff then Inr [0xc0 OR ucast (drop_bit 6 cp), 0x80 OR ucast (cp AND 0x3f)]
     else if cp \<le> 0xffff then
       Inr [0xe0 OR ucast (drop_bit 12 cp), 0x80 OR ucast (drop_bit 6 cp AND 0x3f), 0x80 OR ucast (cp AND 0x3f)]
     else if cp \<le> 0x10ffff then
       Inr [0xf0 OR ucast (drop_bit 18 cp), 0x80 OR ucast (drop_bit 12 cp AND 0x3f),
            0x80 OR ucast (drop_bit 6 cp AND 0x3f), 0x80 OR ucast (cp AND 0x3f)]
     else Inl Runtime_error)"

lemma utf8_decode_shorter: "utf8_decode s = Inr (cp, r) \<Longrightarrow> length r < length s"
  by (auto simp: utf8_decode_def split: list.splits if_splits)

declare and_then_cong [fundef_cong]

function utf8canonical :: "(u32 \<Rightarrow> u32) \<Rightarrow> blob \<Rightarrow> blob result" where
  "utf8canonical t s =
    (if s = [] then Inr []
     else and_then (utf8_decode s) (\<lambda>(cp, r). and_then (utf8_encode (t cp)) (\<lambda>b.
       and_then (utf8canonical t r) (\<lambda>sc. Inr (b @ sc)))))"
  by pat_completeness auto

termination by (relation "measure (length \<circ> snd)") (auto dest: utf8_decode_shorter)

declare utf8canonical.simps [simp del]

text \<open>The first characters of a word, without a check of their form.\<close>

definition continuation :: "byte \<Rightarrow> bool" where
  "continuation c \<longleftrightarrow> c AND 0xc0 = 0x80"

fun utf8prefix :: "nat \<Rightarrow> blob \<Rightarrow> blob" where
  "utf8prefix (Suc n) (c # s) = c # takeWhile continuation s @ utf8prefix n (dropWhile continuation s)"
| "utf8prefix _ _ = []"

section \<open>Languages\<close>

definition NWORDS :: nat where
  "NWORDS = 1626"

text \<open>
  The two hash tables compare words by their canonical form, so they are maps from canonical
  forms; the second also keeps the key it was first given.
\<close>

record language =
  lang_name :: blob
  lang_english_name :: blob
  lang_words :: "blob list"
  lang_prefix_length :: nat
  lang_word_map :: "blob \<Rightarrow> nat option"
  lang_trimmed_map :: "blob \<Rightarrow> (blob \<times> nat) option"

definition trimmed :: "nat \<Rightarrow> blob \<Rightarrow> blob" where
  "trimmed n w = (if n < length w then utf8prefix n w else w)"

fun populate_loop ::
  "(u32 \<Rightarrow> u32) \<Rightarrow> bool \<Rightarrow> bool \<Rightarrow> nat \<Rightarrow> blob list \<Rightarrow> language \<Rightarrow> language result" where
  "populate_loop t allow_short allow_duplicate ii [] l = Inr l"
| "populate_loop t allow_short allow_duplicate ii (w # ws) l =
    and_then (utf8canonical t w) (\<lambda>key.
    let l = l\<lparr>lang_word_map := (lang_word_map l)(key \<mapsto> ii)\<rparr>
    in if length w < lang_prefix_length l \<and> \<not> allow_short then Inl Runtime_error
       else let trimmed = trimmed (lang_prefix_length l) w
         in and_then (utf8canonical t trimmed) (\<lambda>key.
            case lang_trimmed_map l key of
              None \<Rightarrow> populate_loop t allow_short allow_duplicate (ii + 1) ws
                (l\<lparr>lang_trimmed_map := (lang_trimmed_map l)(key \<mapsto> (trimmed, ii))\<rparr>)
            | Some (first, _) \<Rightarrow>
                if \<not> allow_duplicate then Inl Runtime_error
                else populate_loop t allow_short allow_duplicate (ii + 1) ws
                  (l\<lparr>lang_trimmed_map := (lang_trimmed_map l)(key \<mapsto> (first, ii))\<rparr>)))"

definition populate_maps :: "(u32 \<Rightarrow> u32) \<Rightarrow> bool \<Rightarrow> bool \<Rightarrow> language \<Rightarrow> language result" where
  "populate_maps t allow_short allow_duplicate l =
    (if length (lang_words l) \<noteq> NWORDS then Inl Runtime_error
     else populate_loop t allow_short allow_duplicate 0 (lang_words l) l)"

definition new_language :: "blob \<Rightarrow> blob \<Rightarrow> blob list \<Rightarrow> nat \<Rightarrow> language" where
  "new_language name english_name words prefix_length =
    \<lparr>lang_name = name, lang_english_name = english_name, lang_words = words, lang_prefix_length = prefix_length,
     lang_word_map = Map.empty, lang_trimmed_map = Map.empty\<rparr>"

section \<open>The checksum word\<close>

fun trimmed_words :: "(u32 \<Rightarrow> u32) \<Rightarrow> language \<Rightarrow> blob list \<Rightarrow> blob result" where
  "trimmed_words t l [] = Inr []"
| "trimmed_words t l (w # ws) =
    and_then (utf8canonical t (utf8prefix (lang_prefix_length l) w)) (\<lambda>key.
    case lang_trimmed_map l key of None \<Rightarrow> Inl Runtime_error
    | Some (first, _) \<Rightarrow> and_then (trimmed_words t l ws) (\<lambda>rest. Inr (first @ rest)))"

definition create_checksum_index :: "(u32 \<Rightarrow> u32) \<Rightarrow> (blob \<Rightarrow> u32) \<Rightarrow> language \<Rightarrow> blob list \<Rightarrow> nat result" where
  "create_checksum_index t crc l word_list =
    and_then (trimmed_words t l word_list) (\<lambda>trimmed_words.
    if length word_list = 0 then Inl Division_by_zero else Inr (unat (crc trimmed_words) mod length word_list))"

definition checksum_test :: "(u32 \<Rightarrow> u32) \<Rightarrow> (blob \<Rightarrow> u32) \<Rightarrow> language \<Rightarrow> blob list \<Rightarrow> bool result" where
  "checksum_test t crc l seed =
    (if seed = [] then Inr False
     else let last_word = last seed; seed = butlast seed
       in and_then (create_checksum_index t crc l seed) (\<lambda>idx. and_then (at seed idx) (\<lambda>checksum.
          and_then (utf8canonical t (trimmed (lang_prefix_length l) checksum)) (\<lambda>s0.
          and_then (utf8canonical t (trimmed (lang_prefix_length l) last_word)) (\<lambda>s1.
          Inr (s0 = s1))))))"

section \<open>From words to bytes\<close>

text \<open>The indices of the words in one language, or \<open>None\<close> when one is missing.\<close>

fun match_words :: "(u32 \<Rightarrow> u32) \<Rightarrow> bool \<Rightarrow> language \<Rightarrow> blob list \<Rightarrow> nat list option result" where
  "match_words t has_checksum l [] = Inr (Some [])"
| "match_words t has_checksum l (w # ws) =
    and_then (if has_checksum
      then and_then (utf8canonical t (utf8prefix (lang_prefix_length l) w)) (\<lambda>key. Inr (map_option snd (lang_trimmed_map l key)))
      else and_then (utf8canonical t w) (\<lambda>key. Inr (lang_word_map l key))) (\<lambda>i.
    case i of None \<Rightarrow> Inr None
    | Some i \<Rightarrow> and_then (match_words t has_checksum l ws) (\<lambda>is. Inr (map_option ((#) i) is)))"

fun find_seed_language_loop ::
  "(u32 \<Rightarrow> u32) \<Rightarrow> (blob \<Rightarrow> u32) \<Rightarrow> blob list \<Rightarrow> bool \<Rightarrow> language option \<Rightarrow> language list \<Rightarrow> (language \<times> nat list) option result" where
  "find_seed_language_loop t crc seed has_checksum fallback [] =
    Inr (case fallback of None \<Rightarrow> None | Some l \<Rightarrow> Some (l, []))"
| "find_seed_language_loop t crc seed has_checksum fallback (l # ls) =
    and_then (match_words t has_checksum l seed) (\<lambda>m.
    case m of None \<Rightarrow> find_seed_language_loop t crc seed has_checksum fallback ls
    | Some matched_indices \<Rightarrow>
        and_then (if has_checksum then checksum_test t crc l seed else Inr True) (\<lambda>full_match.
        if full_match then Inr (Some (l, matched_indices))
        else find_seed_language_loop t crc seed has_checksum (Some l) ls))"

definition find_seed_language ::
  "(u32 \<Rightarrow> u32) \<Rightarrow> (blob \<Rightarrow> u32) \<Rightarrow> language list \<Rightarrow> blob list \<Rightarrow> bool \<Rightarrow> (language \<times> nat list) option result" where
  "find_seed_language t crc languages seed has_checksum = find_seed_language_loop t crc seed has_checksum None languages"

text \<open>Three words and four bytes, in 32-bit arithmetic on the size \<open>n\<close> of the word list.\<close>

definition word_triple :: "u32 \<Rightarrow> u32 \<Rightarrow> u32 \<times> u32 \<times> u32" where
  "word_triple n w0 =
    (let w1 = w0 mod n;
         w2 = (w0 div n + w1) mod n;
         w3 = (w0 div n div n + w2) mod n
     in (w1, w2, w3))"

definition triple_word :: "u32 \<Rightarrow> u32 \<Rightarrow> u32 \<Rightarrow> u32 \<Rightarrow> u32 option" where
  "triple_word n w1 w2 w3 =
    (let w0 = w1 + n * ((n - w1 + w2) mod n) + n * n * ((n - w2 + w3) mod n)
     in if \<not> w0 mod n = w1 then None else Some w0)"

definition le32 :: "blob \<Rightarrow> u32" where
  "le32 bs = word_of_int (le_int bs)"

definition bytes32 :: "u32 \<Rightarrow> blob" where
  "bytes32 w = map (\<lambda>i. ucast (drop_bit (8 * i) w)) [0..<4]"

fun triples_loop :: "u32 \<Rightarrow> nat \<Rightarrow> nat \<Rightarrow> nat list \<Rightarrow> blob \<Rightarrow> blob option result" where
  "triples_loop n i 0 matched_indices dst = Inr (Some dst)"
| "triples_loop n i (Suc k) matched_indices dst =
    and_then (at matched_indices (i * 3)) (\<lambda>w1. and_then (at matched_indices (i * 3 + 1)) (\<lambda>w2.
    and_then (at matched_indices (i * 3 + 2)) (\<lambda>w3.
    case triple_word n (of_nat w1) (of_nat w2) (of_nat w3) of None \<Rightarrow> Inr None
    | Some w0 \<Rightarrow> triples_loop n (i + 1) k matched_indices (dst @ bytes32 w0))))"

definition words_to_bytes ::
  "(u32 \<Rightarrow> u32) \<Rightarrow> (blob \<Rightarrow> u32) \<Rightarrow> language list \<Rightarrow> blob \<Rightarrow> nat \<Rightarrow> bool \<Rightarrow> (blob \<times> blob) option result" where
  "words_to_bytes t crc languages words len duplicate =
    (let seed = ws_split words;
         expected = len * 8 * 3 div 32
     in if len mod 4 \<noteq> 0 then Inr None
        else if len \<noteq> 0 \<and> length seed \<noteq> expected div 2 \<and> length seed \<noteq> expected \<and> length seed \<noteq> expected + 1
        then Inr None
        else let has_checksum = (if len \<noteq> 0 then length seed = expected + 1 else True)
          in and_then (find_seed_language t crc languages seed has_checksum) (\<lambda>found.
             case found of None \<Rightarrow> Inr None
             | Some (l, matched_indices) \<Rightarrow>
                 and_then (if has_checksum then checksum_test t crc l seed else Inr True) (\<lambda>ok.
                 if \<not> ok then Inr None
                 else let seed = (if has_checksum then butlast seed else seed)
                   in and_then (triples_loop (of_nat (length (lang_words l))) 0 (length seed div 3) matched_indices [])
                     (\<lambda>dst. case dst of None \<Rightarrow> Inr None
                      | Some dst \<Rightarrow> Inr (Some (if 0 < len \<and> duplicate \<and> length seed = len * 3 div 32 div 2
                          then dst @ dst else dst, lang_name l))))))"

definition words_to_secret_key ::
  "(u32 \<Rightarrow> u32) \<Rightarrow> (blob \<Rightarrow> u32) \<Rightarrow> language list \<Rightarrow> blob \<Rightarrow> (blob \<times> blob) option result" where
  "words_to_secret_key t crc languages words =
    and_then (words_to_bytes t crc languages words 32 True) (\<lambda>r.
    case r of None \<Rightarrow> Inr None
    | Some (s, name) \<Rightarrow> Inr (if length s \<noteq> 32 then None else Some (s, name)))"

section \<open>From bytes to words\<close>

fun words_loop :: "blob list \<Rightarrow> blob \<Rightarrow> (blob \<times> blob list) result" where
  "words_loop word_list (b0 # b1 # b2 # b3 # src) =
    (let (w1, w2, w3) = word_triple (of_nat (length word_list)) (le32 [b0, b1, b2, b3])
     in and_then (at word_list (unat w1)) (\<lambda>s1. and_then (at word_list (unat w2)) (\<lambda>s2.
        and_then (at word_list (unat w3)) (\<lambda>s3. and_then (words_loop word_list src) (\<lambda>(words, words_store).
        Inr (s1 @ 32 # s2 @ 32 # s3 @ 32 # words, s1 # s2 # s3 # words_store))))))"
| "words_loop word_list _ = Inr ([], [])"

definition named_language :: "language list \<Rightarrow> blob \<Rightarrow> language option" where
  "named_language languages name =
    foldl (\<lambda>found l. if name = lang_name l \<or> name = lang_english_name l then Some l else found) None languages"

definition bytes_to_words ::
  "(u32 \<Rightarrow> u32) \<Rightarrow> (blob \<Rightarrow> u32) \<Rightarrow> language list \<Rightarrow> blob \<Rightarrow> blob \<Rightarrow> blob option result" where
  "bytes_to_words t crc languages src language_name =
    (if length src mod 4 \<noteq> 0 \<or> length src = 0 then Inr None
     else case named_language languages language_name of None \<Rightarrow> Inr None
     | Some l \<Rightarrow>
         and_then (words_loop (lang_words l) src) (\<lambda>(words, words_store).
         and_then (create_checksum_index t crc l words_store) (\<lambda>idx. and_then (at words_store idx) (\<lambda>checksum.
         Inr (Some (words @ checksum))))))"

section \<open>Questions about languages and seeds\<close>

definition get_language_list :: "language list \<Rightarrow> blob list \<Rightarrow> bool \<Rightarrow> blob list" where
  "get_language_list language_instances languages english =
    languages @ map (\<lambda>l. if english then lang_english_name l else lang_name l) language_instances"

definition seed_length :: nat where
  "seed_length = 24"

definition get_is_old_style_seed :: "blob \<Rightarrow> bool" where
  "get_is_old_style_seed seed \<longleftrightarrow> length (ws_split seed) \<noteq> seed_length + 1"

fun get_english_name_for :: "language list \<Rightarrow> blob \<Rightarrow> blob" where
  "get_english_name_for (l # ls) name = (if lang_name l = name then lang_english_name l else get_english_name_for ls name)"
| "get_english_name_for [] name =
    [60, 108, 97, 110, 103, 117, 97, 103, 101, 32, 110, 111, 116, 32, 102, 111, 117, 110, 100, 62]"

section \<open>Three words for four bytes\<close>

lemma triple_shift:
  fixes n a b :: nat
  assumes "b < n"
  shows "(n - b + (a + b) mod n) mod n = a mod n"
proof -
  have "(n - b + (a + b) mod n) mod n = (n - b + (a + b)) mod n"
    by (simp add: mod_add_right_eq)
  also have "n - b + (a + b) = a + n"
    using assms by simp
  finally show ?thesis
    by simp
qed

lemma unat_add_u32: "unat x + unat y < 2 ^ 32 \<Longrightarrow> unat (x + y) = unat x + unat y" for x y :: u32
  using unat_add_lem [of x y] by simp

lemma unat_back:
  fixes b c :: u32
  assumes "unat b < 1626" "unat c < 1626"
  shows "unat ((1626 - b + c) mod 1626) = (1626 - unat b + unat c) mod 1626"
proof -
  have "b \<le> 1626"
    using assms(1) by (simp add: word_le_nat_alt)
  then have "unat (1626 - b) = 1626 - unat b"
    using unat_sub [of b 1626] by simp
  moreover from this have "unat (1626 - b + c) = unat (1626 - b) + unat c"
    using assms by (intro unat_add_u32) simp
  ultimately have "unat (1626 - b + c) = 1626 - unat b + unat c"
    by simp
  then show ?thesis
    by (simp add: unat_mod)
qed

lemma unat_word_triple:
  assumes "word_triple 1626 w = (w1, w2, w3)"
  shows "unat w1 = unat w mod 1626" "unat w2 = (unat w div 1626 + unat w1) mod 1626"
    "unat w3 = (unat w div 1626 div 1626 + unat w2) mod 1626"
proof -
  have w: "unat w < 2 ^ 32"
    using unsigned_less [of w, where ?'a = nat] by simp
  have eq: "w1 = w mod 1626" "w2 = (w div 1626 + w1) mod 1626" "w3 = (w div 1626 div 1626 + w2) mod 1626"
    using assms by (auto simp: word_triple_def Let_def)
  show w1: "unat w1 = unat w mod 1626"
    by (simp add: eq(1) unat_mod)
  have "unat w div 1626 < 2 ^ 31"
    using w by (simp add: less_mult_imp_div_less)
  moreover have "unat w1 < 1626"
    by (simp add: w1)
  ultimately have "unat (w div 1626 + w1) = unat w div 1626 + unat w1"
    using unat_add_u32 [of "w div 1626" w1] by (simp add: unat_div)
  then show w2: "unat w2 = (unat w div 1626 + unat w1) mod 1626"
    by (simp add: eq(2) unat_mod)
  have "unat w div 1626 div 1626 < 2 ^ 31"
    using \<open>unat w div 1626 < 2 ^ 31\<close> by (simp add: less_mult_imp_div_less)
  moreover have "unat w2 < 1626"
    by (simp add: w2)
  ultimately have "unat (w div 1626 div 1626 + w2) = unat w div 1626 div 1626 + unat w2"
    using unat_add_u32 [of "w div 1626 div 1626" w2] by (simp add: unat_div)
  then show "unat w3 = (unat w div 1626 div 1626 + unat w2) mod 1626"
    by (simp add: eq(3) unat_mod)
qed

lemma unat_triple_word:
  fixes w1 w2 w3 :: u32
  assumes "unat w1 < 1626" "unat w2 < 1626" "unat w3 < 1626"
  defines "v \<equiv> unat w1 + 1626 * ((1626 - unat w1 + unat w2) mod 1626) +
    1626 * 1626 * ((1626 - unat w2 + unat w3) mod 1626)"
  shows "triple_word 1626 w1 w2 w3 = (if v mod 2 ^ 32 mod 1626 = unat w1 then Some (of_nat v) else None)"
proof -
  have "of_nat v = w1 + 1626 * ((1626 - w1 + w2) mod 1626) + 1626 * 1626 * ((1626 - w2 + w3) mod 1626)"
    unfolding v_def unat_back [OF assms(1,2), symmetric] unat_back [OF assms(2,3), symmetric]
      of_nat_add of_nat_mult by simp
  moreover have "(of_nat v mod 1626 = w1) \<longleftrightarrow> v mod 2 ^ 32 mod 1626 = unat w1"
    by (simp add: word_unat_eq_iff unat_mod unat_of_nat)
  ultimately show ?thesis
    by (simp add: triple_word_def Let_def)
qed

lemma triple_word_of_triple:
  assumes "word_triple 1626 w = (w1, w2, w3)"
  shows "triple_word 1626 w1 w2 w3 = Some w" "unat w1 < 1626" "unat w2 < 1626" "unat w3 < 1626"
proof -
  note t = unat_word_triple [OF assms]
  define a where "a = unat w div 1626"
  have w: "unat w < 2 ^ 32"
    using unsigned_less [of w, where ?'a = nat] by simp
  show r: "unat w1 < 1626" "unat w2 < 1626" "unat w3 < 1626"
    using t by simp_all
  have "(1626 - unat w1 + unat w2) mod 1626 = a mod 1626" "(1626 - unat w2 + unat w3) mod 1626 = a div 1626 mod 1626"
    unfolding t(2,3) a_def [symmetric] using triple_shift [OF r(1), of a] triple_shift [OF r(2), of "a div 1626"]
    by (simp_all only: t(2) a_def)
  moreover have "a div 1626 < 1626"
    using w by (simp add: a_def less_mult_imp_div_less)
  ultimately have "unat w1 + 1626 * ((1626 - unat w1 + unat w2) mod 1626) +
      1626 * 1626 * ((1626 - unat w2 + unat w3) mod 1626) = unat w1 + 1626 * (a mod 1626) + 1626 * 1626 * (a div 1626)"
    by simp
  also have "\<dots> = unat w"
  proof -
    have "a div 1626 * 1626 + a mod 1626 = a" "a * 1626 + unat w1 = unat w"
      by (simp_all add: a_def t(1))
    then show ?thesis
      by linarith
  qed
  finally show "triple_word 1626 w1 w2 w3 = Some w"
    using w t(1) by (simp only: unat_triple_word [OF r]) simp
qed

lemma triple_of_triple_word:
  assumes r: "unat w1 < 1626" "unat w2 < 1626" "unat w3 < 1626" and w: "triple_word 1626 w1 w2 w3 = Some w"
  shows "word_triple 1626 w = (w1, w2, w3)"
proof -
  define x y where "x = (1626 - unat w1 + unat w2) mod 1626" and "y = (1626 - unat w2 + unat w3) mod 1626"
  define v where "v = unat w1 + 1626 * (x + 1626 * y)"
  have eq: "unat w1 + 1626 * x + 1626 * 1626 * y = v"
    by (simp add: v_def distrib_left)
  have v: "w = of_nat v" "v mod 2 ^ 32 mod 1626 = unat w1"
    using w unfolding unat_triple_word [OF r, folded x_def y_def, unfolded eq] by (auto split: if_splits)
  have v_mod: "v mod 1626 = unat w1" and d: "v div 1626 = x + 1626 * y"
    using r(1) by (simp_all add: v_def del: distrib_left_numeral)
  have xy: "x < 1626" "y < 1626"
    by (simp_all add: x_def y_def)
  have "v < 2 ^ 32"
  proof (rule ccontr)
    assume "\<not> v < 2 ^ 32"
    moreover have "v < 2 * 2 ^ 32"
      using r(1) xy by (simp add: v_def)
    ultimately have "v mod 2 ^ 32 = v - 2 ^ 32"
      by (simp add: mod_if)
    then have "(v - 2 ^ 32) mod 1626 = v mod 1626"
      using v(2) v_mod by simp
    then have "1626 dvd (2 :: nat) ^ 32"
      using \<open>\<not> v < 2 ^ 32\<close> mod_eq_dvd_iff_nat [of "v - 2 ^ 32" v 1626] by simp
    then show False
      by simp
  qed
  then have uv: "unat w = v"
    by (simp add: v(1) unat_of_nat)
  obtain u1 u2 u3 where u: "word_triple 1626 w = (u1, u2, u3)"
    by (metis prod_cases3)
  note t = unat_word_triple [OF u, unfolded uv]
  have u1: "unat u1 = unat w1"
    using t(1) v_mod by simp
  moreover have "unat u2 = unat w2"
  proof -
    have "(x + 1626 * y + unat w1) mod 1626 = (x + unat w1) mod 1626"
      using mod_mult_self2 [of "x + unat w1" 1626 y] by (simp add: ac_simps)
    also have "\<dots> = (1626 - unat w1 + unat w2 + unat w1) mod 1626"
      by (simp add: x_def mod_add_left_eq)
    also have "1626 - unat w1 + unat w2 + unat w1 = unat w2 + 1626"
      using r(1) by simp
    finally show ?thesis
      unfolding t(2) d u1 using r(2) by simp
  qed
  moreover have "unat u3 = unat w3"
  proof -
    have "v div 1626 div 1626 = y"
      using xy by (simp add: d)
    moreover have "(y + unat w2) mod 1626 = (1626 - unat w2 + unat w3 + unat w2) mod 1626"
      by (simp add: y_def mod_add_left_eq)
    moreover have "1626 - unat w2 + unat w3 + unat w2 = unat w3 + 1626"
      using r(2) by simp
    ultimately show ?thesis
      using t(3) r(3) \<open>unat u2 = unat w2\<close> by simp
  qed
  ultimately show ?thesis
    using u by (simp add: word_unat_eq_iff)
qed

lemma bytes32_le32:
  assumes "length bs = 4"
  shows "bytes32 (le32 bs) = bs"
proof -
  have "le_int bs < 2 ^ 32"
    using le_int_bounds(2) [of bs] assms by simp
  then have take: "take_bit 32 (le_int bs) = le_int bs"
    using le_int_bounds(1) [of bs] by (simp add: take_bit_int_eq_self)
  from \<open>le_int bs < 2 ^ 32\<close> have int: "uint (le32 bs) = le_int bs"
    using le_int_bounds(1) [of bs] by (simp add: le32_def uint_word_of_int)
  have "uint (ucast (drop_bit (8 * i) (le32 bs)) :: byte) = uint (bs ! i)" if "i < 4" for i
  proof -
    have "uint (ucast (drop_bit (8 * i) (le32 bs)) :: byte) = take_bit 8 (drop_bit (8 * i) (le_int bs))"
      by (simp add: unsigned_ucast_eq unsigned_drop_bit_eq int take)
    also have "\<dots> = uint (bs ! i)"
      using le_int_byte [of i bs] that assms by (simp add: digit_def)
    finally show ?thesis .
  qed
  then show ?thesis
    using assms by (intro nth_equalityI) (simp_all add: bytes32_def word_uint_eq_iff)
qed

lemma length_bytes32 [simp]: "length (bytes32 w) = 4"
  by (simp add: bytes32_def)

section \<open>A populated language\<close>

lemma utf8prefix_short: "length w \<le> n \<Longrightarrow> utf8prefix n w = w"
proof (induction n w rule: utf8prefix.induct)
  case (1 n c s)
  have "length (dropWhile continuation s) \<le> n"
    using 1(2) length_dropWhile_le [of continuation s] by simp
  then show ?case
    using 1(1) by simp
qed auto

lemma utf8prefix_trimmed: "utf8prefix n w = trimmed n w"
  by (simp add: trimmed_def utf8prefix_short)

text \<open>Every word is found under its trimmed form, with that form as the key and its own index.\<close>

definition knows :: "(u32 \<Rightarrow> u32) \<Rightarrow> language \<Rightarrow> nat \<Rightarrow> blob \<Rightarrow> bool" where
  "knows t l i w \<longleftrightarrow> (\<exists>key. utf8canonical t (trimmed (lang_prefix_length l) w) = Inr key \<and>
    lang_trimmed_map l key = Some (trimmed (lang_prefix_length l) w, i))"

lemma no_pair: "(\<forall>a b. x \<noteq> Some (a, b)) \<longleftrightarrow> x = None"
  by (cases x) auto

lemma populate_loop_knows:
  "populate_loop t short False ii ws l = Inr l' \<Longrightarrow>
    lang_words l' = lang_words l \<and> lang_prefix_length l' = lang_prefix_length l \<and> lang_name l' = lang_name l \<and>
    lang_trimmed_map l \<subseteq>\<^sub>m lang_trimmed_map l' \<and> (\<forall>j < length ws. knows t l' (ii + j) (ws ! j))"
proof (induction ws arbitrary: ii l)
  case (Cons w ws)
  obtain k1 k2 where k: "utf8canonical t w = Inr k1"
    "utf8canonical t (trimmed (lang_prefix_length l) w) = Inr k2" "lang_trimmed_map l k2 = None"
    "populate_loop t short False (ii + 1) ws (l\<lparr>lang_word_map := (lang_word_map l)(k1 \<mapsto> ii),
       lang_trimmed_map := (lang_trimmed_map l)(k2 \<mapsto> (trimmed (lang_prefix_length l) w, ii))\<rparr>) = Inr l'"
    using Cons.prems by (auto simp: and_then_Inr Let_def no_pair split: if_splits option.splits)
  note IH = Cons.IH [OF k(4)]
  have map: "(lang_trimmed_map l)(k2 \<mapsto> (trimmed (lang_prefix_length l) w, ii)) \<subseteq>\<^sub>m lang_trimmed_map l'"
    using IH by (simp add: fun_upd_def)
  then have "lang_trimmed_map l \<subseteq>\<^sub>m lang_trimmed_map l'"
    using k(3) by (auto simp: map_le_def dom_def)
  moreover have "knows t l' ii w"
    using IH map k(2) by (auto simp: knows_def map_le_def)
  ultimately show ?case
    using IH by (auto simp: nth_Cons split: nat.split)
qed simp

definition speaks :: "(u32 \<Rightarrow> u32) \<Rightarrow> language \<Rightarrow> bool" where
  "speaks t l \<longleftrightarrow> length (lang_words l) = NWORDS \<and> (\<forall>i < NWORDS. knows t l i (lang_words l ! i))"

lemma populate_maps_speaks:
  assumes "populate_maps t short False l = Inr l'"
  shows "speaks t l' \<and> lang_words l' = lang_words l \<and> lang_name l' = lang_name l"
  using assms populate_loop_knows [of t short 0 "lang_words l" l l']
  by (auto simp: populate_maps_def speaks_def split: if_splits)

section \<open>Reading back what was written\<close>

definition spells :: "language \<Rightarrow> nat list \<Rightarrow> blob list \<Rightarrow> bool" where
  "spells l is ws \<longleftrightarrow> list_all (\<lambda>i. i < NWORDS) is \<and> ws = map ((!) (lang_words l)) is"

lemma speaks_word:
  assumes "speaks t l" "i < NWORDS"
  obtains key where "utf8canonical t (trimmed (lang_prefix_length l) (lang_words l ! i)) = Inr key"
    "lang_trimmed_map l key = Some (trimmed (lang_prefix_length l) (lang_words l ! i), i)"
  using assms by (auto simp: speaks_def knows_def)

lemma match_words_spelled:
  "speaks t l \<Longrightarrow> list_all (\<lambda>i. i < NWORDS) is \<Longrightarrow>
    match_words t True l (map ((!) (lang_words l)) is) = Inr (Some is)"
proof (induction "is")
  case (Cons i "is")
  then obtain key where "utf8canonical t (trimmed (lang_prefix_length l) (lang_words l ! i)) = Inr key"
    "lang_trimmed_map l key = Some (trimmed (lang_prefix_length l) (lang_words l ! i), i)"
    using speaks_word [of t l i] by auto
  then show ?case
    using Cons by (simp add: utf8prefix_trimmed)
qed simp

lemma trimmed_words_spelled:
  "speaks t l \<Longrightarrow> list_all (\<lambda>i. i < NWORDS) is \<Longrightarrow>
    \<exists>s. trimmed_words t l (map ((!) (lang_words l)) is) = Inr s"
proof (induction "is")
  case (Cons i "is")
  then obtain key where "utf8canonical t (trimmed (lang_prefix_length l) (lang_words l ! i)) = Inr key"
    "lang_trimmed_map l key = Some (trimmed (lang_prefix_length l) (lang_words l ! i), i)"
    using speaks_word [of t l i] by auto
  then show ?case
    using Cons by (auto simp: utf8prefix_trimmed)
qed simp

lemma checksum_spelled:
  assumes "speaks t l" "spells l is ws" "is \<noteq> []"
  obtains idx where "create_checksum_index t crc l ws = Inr idx" "idx < length ws"
    "checksum_test t crc l (ws @ [ws ! idx]) = Inr True"
proof -
  obtain s where s: "trimmed_words t l ws = Inr s"
    using trimmed_words_spelled [OF assms(1), of "is"] assms(2) by (auto simp: spells_def)
  define idx where "idx = unat (crc s) mod length ws"
  have ne: "ws \<noteq> []"
    using assms(2,3) by (auto simp: spells_def)
  then have idx: "idx < length ws" "create_checksum_index t crc l ws = Inr idx"
    using s by (simp_all add: idx_def create_checksum_index_def)
  then obtain i where "i < NWORDS" "ws ! idx = lang_words l ! i"
    using assms(2) by (auto simp: spells_def list_all_length)
  then obtain key where "utf8canonical t (trimmed (lang_prefix_length l) (ws ! idx)) = Inr key"
    using speaks_word [OF assms(1)] by metis
  then have "checksum_test t crc l (ws @ [ws ! idx]) = Inr True"
    using idx by (simp add: checksum_test_def)
  then show ?thesis
    using that idx by blast
qed

text \<open>The indices a key is written with.\<close>

fun key_indices :: "blob \<Rightarrow> nat list" where
  "key_indices (b0 # b1 # b2 # b3 # src) =
    (case word_triple 1626 (le32 [b0, b1, b2, b3]) of (w1, w2, w3) \<Rightarrow> unat w1 # unat w2 # unat w3 # key_indices src)"
| "key_indices _ = []"

lemma key_indices_below: "list_all (\<lambda>i. i < NWORDS) (key_indices src)"
proof (induction src rule: key_indices.induct)
  case (1 b0 b1 b2 b3 src)
  obtain w1 w2 w3 where w: "word_triple 1626 (le32 [b0, b1, b2, b3]) = (w1, w2, w3)"
    by (metis prod_cases3)
  then show ?case
    using 1 triple_word_of_triple(2-4) [OF w] by (simp add: NWORDS_def)
qed simp_all

lemma four_more: "(4 + n) div 4 = Suc (n div 4)" for n :: nat
  by simp

lemma length_key_indices: "length (key_indices src) = 3 * (length src div 4)"
  by (induction src rule: key_indices.induct) (auto simp: four_more split: prod.splits)

lemma words_loop_spells:
  assumes "length W = NWORDS"
  shows "words_loop W src = Inr (concat (map (\<lambda>i. W ! i @ [32]) (key_indices src)), map ((!) W) (key_indices src))"
proof (induction src rule: key_indices.induct)
  case (1 b0 b1 b2 b3 src)
  obtain w1 w2 w3 where w: "word_triple 1626 (le32 [b0, b1, b2, b3]) = (w1, w2, w3)"
    by (metis prod_cases3)
  have "(of_nat (length W) :: u32) = 1626"
    using assms by (simp add: NWORDS_def)
  then show ?case
    using 1 w triple_word_of_triple(2-4) [OF w] assms by (simp add: NWORDS_def)
qed simp_all

lemma triples_loop_reads:
  "length src mod 4 = 0 \<Longrightarrow> triples_loop 1626 (length pre) (length src div 4) (concat pre @ key_indices src @ post) dst =
    Inr (Some (dst @ src))" if "list_all (\<lambda>xs. length xs = 3) pre"
  using that
proof (induction src arbitrary: pre dst rule: key_indices.induct)
  case (1 b0 b1 b2 b3 src)
  obtain w1 w2 w3 where w: "word_triple 1626 (le32 [b0, b1, b2, b3]) = (w1, w2, w3)"
    by (metis prod_cases3)
  have len: "length (concat pre) = length pre * 3"
    using 1(3) by (induction pre) auto
  have "triples_loop 1626 (length (pre @ [[unat w1, unat w2, unat w3]])) (length src div 4)
      (concat (pre @ [[unat w1, unat w2, unat w3]]) @ key_indices src @ post) (dst @ [b0, b1, b2, b3]) =
      Inr (Some ((dst @ [b0, b1, b2, b3]) @ src))"
    using 1(2,3) by (intro 1(1) [OF w [symmetric] refl]) auto
  then show ?case
    using w len triple_word_of_triple(1) [OF w] bytes32_le32 [of "[b0, b1, b2, b3]"]
    by (simp add: at_def nth_append four_more)
qed simp_all

section \<open>The round trip of a key\<close>

text \<open>A language that does not take a seed: a word of it is missing, or the checksum is wrong.\<close>

definition refuses :: "(u32 \<Rightarrow> u32) \<Rightarrow> (blob \<Rightarrow> u32) \<Rightarrow> blob list \<Rightarrow> language \<Rightarrow> bool" where
  "refuses t crc seed l \<longleftrightarrow> match_words t True l seed = Inr None \<or>
    (\<exists>is. match_words t True l seed = Inr (Some is) \<and> checksum_test t crc l seed = Inr False)"

lemma find_seed_language_first:
  assumes "match_words t True l seed = Inr (Some is)" "checksum_test t crc l seed = Inr True"
  shows "list_all (refuses t crc seed) before \<Longrightarrow>
    find_seed_language_loop t crc seed True fallback (before @ l # after) = Inr (Some (l, is))"
  using assms by (induction before arbitrary: fallback) (auto simp: refuses_def)

lemma join_spaced: "concat (map (\<lambda>w. w @ [32]) ws) @ c = join_words (ws @ [c])"
proof (induction ws)
  case (Cons w ws)
  then show ?case
    by (cases "ws @ [c]") simp_all
qed simp

lemma whole_words:
  assumes "length src mod 4 = 0" "src \<noteq> []"
  obtains k where "length src = 4 * k" "0 < k"
proof -
  obtain k where "length src = 4 * k"
    using assms(1) by (auto simp: mod_eq_0_iff_dvd dvd_def)
  moreover from this have "0 < k"
    using assms(2) by (cases k) auto
  ultimately show ?thesis
    using that by blast
qed

lemma bytes_to_words_spells:
  assumes l: "speaks t l" "length (lang_words l) = NWORDS" and named: "named_language languages name = Some l"
    and src: "length src mod 4 = 0" "src \<noteq> []"
  obtains ws c where "spells l (key_indices src @ [c]) ws" "length ws = 3 * (length src div 4) + 1"
    "bytes_to_words t crc languages src name = Inr (Some (join_words ws))" "checksum_test t crc l ws = Inr True"
proof -
  define store where "store = map ((!) (lang_words l)) (key_indices src)"
  have spells: "spells l (key_indices src) store"
    by (simp add: spells_def store_def key_indices_below)
  obtain k where k: "length src = 4 * k" "0 < k"
    using whole_words [OF src] .
  then have len: "length (key_indices src) = 3 * (length src div 4)" "key_indices src \<noteq> []"
    using length_key_indices [of src] by auto
  obtain idx where idx: "create_checksum_index t crc l store = Inr idx" "idx < length store"
      "checksum_test t crc l (store @ [store ! idx]) = Inr True"
    using checksum_spelled [OF l(1) spells len(2)] .
  have "concat (map (\<lambda>i. lang_words l ! i @ [32]) (key_indices src)) @ store ! idx = join_words (store @ [store ! idx])"
    unfolding join_spaced [symmetric] by (simp add: store_def comp_def)
  then have "bytes_to_words t crc languages src name = Inr (Some (join_words (store @ [store ! idx])))"
    using src named words_loop_spells [OF l(2), of src] idx
    by (simp add: bytes_to_words_def store_def [symmetric] at_def)
  moreover have "spells l (key_indices src @ [key_indices src ! idx]) (store @ [store ! idx])"
    using spells idx(2) by (auto simp: spells_def store_def list_all_iff)
  moreover have "length (store @ [store ! idx]) = 3 * (length src div 4) + 1"
    using len by (simp add: store_def)
  ultimately show ?thesis
    using that idx(3) by blast
qed

lemma words_to_bytes_checked:
  assumes "ws_split words = ws" "len mod 4 = 0" "0 < len" "length ws = len * 8 * 3 div 32 + 1"
    "find_seed_language t crc languages ws True = Inr (Some (l, is))" "checksum_test t crc l ws = Inr True"
    "triples_loop (of_nat (length (lang_words l))) 0 ((length ws - 1) div 3) is [] = Inr (Some dst)"
    "length ws - 1 \<noteq> len * 3 div 32 div 2"
  shows "words_to_bytes t crc languages words len duplicate = Inr (Some (dst, lang_name l))"
proof -
  define e d n where "e = len * 8 * 3 div 32" and "d = len * 3 div 32 div 2" and "n = length ws"
  have "n = e + 1" "n \<noteq> e div 2" "n - 1 \<noteq> d" "length (butlast ws) = n - 1"
    using assms(4,8) by (simp_all add: e_def d_def n_def)
  then show ?thesis
    unfolding words_to_bytes_def Let_def assms(1) e_def [symmetric] d_def [symmetric] n_def [symmetric]
    using assms(2,3,5,6,7) by (simp add: n_def [symmetric])
qed

lemma words_to_bytes_reads:
  assumes l: "speaks t l" "length (lang_words l) = NWORDS" and src: "length src mod 4 = 0" "src \<noteq> []"
    and ws: "spells l (key_indices src @ [c]) ws" "length ws = 3 * (length src div 4) + 1" "checksum_test t crc l ws = Inr True"
    and plain: "list_all plain_word (lang_words l)" and before: "list_all (refuses t crc ws) before"
  shows "words_to_bytes t crc (before @ l # after) (join_words ws) (length src) duplicate = Inr (Some (src, lang_name l))"
proof -
  obtain k where k: "length src = 4 * k" "0 < k"
    using whole_words [OF src] .
  have split: "ws_split (join_words ws) = ws"
    using ws(1) l(2) plain by (intro ws_split_join) (auto simp: spells_def list_all_iff)
  have found: "find_seed_language t crc (before @ l # after) ws True = Inr (Some (l, key_indices src @ [c]))"
    unfolding find_seed_language_def
    using match_words_spelled [OF l(1), of "key_indices src @ [c]"] ws(1) before
    by (intro find_seed_language_first ws(3)) (simp_all add: spells_def)
  have read: "triples_loop 1626 0 k (key_indices src @ [c]) [] = Inr (Some src)"
    using triples_loop_reads [of "[]" src "[c]" "[]"] src k by simp
  have "(of_nat (length (lang_words l)) :: u32) = 1626"
    using l(2) by (simp add: NWORDS_def)
  moreover have "3 * k \<noteq> 4 * k * 3 div 32 div 2"
    using k(2) by linarith
  ultimately show ?thesis
    using words_to_bytes_checked [OF split _ _ _ found ws(3)] ws(2) k read by simp
qed

text \<open>C13. A key written as seed words is read back. In a language whose word list passes the checks
  of \<open>populate_maps\<close> (1626 words, no two with the same prefix), whose words hold no space, and which
  is the one of the given name, \<open>bytes_to_words\<close> turns every key of whole 32-bit words into seed
  words; \<open>words_to_bytes\<close> then returns that key and the language's name, whatever languages come
  after it in the search order, as long as those before it lack a word of the seed or find its
  checksum wrong. The sums and products stay in 32-bit arithmetic as in the code.\<close>
theorem seed_words_roundtrip:
  assumes "populate_maps t allow_short False (new_language nm en ws p) = Inr l" "list_all plain_word ws"
    and "named_language languages name = Some l"
    and "length src mod 4 = 0" "src \<noteq> []"
  shows "\<exists>words. bytes_to_words t crc languages src name = Inr (Some words) \<and>
    (\<forall>before after duplicate. list_all (refuses t crc (ws_split words)) before \<longrightarrow>
      words_to_bytes t crc (before @ l # after) words (length src) duplicate = Inr (Some (src, lang_name l)))"
proof -
  have l: "speaks t l" "length (lang_words l) = NWORDS" "lang_words l = ws"
    using populate_maps_speaks [OF assms(1)] by (auto simp: new_language_def speaks_def)
  obtain seed c where seed: "spells l (key_indices src @ [c]) seed" "length seed = 3 * (length src div 4) + 1"
      "bytes_to_words t crc languages src name = Inr (Some (join_words seed))" "checksum_test t crc l seed = Inr True"
    using bytes_to_words_spells [OF l(1,2) assms(3-5)] .
  have "ws_split (join_words seed) = seed"
    using seed(1) l assms(2) by (intro ws_split_join) (auto simp: spells_def list_all_iff)
  then show ?thesis
    using words_to_bytes_reads [OF l(1,2) assms(4,5) seed(1,2,4)] seed(3) l(3) assms(2) by auto
qed

section \<open>A language of three-letter words\<close>

lemma ascii_canonical: "list_all (\<lambda>c. c < 128) w \<Longrightarrow> utf8canonical (\<lambda>c. c) w = Inr w"
proof (induction w)
  case Nil
  show ?case
    by (simp add: utf8canonical.simps)
next
  case (Cons c w)
  have "unat c < 128"
    using Cons(2) by (simp add: word_less_nat_alt)
  moreover have "bit c 7 \<longleftrightarrow> bit (unat c) 7"
    by (simp add: bit_unsigned_iff)
  ultimately have "\<not> bit c 7"
    by (simp add: bit_iff_odd)
  then have "c AND 128 = 0"
    using and_exp_eq_0_iff_not_bit [of c 7] by simp
  moreover have "(ucast (ucast c :: u32) :: byte) = c"
    by (rule bit_word_eqI) (simp add: bit_ucast_iff)
  moreover have "unat (ucast c :: u32) \<le> 127"
    using \<open>unat c < 128\<close> by (simp add: unsigned_ucast_eq take_bit_nat_eq_self)
  ultimately show ?case
    using Cons by (subst utf8canonical.simps) (simp add: utf8_decode_def utf8_encode_def word_le_nat_alt)
qed

lemma populate_loop_returns:
  assumes "list_all (\<lambda>w. length w = lang_prefix_length l \<and> list_all (\<lambda>c. c < 128) w) ws"
    "distinct ws" "\<forall>w \<in> set ws. lang_trimmed_map l w = None"
  shows "\<exists>l'. populate_loop (\<lambda>c. c) short False ii ws l = Inr l' \<and> lang_name l' = lang_name l"
  using assms
proof (induction ws arbitrary: ii l)
  case (Cons w ws)
  define l0 where "l0 = l\<lparr>lang_word_map := (lang_word_map l)(w \<mapsto> ii), lang_trimmed_map := (lang_trimmed_map l)(w \<mapsto> (w, ii))\<rparr>"
  have "\<exists>l'. populate_loop (\<lambda>c. c) short False (ii + 1) ws l0 = Inr l' \<and> lang_name l' = lang_name l0"
    using Cons(2-4) by (intro Cons(1)) (auto simp: l0_def list_all_iff)
  moreover have "populate_loop (\<lambda>c. c) short False ii (w # ws) l = populate_loop (\<lambda>c. c) short False (ii + 1) ws l0"
    using Cons(2-4) by (simp add: ascii_canonical trimmed_def Let_def l0_def)
  ultimately show ?case
    by (simp add: l0_def)
qed simp

definition sample_word :: "nat \<Rightarrow> blob" where
  "sample_word i = [97 + of_nat (i div 676), 97 + of_nat (i div 26 mod 26), 97 + of_nat (i mod 26)]"

definition sample_words :: "blob list" where
  "sample_words = map sample_word [0..<NWORDS]"

definition sample_language :: language where
  "sample_language = projr (populate_maps (\<lambda>c. c) False False (new_language [120] [121] sample_words 3))"

lemma unat_letter: "n < 26 \<Longrightarrow> unat (97 + of_nat n :: byte) = 97 + n"
  using unat_of_nat [of "97 + n", where ?'a = 8] by simp

lemma sample_word_letters:
  assumes "i < 1626"
  shows "map unat (sample_word i) = [97 + i div 676, 97 + i div 26 mod 26, 97 + i mod 26]"
  using assms by (simp add: sample_word_def unat_letter)

lemma sample_words_distinct: "distinct sample_words"
proof -
  have "inj_on sample_word {0..<NWORDS}"
  proof (rule inj_onI)
    fix i j
    assume "i \<in> {0..<NWORDS}" "j \<in> {0..<NWORDS}" "sample_word i = sample_word j"
    then have "map unat (sample_word i) = map unat (sample_word j)" "i < 1626" "j < 1626"
      by (simp_all add: NWORDS_def)
    then have "i div 676 = j div 676" "i div 26 mod 26 = j div 26 mod 26" "i mod 26 = j mod 26"
      by (simp_all add: sample_word_letters)
    moreover have "n div 676 = n div 26 div 26" for n :: nat
      using div_mult2_eq [of n 26 26] by simp
    ultimately have "i div 26 = j div 26"
      by (metis div_mult_mod_eq)
    then show "i = j"
      using \<open>i mod 26 = j mod 26\<close> by (metis div_mult_mod_eq)
  qed
  then show ?thesis
    by (simp add: sample_words_def distinct_map)
qed

lemma sample_word_plain:
  assumes "w \<in> set sample_words"
  shows "length w = 3 \<and> list_all (\<lambda>c. c < 128) w \<and> plain_word w"
proof -
  obtain i where i: "i < 1626" "w = sample_word i"
    using assms by (auto simp: sample_words_def NWORDS_def simp del: upt_rec_numeral)
  have "97 \<le> c \<and> c < 128" if "c \<in> set w" for c
  proof -
    have "unat c \<in> set (map unat (sample_word i))"
      using that i by simp
    moreover have "i div 676 < 26"
      using i(1) by simp
    ultimately have "97 \<le> unat c \<and> unat c < 128"
      unfolding sample_word_letters [OF i(1)] using mod_less_divisor [of 26 i] mod_less_divisor [of 26 "i div 26"]
      by auto
    then show ?thesis
      by (simp add: word_le_nat_alt word_less_nat_alt)
  qed
  moreover have "length w = 3"
    by (simp add: i(2) sample_word_def)
  moreover have "\<not> isspace c" if "97 \<le> c" for c
    using that by (auto simp: isspace_def word_le_nat_alt)
  ultimately show ?thesis
    by (auto simp: plain_word_def list_all_iff)
qed

lemma sample_language_populated:
  "populate_maps (\<lambda>c. c) False False (new_language [120] [121] sample_words 3) = Inr sample_language"
  "lang_name sample_language = [120]"
proof -
  have "length sample_words = NWORDS"
    by (simp add: sample_words_def)
  then have "\<exists>l. populate_maps (\<lambda>c. c) False False (new_language [120] [121] sample_words 3) = Inr l \<and> lang_name l = [120]"
    using populate_loop_returns [of "new_language [120] [121] sample_words 3" sample_words False 0] sample_words_distinct
      sample_word_plain
    by (simp add: populate_maps_def new_language_def list_all_iff)
  then show "populate_maps (\<lambda>c. c) False False (new_language [120] [121] sample_words 3) = Inr sample_language"
    "lang_name sample_language = [120]"
    by (auto simp: sample_language_def)
qed

definition sample_key :: blob where
  "sample_key = [1, 2, 3, 4, 250, 251, 252, 253]"

lemma sample_key_length: "length sample_key = 8"
  by (simp add: sample_key_def)

theorem seed_words_roundtrip_witness:
  "\<exists>words. bytes_to_words (\<lambda>c. c) (\<lambda>s. of_nat (length s)) [sample_language] sample_key [120] = Inr (Some words) \<and>
    words_to_bytes (\<lambda>c. c) (\<lambda>s. of_nat (length s)) [sample_language] words 8 False = Inr (Some (sample_key, [120]))"
proof -
  have plain: "list_all plain_word sample_words"
    using sample_word_plain by (simp add: list_all_iff)
  have named: "named_language [sample_language] [120] = Some sample_language"
    by (simp add: named_language_def sample_language_populated)
  have whole: "length sample_key mod 4 = 0" "sample_key \<noteq> []"
    by (simp_all add: sample_key_def)
  obtain words where words: "bytes_to_words (\<lambda>c. c) (\<lambda>s. of_nat (length s)) [sample_language] sample_key [120] = Inr (Some words)"
    and reads: "\<forall>before after duplicate. list_all (refuses (\<lambda>c. c) (\<lambda>s. of_nat (length s)) (ws_split words)) before \<longrightarrow>
      words_to_bytes (\<lambda>c. c) (\<lambda>s. of_nat (length s)) (before @ sample_language # after) words (length sample_key) duplicate =
        Inr (Some (sample_key, lang_name sample_language))"
    using seed_words_roundtrip [OF sample_language_populated(1) plain named whole, of "\<lambda>s. of_nat (length s)"] by blast
  show ?thesis
    using words reads [rule_format, of "[]" "[]" False]
    by (simp add: sample_language_populated sample_key_length)
qed

section \<open>Seeds of twelve words\<close>

lemma triples_loop_length:
  "triples_loop n i k is dst = Inr (Some r) \<Longrightarrow> length r = length dst + 4 * k"
  by (induction n i k "is" dst rule: triples_loop.induct) (fastforce simp: and_then_Inr split: option.splits)+

lemma words_to_bytes_length:
  assumes "words_to_bytes t crc languages words 32 duplicate = Inr (Some (s, name))"
  shows "length s = 4 * (min 24 (length (ws_split words)) div 3)"
proof -
  define seed where "seed = ws_split words"
  define checked where "checked \<longleftrightarrow> length seed = 25"
  define body where "body = (if checked then butlast seed else seed)"
  have len: "length seed = 12 \<or> length seed = 24 \<or> length seed = 25"
    using assms by (simp add: words_to_bytes_def seed_def [symmetric] Let_def split: if_splits)
  then have body: "length body = min 24 (length seed)"
    by (auto simp: body_def checked_def)
  have "\<exists>n is. triples_loop n 0 (length body div 3) is [] = Inr (Some s)"
    using assms len
    by (auto simp: words_to_bytes_def seed_def [symmetric] Let_def and_then_Inr body_def checked_def
        split: if_splits option.splits) blast+
  then show ?thesis
    using triples_loop_length body by (fastforce simp: seed_def)
qed

text \<open>C26. A seed of twelve words never becomes a secret key. \<open>words_to_bytes\<close> lets half the expected
  number of words through and means to duplicate the sixteen bytes it gets from them, but it then
  compares the number of words with \<open>len * 3 / 32 / 2\<close>, which is 1, so that the bytes stay sixteen
  and the overload for secret keys refuses them; only seeds of 24 and of 25 words are accepted.\<close>
theorem twelve_word_seed_refused:
  assumes "length (ws_split words) = 12"
  shows "words_to_secret_key t crc languages words \<noteq> Inr (Some r)"
proof
  assume "words_to_secret_key t crc languages words = Inr (Some r)"
  then obtain s name where s: "words_to_bytes t crc languages words 32 True = Inr (Some (s, name))" "length s = 32"
    by (auto simp: words_to_secret_key_def and_then_Inr split: option.splits if_splits)
  then show False
    using words_to_bytes_length [OF s(1)] assms by simp
qed

theorem twelve_word_seed_refused_witness:
  "words_to_secret_key (\<lambda>c. c) (\<lambda>s. of_nat (length s)) [sample_language] (join_words (replicate 12 (sample_word 0))) \<noteq>
    Inr (Some (replicate 32 0, [120]))"
proof -
  have "plain_word (sample_word 0)"
    by (simp add: sample_word_def plain_word_def isspace_def)
  then have "list_all plain_word (replicate 12 (sample_word 0))"
    by (simp add: list_all_iff)
  then have "length (ws_split (join_words (replicate 12 (sample_word 0)))) = 12"
    by (simp add: ws_split_join)
  then show ?thesis
    by (rule twelve_word_seed_refused)
qed

end
