(* ===== verification/Spec2Isabelle.thy ===== *)
theory Spec2Isabelle
  imports Base58 Tree_Hash HardFork I18n Scalar25519 Include_Dirs Money Pruning Permutation Combinator Checkpoints Spinner Fees Mnemonics
begin

text \<open>
  A verification development for gyro, a fork of Monero (C and C++) in which blocks are produced by a
  proof of spin instead of mining. Definitions are translated from the sources under
  \<open>src/\<close>; the paths below are relative to \<open>src/src\<close> unless they begin with \<open>contrib\<close>, \<open>external\<close> or \<open>translations\<close>.

  \<^bold>\<open>The parts of the program and how they interact.\<close> A node keeps a chain of blocks in a database
  (\<open>blockchain_db\<close>); \<open>cryptonote_core/blockchain.cpp\<close> validates blocks and calls the components modelled here: the hard-fork
  votes (\<open>cryptonote_basic/hardfork.cpp\<close>), the checkpoints (\<open>checkpoints\<close>), the spinner data and spin vectors, which use
  \<open>common/gyro.cpp\<close> and \<open>common/spin.cpp\<close>, the reward and amount checks (\<open>cryptonote_basic\<close>), and the pruning
  schedule (\<open>common/pruning.cpp\<close>). Hashes are Keccak (\<open>crypto/keccak.c\<close>), block hashes use the tree hash
  (\<open>crypto/tree-hash.c\<close>), signatures the scalar arithmetic of \<open>crypto/crypto-ops.c\<close>. Addresses are texts in base 58 (\<open>common/base58.cpp\<close>)
  over variable-length integers (\<open>common/varint.h\<close>) and a Keccak checksum. The wallet programs translate
  their messages with \<open>common/i18n.cpp\<close> from catalogues compiled from \<open>translations\<close>.

  \<^bold>\<open>Conventions.\<close> Machine integers are words of their width (\<open>u8\<close> to \<open>u64\<close>; 128 and 256 bits for the unchecked fixed-width integers of boost in the spinner and gyro arithmetic), so that
  sums, products and shifts wrap as they do in C++; the scalar arithmetic writes 64-bit wrap-around out on integers. A byte string
  is a \<open>blob\<close>. An exception, a failed assertion, a division by zero or an access outside a container is an \<open>Inl\<close> of
  \<open>result\<close>; a returned \<open>false\<close> is \<open>None\<close> or a boolean. A loop that may not end is a partial function whose value \<open>None\<close>
  means that it does not return; no definition uses fuel. Functions of third-party libraries (the integers of boost in the reward, \<open>lexical_cast\<close>,
  the resolver) are arguments; what the theorems need of them are hypotheses that
  state their documentation, and every such theorem has a witness with concrete functions.

  \<^bold>\<open>The theories.\<close>

  \<^item> \<open>Gyro_Prelude\<close>: the machine types, \<open>result\<close>, the rewrite collections \<open>byte_simps\<close> and \<open>range_simps\<close>, and the
    locale \<open>codec\<close>, the contract of a pair of coding functions. It is interpreted for base 58 and for the raw form of gyros.
  \<^item> \<open>Std_Map\<close>: \<open>std::map\<close> as a sorted list, behind the locale \<open>ordered_map\<close>; its interpretation carries the queries of the checkpoints.
  \<^item> \<open>Varint\<close>: \<open>common/varint.h\<close>. Reading inverts writing; exactly the shortest encodings are read in full; overflow is refused at each width.
  \<^item> \<open>Int_Util\<close>: \<open>contrib/epee/include/int-util.h\<close>. The 128-bit product and quotients are exact; swaps and clamped sums.
  \<^item> \<open>Hex\<close>: \<open>contrib/epee/src/hex.cpp\<close>. Decoding inverts encoding up to the case of letters; the reader of separated text stays in its input.
  \<^item> \<open>Keccak\<close>: \<open>crypto/keccak.c\<close> and \<open>cn_fast_hash\<close>. Hashing in pieces equals hashing at once, for all cuts and alignments; a digest of 100 bytes never returns.
  \<^item> \<open>Tree_Hash\<close>: \<open>crypto/tree-hash.c\<close>. The in-place algorithm computes the Merkle root within its buffer; equal roots mean equal leaves or a collision among the strings that
    the two runs hash.
  \<^item> \<open>Base58\<close>: \<open>common/base58.cpp\<close>. Coding is a bijection on its image; addresses round trip and are not malleable.
  \<^item> \<open>Digits\<close>, \<open>Limbs\<close> and \<open>Scalar25519\<close>: the \<open>sc_*\<close> functions of \<open>crypto/crypto-ops.c\<close>. The straight-line code is data that one interpreter runs; an interval
    analysis, proved sound, shows that no limb overflows, and the results are the canonical residues modulo the group order.
    The locale \<open>residue_arithmetic\<close> is the contract of such arithmetic and is interpreted for the functions.
  \<^item> \<open>HardFork\<close>: \<open>cryptonote_basic/hardfork.cpp\<close> with \<open>hardforks/hardforks.cpp\<close>. The window and the counts follow the chain, a restart
    reproduces the running state, votes are decided as documented, and a supported fork is activated. \<open>grows\<close> is the step relation of a growing chain.
  \<^item> \<open>Checkpoints\<close>: \<open>checkpoints/checkpoints.cpp\<close> and \<open>load_txt_records_from_dns\<close>. \<open>checkpoint_step\<close> is the relation of all changes; heights are sorted, verdicts
    are final, the queries say what the set of checkpoints says, and DNS records need a quorum.
  \<^item> \<open>Money\<close>: the reward of \<open>cryptonote_basic_impl.cpp\<close> and the amounts of \<open>cryptonote_format_utils.cpp\<close>. Exact penalty, printing and parsing, decomposition, overflow checks.
  \<^item> \<open>Sift_Heap\<close>, \<open>Rolling_Median\<close> and \<open>Rolling_Window\<close>: \<open>contrib/epee/include/rolling_median.h\<close>. \<open>Sift_Heap\<close> has sifting in a heap once, in the locale \<open>heap_order\<close>, which
    is interpreted for the two heaps of the code; the rolling median then returns the median of the last values, as sorting would.
  \<^item> \<open>Block_Weight\<close>: the weight limit of \<open>cryptonote_core/blockchain.cpp\<close> with its cache and the reads of \<open>blockchain_db/lmdb/db_lmdb.cpp\<close>. \<open>weights_reach\<close> is the relation of adding
    and popping blocks; along it, under the long-term rule, the cached node computes what the bare chain gives; across the fork to that rule a running and a reloaded node differ.
  \<^item> \<open>Fees\<close>: the fee checks of the same file, on top of the reward and the weight limit. The accepted fees are those of the rule in unbounded arithmetic.
  \<^item> \<open>Wipeable_String\<close>: \<open>contrib/epee/src/wipeable_string.cpp\<close>. Trimming, splitting, and the second reader of hexadecimal text, which agrees with \<open>Hex\<close>.
  \<^item> \<open>Mnemonics\<close>: \<open>mnemonics/electrum-words.cpp\<close>, \<open>mnemonics/language_base.h\<close> and \<open>common/utf8.h\<close>. A key written as seed words is read back; a seed of twelve words never is.
  \<^item> \<open>Gyro\<close>: \<open>common/spin.cpp\<close> and \<open>common/gyro.cpp\<close>. No division by zero, and the range of what is converted to bytes.
  \<^item> \<open>Spinner\<close>: \<open>get_spinner_data\<close>, \<open>calc_spinner_transaction_locked\<close> and \<open>get_spin\<close> of \<open>cryptonote_core/blockchain.cpp\<close>. Bounds on a successful step, the length of
    the drawn vector, and two ways in which a block can stop the search or the chain.
  \<^item> \<open>Pruning\<close>, \<open>Permutation\<close>, \<open>Combinator\<close>: \<open>common/pruning.cpp\<close>, \<open>common/apply_permutation.h\<close> and \<open>common/combinator.h\<close>.
  \<^item> \<open>I18n\<close>: \<open>common/i18n.cpp\<close> with every read of the file checked; the messages of a loaded catalogue are translated.
  \<^item> \<open>Include_Dirs\<close>: \<open>external/rapidjson/include_dirs.js\<close> with the path functions it calls.

  \<^bold>\<open>Bounds.\<close> Windows of votes are below \<open>2\<^sup>3\<^sup>2\<close> and chains below \<open>2\<^sup>6\<^sup>4\<close> blocks, which the types of the counters require; QM files are below 4 GiB,
  the range of their offsets; heights of the pruning searches are those the code admits; spins are below \<open>2\<^sup>5\<^sup>4\<close>, where the
  64-bit product with 1024 does not wrap.

  \<^bold>\<open>Not modelled.\<close> The database engine (only the tables a component reads), the network and RPC servers, the daemon and wallet
  programs, serialization of blocks and transactions (spinner data and proofs are given as what parsing yields), the curve and ring-signature
  arithmetic (\<open>fe_*\<close>, \<open>ge_*\<close>, \<open>ringct\<close>), the CryptoNight and RandomX hashes, hardware devices, and the bundled third-party code. They are I/O,
  concurrency or generated code, or depend on libraries that are not in the repository.
\<close>

end
